(* ===== verification/Go_Prelude.thy ===== *)
theory Go_Prelude
  imports Complex_Main "HOL-Library.Word"
begin

text \<open>
  What the components share of the Go language and of its standard library: panics as values,
  the fixed-width integers (\<^verbatim>\<open>int64\<close>, \<^verbatim>\<open>int32\<close>) as \<^typ>\<open>int\<close> with the wrap-around written
  out, \<^verbatim>\<open>strconv\<close> (\<^verbatim>\<open>ParseInt\<close>, \<^verbatim>\<open>ParseBool\<close>, \<^verbatim>\<open>Itoa\<close>), the functions of package
  \<^verbatim>\<open>strings\<close> that the code calls (a Go string is a byte string, so \<^typ>\<open>string\<close> is exact),
  Go maps as association lists in an arbitrary iteration order, and the random number
  functions as functions of the raw value drawn.  The collection \<open>go_defs\<close> holds the
  defining equations of the small library functions.
\<close>

named_theorems go_defs

section \<open>Panics and dynamic values\<close>

datatype panic =
    NilDereference
  | IndexOutOfRange
  | InvalidArgument
  | DivideByZero
  | Panicked string

type_synonym 'a go = "panic + 'a"

text \<open>
  Values of type \<^verbatim>\<open>any\<close>: the dynamic types the modelled code asserts on are constructors, every
  other dynamic type is \<open>GOther\<close> with a number that tells its values apart.
\<close>

datatype go_any =
    GNil
  | GStr string
  | GStrs "string list"
  | GBool bool
  | GInt int
  | GUint64 "64 word"
  | GOther nat

section \<open>Fixed-width integers\<close>

definition wrap64 :: "int \<Rightarrow> int" where
  "wrap64 x = (x + 2 ^ 63) mod 2 ^ 64 - 2 ^ 63"

definition wrap32 :: "int \<Rightarrow> int" where
  "wrap32 x = (x + 2 ^ 31) mod 2 ^ 32 - 2 ^ 31"

abbreviation MinInt64 :: int where
  "MinInt64 \<equiv> - (2 ^ 63)"

abbreviation MaxInt64 :: int where
  "MaxInt64 \<equiv> 2 ^ 63 - 1"

definition in_int64 :: "int \<Rightarrow> bool" where
  "in_int64 x \<longleftrightarrow> - (2 ^ 63) \<le> x \<and> x < 2 ^ 63"

lemma wrap64_id [simp]: "in_int64 x \<Longrightarrow> wrap64 x = x"
  by (simp add: wrap64_def in_int64_def)

lemma in_int64_wrap64 [simp]: "in_int64 (wrap64 x)"
proof -
  have "0 \<le> (x + 2 ^ 63) mod 2 ^ 64" and "(x + 2 ^ 63) mod 2 ^ 64 < (2 ^ 64 :: int)"
    by simp_all
  then show ?thesis by (simp add: wrap64_def in_int64_def)
qed

lemma wrap32_id [simp]: "- (2 ^ 31) \<le> x \<Longrightarrow> x < 2 ^ 31 \<Longrightarrow> wrap32 x = x"
  by (simp add: wrap32_def)

lemma wrap64_wrap64_add [simp]: "wrap64 (wrap64 x + y) = wrap64 (x + y)"
  by (simp add: wrap64_def algebra_simps mod_simps)

lemma wrap32_wrap32_add [simp]: "wrap32 (wrap32 x + y) = wrap32 (x + y)"
  by (simp add: wrap32_def algebra_simps mod_simps)

lemma in_int64_between: "in_int64 a \<Longrightarrow> in_int64 b \<Longrightarrow> a \<le> x \<Longrightarrow> x \<le> b \<Longrightarrow> in_int64 x"
  by (simp add: in_int64_def)

text \<open>Go's \<^verbatim>\<open>/\<close> and \<^verbatim>\<open>%\<close> truncate towards zero.\<close>

definition go_div :: "int \<Rightarrow> int \<Rightarrow> int" where
  "go_div a b = sgn a * sgn b * (\<bar>a\<bar> div \<bar>b\<bar>)"

definition go_mod :: "int \<Rightarrow> int \<Rightarrow> int" where
  "go_mod a b = a - b * go_div a b"

lemma go_div_nonneg: "0 \<le> a \<Longrightarrow> 0 < b \<Longrightarrow> go_div a b = a div b"
  by (cases "a = 0") (simp_all add: go_div_def)

lemma go_mod_nonneg: "0 \<le> a \<Longrightarrow> 0 < b \<Longrightarrow> go_mod a b = a mod b"
  by (simp add: go_mod_def go_div_nonneg minus_mult_div_eq_mod)

section \<open>Random draws\<close>

text \<open>
  \<^verbatim>\<open>rand.Int63n(n)\<close> and \<^verbatim>\<open>rand.Intn(n)\<close> return any value of \<open>[0, n)\<close> and panic when
  \<open>n \<le> 0\<close>.  The raw draw \<open>r\<close> is an argument; as \<open>r\<close> ranges over the natural numbers
  the result ranges over exactly the values the library may return.
\<close>

definition Intn :: "nat \<Rightarrow> int \<Rightarrow> int go" where
  "Intn r n = (if n \<le> 0 then Inl InvalidArgument else Inr (int r mod n))"

lemma Intn_Inr: "Intn r n = Inr k \<Longrightarrow> 0 \<le> k \<and> k < n"
  by (auto simp: Intn_def split: if_splits)

lemma Intn_pos [simp]: "0 < n \<Longrightarrow> Intn r n = Inr (int r mod n)"
  by (simp add: Intn_def)

lemma Intn_onto: "0 \<le> k \<Longrightarrow> k < n \<Longrightarrow> Intn (nat k) n = Inr k"
  by (simp add: Intn_def)

text \<open>\<^verbatim>\<open>xs[i]\<close> on a slice.\<close>

definition go_nth :: "'a list \<Rightarrow> int \<Rightarrow> 'a go" where
  "go_nth xs i = (if 0 \<le> i \<and> i < int (length xs) then Inr (xs ! nat i) else Inl IndexOutOfRange)"

lemma go_nth_Inr: "go_nth xs i = Inr x \<Longrightarrow> x \<in> set xs"
  by (auto simp: go_nth_def split: if_splits)

lemma go_nth_in [simp]: "0 \<le> i \<Longrightarrow> i < int (length xs) \<Longrightarrow> go_nth xs i = Inr (xs ! nat i)"
  by (simp add: go_nth_def)

lemma go_nth_of_nat [simp]: "k < length xs \<Longrightarrow> go_nth xs (int k) = Inr (xs ! k)"
  by (simp add: go_nth_def)

text \<open>Sequencing: a panic ends the computation.\<close>

definition go_bind :: "'a go \<Rightarrow> ('a \<Rightarrow> 'b go) \<Rightarrow> 'b go" where
  "go_bind m f = (case m of Inl p \<Rightarrow> Inl p | Inr x \<Rightarrow> f x)"

lemma go_bind_simps [simp]:
  "go_bind (Inl p) f = Inl p"
  "go_bind (Inr x) f = f x"
  by (simp_all add: go_bind_def)

lemma go_bind_Inr_iff: "go_bind m f = Inr y \<longleftrightarrow> (\<exists>x. m = Inr x \<and> f x = Inr y)"
  by (cases m) auto

lemma go_bindE [elim]:
  assumes "go_bind m f = Inr y" obtains x where "m = Inr x" "f x = Inr y"
  using assms by (cases m) auto

text \<open>\<^verbatim>\<open>return xs[i]\<close> where the result is an interface value that may be nil.\<close>

text \<open>Operations on a state that may panic; the state changes made before a panic stay.\<close>

type_synonym ('s, 'a) proc = "'s \<Rightarrow> 'a go \<times> 's"

definition proc_bind :: "('s, 'a) proc \<Rightarrow> ('a \<Rightarrow> ('s, 'b) proc) \<Rightarrow> ('s, 'b) proc" where
  "proc_bind m f s = (case m s of (Inl p, s') \<Rightarrow> (Inl p, s') | (Inr x, s') \<Rightarrow> f x s')"

definition proc_lift :: "'a go \<Rightarrow> ('s, 'a) proc" where
  "proc_lift r s = (r, s)"

definition proc_return :: "'a \<Rightarrow> ('s, 'a) proc" where
  "proc_return x s = (Inr x, s)"

lemma proc_bind_simps [simp]:
  "m s = (Inl p, s') \<Longrightarrow> proc_bind m f s = (Inl p, s')"
  "m s = (Inr x, s') \<Longrightarrow> proc_bind m f s = f x s'"
  by (simp_all add: proc_bind_def)

lemma proc_bind_Inr_iff:
  "proc_bind m f s = (Inr y, t) \<longleftrightarrow> (\<exists>x s'. m s = (Inr x, s') \<and> f x s' = (Inr y, t))"
  by (auto simp: proc_bind_def split: prod.splits sum.splits)

lemma proc_bindE [elim]:
  assumes "proc_bind m f s = (Inr y, t)" obtains x s' where "m s = (Inr x, s')" "f x s' = (Inr y, t)"
  using assms by (auto simp: proc_bind_Inr_iff)

lemma proc_return_simps [simp]: "proc_return x s = (Inr x, s)" "proc_lift r s = (r, s)"
  by (simp_all add: proc_return_def proc_lift_def)

definition go_elem :: "'a list \<Rightarrow> int \<Rightarrow> 'a option go" where
  "go_elem xs i = go_bind (go_nth xs i) (\<lambda>x. Inr (Some x))"

lemma go_elem_member: "go_elem xs i = Inr (Some x) \<Longrightarrow> x \<in> set xs"
  by (auto simp: go_elem_def go_bind_Inr_iff dest: go_nth_Inr)

lemma go_elem_in [simp]: "0 \<le> i \<Longrightarrow> i < int (length xs) \<Longrightarrow> go_elem xs i = Inr (Some (xs ! nat i))"
  by (simp add: go_elem_def)

section \<open>Maps\<close>

text \<open>
  A Go map is an association list with distinct keys; the order of the list is the
  (unspecified) order in which \<^verbatim>\<open>range\<close> visits it, so a property proved for every list holds
  for every order.
\<close>

fun map_put :: "'k \<Rightarrow> 'v \<Rightarrow> ('k \<times> 'v) list \<Rightarrow> ('k \<times> 'v) list" where
  "map_put k v [] = [(k, v)]"
| "map_put k v ((k', v') # m) = (if k = k' then (k, v) # m else (k', v') # map_put k v m)"

definition map_del :: "'k \<Rightarrow> ('k \<times> 'v) list \<Rightarrow> ('k \<times> 'v) list" where
  "map_del k m = filter (\<lambda>e. fst e \<noteq> k) m"

abbreviation map_ok :: "('k \<times> 'v) list \<Rightarrow> bool" where
  "map_ok m \<equiv> distinct (map fst m)"

lemma map_of_map_put [simp]: "map_of (map_put k v m) = (map_of m)(k \<mapsto> v)"
  by (induction m) auto

lemma map_of_map_del [simp]: "map_of (map_del k m) = (map_of m)(k := None)"
  by (induction m) (auto simp: map_del_def)

lemma keys_map_put [simp]: "fst ` set (map_put k v m) = insert k (fst ` set m)"
  by (metis dom_fun_upd dom_map_of_conv_image_fst map_of_map_put option.distinct(1))

lemma map_ok_map_put [simp]: "map_ok m \<Longrightarrow> map_ok (map_put k v m)"
proof (induction m)
  case (Cons e m)
  obtain k' v' where e: "e = (k', v')" by (cases e)
  show ?case
  proof (cases "k = k'")
    case False
    have "k' \<notin> fst ` set (map_put k v m)" using Cons.prems False e by simp
    then show ?thesis using Cons e False by simp
  qed (use Cons.prems e in auto)
qed simp

lemma map_ok_filter: "map_ok m \<Longrightarrow> map_ok (filter P m)"
  by (induction m) auto

lemma map_ok_map_del [simp]: "map_ok m \<Longrightarrow> map_ok (map_del k m)"
  by (simp add: map_del_def map_ok_filter)

lemma keys_map_del [simp]: "fst ` set (map_del k m) = fst ` set m - {k}"
  by (auto simp: map_del_def)

lemma map_of_filter_key:
  "map_of (filter (\<lambda>e. P (fst e)) m) k = (if P k then map_of m k else None)"
  by (induction m) auto

lemma dom_map_of_keys: "dom (map_of m) = fst ` set m"
  by (simp add: dom_map_of_conv_image_fst)

lemma length_map_ok: "map_ok m \<Longrightarrow> length m = card (dom (map_of m))"
  by (metis distinct_card dom_map_of_keys image_set length_map)

lemma map_put_notin: "k \<notin> fst ` set m \<Longrightarrow> map_put k v m = m @ [(k, v)]"
  by (induction m) auto

text \<open>Copying a map entry by entry into a map with other keys appends the copied entries.\<close>

lemma fold_map_put_filter:
  "map_ok src \<Longrightarrow> fst ` set src \<inter> fst ` set m = {} \<Longrightarrow>
   fold (\<lambda>(k, v) ps. if P k then map_put k v ps else ps) src m = m @ filter (\<lambda>e. P (fst e)) src"
  by (induction src arbitrary: m) (auto simp: map_put_notin)

lemma fold_map_put:
  "map_ok src \<Longrightarrow> fst ` set src \<inter> fst ` set m = {} \<Longrightarrow>
   fold (\<lambda>(k, v) ps. map_put k v ps) src m = m @ src"
  using fold_map_put_filter[of src m "\<lambda>_. True"] by simp

section \<open>Package strings\<close>

fun HasPrefix :: "string \<Rightarrow> string \<Rightarrow> bool" where
  "HasPrefix s [] = True"
| "HasPrefix [] (p # ps) = False"
| "HasPrefix (c # s) (p # ps) = (c = p \<and> HasPrefix s ps)"

definition TrimPrefix :: "string \<Rightarrow> string \<Rightarrow> string" where
  "TrimPrefix s p = (if HasPrefix s p then drop (length p) s else s)"

text \<open>\<open>Index\<close> and \<open>LastIndex\<close> return \<^const>\<open>None\<close> where the library returns \<open>-1\<close>.\<close>

fun Index :: "string \<Rightarrow> string \<Rightarrow> nat option" where
  "Index [] p = (if p = [] then Some 0 else None)"
| "Index (c # s) p = (if HasPrefix (c # s) p then Some 0 else map_option Suc (Index s p))"

fun LastIndex :: "string \<Rightarrow> string \<Rightarrow> nat option" where
  "LastIndex [] p = (if p = [] then Some 0 else None)"
| "LastIndex (c # s) p =
     (case LastIndex s p of
        Some i \<Rightarrow> Some (Suc i)
      | None \<Rightarrow> if HasPrefix (c # s) p then Some 0 else None)"

definition Contains :: "string \<Rightarrow> string \<Rightarrow> bool" where
  "Contains s p \<longleftrightarrow> Index s p \<noteq> None"

definition Cut :: "string \<Rightarrow> string \<Rightarrow> string \<times> string \<times> bool" where
  "Cut s sep =
     (case Index s sep of
        Some i \<Rightarrow> (take i s, drop (i + length sep) s, True)
      | None \<Rightarrow> (s, [], False))"

definition Replace1 :: "string \<Rightarrow> string \<Rightarrow> string \<Rightarrow> string" where
  "Replace1 s old new =
     (case Index s old of
        Some i \<Rightarrow> take i s @ new @ drop (i + length old) s
      | None \<Rightarrow> s)"

definition HasSuffix :: "string \<Rightarrow> string \<Rightarrow> bool" where
  "HasSuffix s p \<longleftrightarrow> HasPrefix (rev s) (rev p)"

text \<open>\<^verbatim>\<open>strings.Trim(s, cut)\<close> for the one-character cut set \<open>[c]\<close>.\<close>

definition Trim :: "string \<Rightarrow> char \<Rightarrow> string" where
  "Trim s c = rev (dropWhile (\<lambda>x. x = c) (rev (dropWhile (\<lambda>x. x = c) s)))"

declare TrimPrefix_def [go_defs] Contains_def [go_defs] Cut_def [go_defs] HasSuffix_def [go_defs] Trim_def [go_defs]

lemma Index_le: "Index s p = Some i \<Longrightarrow> i + length p \<le> length s"
proof (induction s arbitrary: i)
  case (Cons c s)
  have "length p \<le> length xs" if "HasPrefix xs p" for xs
    using that by (induction xs p rule: HasPrefix.induct) auto
  from this [of "c # s"] Cons show ?case by (auto split: if_splits)
qed (simp split: if_splits)

lemma Index_rest: "p \<noteq> [] \<Longrightarrow> Index s p = Some i \<Longrightarrow> length s - (i + length p) < length s"
  using Index_le [of s p i] length_greater_0_conv [of p] by linarith

text \<open>\<^verbatim>\<open>strings.ReplaceAll\<close> and \<^verbatim>\<open>strings.Split\<close> for a non-empty pattern.\<close>

function ReplaceAll :: "string \<Rightarrow> string \<Rightarrow> string \<Rightarrow> string" where
  "ReplaceAll s old new =
     (if old = [] then s
      else case Index s old of
             Some i \<Rightarrow> take i s @ new @ ReplaceAll (drop (i + length old) s) old new
           | None \<Rightarrow> s)"
  by pat_completeness auto

termination by (relation "measure (\<lambda>(s, _). length s)") (auto simp: Index_rest)

declare ReplaceAll.simps [simp del]

function Split :: "string \<Rightarrow> string \<Rightarrow> string list" where
  "Split s sep =
     (if sep = [] then [s]
      else case Index s sep of
             Some i \<Rightarrow> take i s # Split (drop (i + length sep) s) sep
           | None \<Rightarrow> [s])"
  by pat_completeness auto

termination by (relation "measure (\<lambda>(s, _). length s)") (auto simp: Index_rest)

declare Split.simps [simp del]

lemma HasPrefix_iff: "HasPrefix s p \<longleftrightarrow> take (length p) s = p"
  by (induction s p rule: HasPrefix.induct) auto

text \<open>\<^verbatim>\<open>strings.TrimSpace\<close>: the characters of white space in UTF-8.\<close>

definition utf8_spaces :: "string list" where
  "utf8_spaces =
     [[CHR 0x09], [CHR 0x0A], [CHR 0x0B], [CHR 0x0C], [CHR 0x0D], [CHR 0x20],
      [CHR 0xC2, CHR 0x85], [CHR 0xC2, CHR 0xA0], [CHR 0xE1, CHR 0x9A, CHR 0x80],
      [CHR 0xE2, CHR 0x80, CHR 0x80], [CHR 0xE2, CHR 0x80, CHR 0x81], [CHR 0xE2, CHR 0x80, CHR 0x82],
      [CHR 0xE2, CHR 0x80, CHR 0x83], [CHR 0xE2, CHR 0x80, CHR 0x84], [CHR 0xE2, CHR 0x80, CHR 0x85],
      [CHR 0xE2, CHR 0x80, CHR 0x86], [CHR 0xE2, CHR 0x80, CHR 0x87], [CHR 0xE2, CHR 0x80, CHR 0x88],
      [CHR 0xE2, CHR 0x80, CHR 0x89], [CHR 0xE2, CHR 0x80, CHR 0x8A], [CHR 0xE2, CHR 0x80, CHR 0xA8],
      [CHR 0xE2, CHR 0x80, CHR 0xA9], [CHR 0xE2, CHR 0x80, CHR 0xAF], [CHR 0xE2, CHR 0x81, CHR 0x9F],
      [CHR 0xE3, CHR 0x80, CHR 0x80]]"

function trim_left :: "string list \<Rightarrow> string \<Rightarrow> string" where
  "trim_left ps s =
     (case find (\<lambda>p. p \<noteq> [] \<and> HasPrefix s p) ps of
        None \<Rightarrow> s
      | Some p \<Rightarrow> trim_left ps (drop (length p) s))"
  by pat_completeness auto

termination
  by (relation "measure (\<lambda>(_, s). length s)") (auto simp: find_Some_iff HasPrefix_iff intro!: diff_less)

declare trim_left.simps [simp del]

definition TrimSpace :: "string \<Rightarrow> string" where
  "TrimSpace s = rev (trim_left (map rev utf8_spaces) (rev (trim_left utf8_spaces s)))"

text \<open>Only ASCII white space, or the first and the last byte of the others, is ever cut off at an end.\<close>

lemma trim_left_none: "\<forall>p \<in> set ps. p \<noteq> [] \<longrightarrow> hd p \<noteq> c \<Longrightarrow> trim_left ps (c # s) = c # s"
proof -
  assume a: "\<forall>p \<in> set ps. p \<noteq> [] \<longrightarrow> hd p \<noteq> c"
  have "\<not> (p \<noteq> [] \<and> HasPrefix (c # s) p)" if "p \<in> set ps" for p using a that by (cases p) auto
  then have "find (\<lambda>p. p \<noteq> [] \<and> HasPrefix (c # s) p) ps = None" by (simp add: find_None_iff)
  then show ?thesis by (subst trim_left.simps) (simp only: option.case)
qed

lemma HasPrefix_append [simp]: "HasPrefix (p @ s) p"
  by (simp add: HasPrefix_iff)

lemma Index_char_None: "Index s [c] = None \<longleftrightarrow> c \<notin> set s"
  by (induction s) auto

lemma Index_char_append: "c \<notin> set s \<Longrightarrow> Index (s @ c # t) [c] = Some (length s)"
  by (induction s) auto

lemma LastIndex_char_None: "LastIndex s [c] = None \<longleftrightarrow> c \<notin> set s"
  by (induction s) (auto split: option.splits)

lemma LastIndex_char_append: "c \<notin> set t \<Longrightarrow> LastIndex (s @ c # t) [c] = Some (length s)"
  by (induction s) (auto split: option.splits simp: LastIndex_char_None)

lemma Cut_char_append: "c \<notin> set s \<Longrightarrow> Cut (s @ c # t) [c] = (s, t, True)"
  by (simp add: Cut_def Index_char_append)

lemma Cut_char_notin: "c \<notin> set s \<Longrightarrow> Cut s [c] = (s, [], False)"
  by (simp add: Cut_def Index_char_None[THEN iffD2])

section \<open>Package strconv\<close>

definition is_digit :: "char \<Rightarrow> bool" where
  "is_digit c \<longleftrightarrow> 48 \<le> (of_char c :: nat) \<and> (of_char c :: nat) \<le> 57"

fun parse_digits :: "nat \<Rightarrow> string \<Rightarrow> nat option" where
  "parse_digits acc [] = Some acc"
| "parse_digits acc (c # s) =
     (if is_digit c then parse_digits (acc * 10 + (of_char c - 48)) s else None)"

definition ParseUint10 :: "string \<Rightarrow> nat option" where
  "ParseUint10 s = (if s = [] then None else parse_digits 0 s)"

text \<open>
  \<^verbatim>\<open>strconv.ParseInt(s, 10, bits)\<close>; \<^const>\<open>None\<close> is any error (syntax or range).
\<close>

definition ParseInt :: "string \<Rightarrow> nat \<Rightarrow> int option" where
  "ParseInt s bits =
     (let neg = (s \<noteq> [] \<and> hd s = CHR ''-'');
          rest = (if s \<noteq> [] \<and> (hd s = CHR ''-'' \<or> hd s = CHR ''+'') then tl s else s)
      in case ParseUint10 rest of
           None \<Rightarrow> None
         | Some un \<Rightarrow>
             if neg then (if int un \<le> 2 ^ (bits - 1) then Some (- int un) else None)
             else (if int un < 2 ^ (bits - 1) then Some (int un) else None))"

text \<open>\<^verbatim>\<open>strconv.Atoi\<close>; \<^verbatim>\<open>int\<close> is 64 bits wide.\<close>

definition Atoi :: "string \<Rightarrow> int option" where
  "Atoi s = ParseInt s 64"

definition ParseBool :: "string \<Rightarrow> bool option" where
  "ParseBool s =
     (if s \<in> {''1'', ''t'', ''T'', ''true'', ''TRUE'', ''True''} then Some True
      else if s \<in> {''0'', ''f'', ''F'', ''false'', ''FALSE'', ''False''} then Some False
      else None)"

fun nat_digits :: "nat \<Rightarrow> string" where
  "nat_digits n =
     (if n < 10 then [char_of (48 + n)] else nat_digits (n div 10) @ [char_of (48 + n mod 10)])"

declare nat_digits.simps [simp del]

text \<open>\<^verbatim>\<open>strconv.Itoa\<close> and \<^verbatim>\<open>strconv.FormatInt(_, 10)\<close>.\<close>

definition Itoa :: "int \<Rightarrow> string" where
  "Itoa x = (if x < 0 then CHR ''-'' # nat_digits (nat (- x)) else nat_digits (nat x))"

lemma ParseInt_Nil [simp]: "ParseInt [] bits = None"
  by (simp add: ParseInt_def ParseUint10_def)

lemma ParseInt_bounds:
  "ParseInt s 64 = Some x \<Longrightarrow> in_int64 x"
  by (auto simp: ParseInt_def Let_def in_int64_def split: option.splits if_splits)

lemma parse_digits_append:
  "parse_digits acc (s @ t) = Option.bind (parse_digits acc s) (\<lambda>a. parse_digits a t)"
  by (induction s arbitrary: acc) auto

lemma parse_nat_digits:
  "parse_digits acc (nat_digits n) = Some (acc * 10 ^ length (nat_digits n) + n)"
proof (induction n arbitrary: acc rule: nat_digits.induct)
  case (1 n)
  show ?case
  proof (cases "n < 10")
    case True
    then show ?thesis by (subst (1 2) nat_digits.simps) (auto simp: is_digit_def of_char_of)
  next
    case False
    then have "parse_digits acc (nat_digits (n div 10))
        = Some (acc * 10 ^ length (nat_digits (n div 10)) + n div 10)"
      using "1.IH" by simp
    with False show ?thesis
      by (subst (1 2) nat_digits.simps)
         (auto simp: parse_digits_append is_digit_def of_char_of algebra_simps)
  qed
qed

lemma nat_digits_hd: "nat_digits n \<noteq> [] \<and> is_digit (hd (nat_digits n))"
proof (induction n rule: nat_digits.induct)
  case (1 n)
  then show ?case
    by (cases "n < 10") (auto simp: nat_digits.simps[of n] is_digit_def of_char_of hd_append)
qed

lemma ParseInt_Itoa:
  assumes "in_int64 x"
  shows "ParseInt (Itoa x) 64 = Some x"
proof -
  have d: "ParseUint10 (nat_digits n) = Some n" for n
    using nat_digits_hd[of n] parse_nat_digits[of 0 n] by (simp add: ParseUint10_def)
  have nosign: "hd (nat_digits n) \<noteq> CHR ''-''" "hd (nat_digits n) \<noteq> CHR ''+''" for n
    using nat_digits_hd[of n] by (auto simp: is_digit_def)
  show ?thesis
    using assms d nosign nat_digits_hd
    by (auto simp: ParseInt_def Itoa_def in_int64_def Let_def)
qed

end
