(* ===== verification/Url.thy ===== *)
theory Url
  imports Go_Prelude "HOL-Library.Char_ord" "HOL-Library.List_Lexorder"
begin

text \<open>
  \<^verbatim>\<open>common/url.go\<close>: the URL that carries every piece of configuration through the framework.
  \<open>url_fields\<close> is the struct without its recursive field \<^verbatim>\<open>SubURL\<close> and without the two locks
  (each method runs under its lock, so a method is one atomic step); a nil and an empty
  \<^verbatim>\<open>url.Values\<close> read alike and are both the empty association list.  The methods follow in the
  order of the source: options, keys, parameter access, merging, cloning, comparison.
  \<open>url_ok\<close> is the type invariant: no key twice and no key with an empty value list.
\<close>

section \<open>Parameter keys\<close>

abbreviation GroupKey :: string where "GroupKey \<equiv> ''group''"
abbreviation VersionKey :: string where "VersionKey \<equiv> ''version''"
abbreviation InterfaceKey :: string where "InterfaceKey \<equiv> ''interface''"
abbreviation PathKey :: string where "PathKey \<equiv> ''path''"
abbreviation TimeoutKey :: string where "TimeoutKey \<equiv> ''timeout''"
abbreviation CategoryKey :: string where "CategoryKey \<equiv> ''category''"
abbreviation EnabledKey :: string where "EnabledKey \<equiv> ''enabled''"
abbreviation TokenKey :: string where "TokenKey \<equiv> ''token''"
abbreviation PortKey :: string where "PortKey \<equiv> ''port''"
abbreviation HostKey :: string where "HostKey \<equiv> ''host''"
abbreviation UsernameKey :: string where "UsernameKey \<equiv> ''username''"
abbreviation PasswordKey :: string where "PasswordKey \<equiv> ''password''"
abbreviation ProtocolKey :: string where "ProtocolKey \<equiv> ''protocol''"
abbreviation TimestampKey :: string where "TimestampKey \<equiv> ''timestamp''"
abbreviation RemoteTimestampKey :: string where "RemoteTimestampKey \<equiv> ''remote.timestamp''"
abbreviation ClusterKey :: string where "ClusterKey \<equiv> ''cluster''"
abbreviation LoadbalanceKey :: string where "LoadbalanceKey \<equiv> ''loadbalance''"
abbreviation WeightKey :: string where "WeightKey \<equiv> ''weight''"
abbreviation RetriesKey :: string where "RetriesKey \<equiv> ''retries''"
abbreviation MeshClusterIDKey :: string where "MeshClusterIDKey \<equiv> ''meshClusterID''"
abbreviation AnyValue :: string where "AnyValue \<equiv> ''*''"
abbreviation RemoveValuePrefix :: string where "RemoveValuePrefix \<equiv> ''-''"
abbreviation DefaultCategory :: string where "DefaultCategory \<equiv> ''providers''"

section \<open>The struct\<close>

type_synonym url_values = "(string \<times> string list) list"

record url_fields =
  u_Protocol :: string
  u_Location :: string
  u_Ip :: string
  u_Port :: string
  u_PrimitiveURL :: string
  u_primitiveTS :: string
  u_params :: url_values
  u_Path :: string
  u_Username :: string
  u_Password :: string
  u_Methods :: "string list"
  u_attributes :: "(string \<times> go_any) list"

datatype url = Url (fields: url_fields) (SubURL: "url option")

abbreviation Protocol :: "url \<Rightarrow> string" where "Protocol u \<equiv> u_Protocol (fields u)"
abbreviation Location :: "url \<Rightarrow> string" where "Location u \<equiv> u_Location (fields u)"
abbreviation Ip :: "url \<Rightarrow> string" where "Ip u \<equiv> u_Ip (fields u)"
abbreviation Port :: "url \<Rightarrow> string" where "Port u \<equiv> u_Port (fields u)"
abbreviation PrimitiveURL :: "url \<Rightarrow> string" where "PrimitiveURL u \<equiv> u_PrimitiveURL (fields u)"
abbreviation primitiveTS :: "url \<Rightarrow> string" where "primitiveTS u \<equiv> u_primitiveTS (fields u)"
abbreviation params :: "url \<Rightarrow> url_values" where "params u \<equiv> u_params (fields u)"
abbreviation Path :: "url \<Rightarrow> string" where "Path u \<equiv> u_Path (fields u)"
abbreviation Username :: "url \<Rightarrow> string" where "Username u \<equiv> u_Username (fields u)"
abbreviation Password :: "url \<Rightarrow> string" where "Password u \<equiv> u_Password (fields u)"
abbreviation Methods :: "url \<Rightarrow> string list" where "Methods u \<equiv> u_Methods (fields u)"
abbreviation attributes :: "url \<Rightarrow> (string \<times> go_any) list" where
  "attributes u \<equiv> u_attributes (fields u)"

definition upd :: "(url_fields \<Rightarrow> url_fields) \<Rightarrow> url \<Rightarrow> url" where
  "upd f u = Url (f (fields u)) (SubURL u)"

lemma upd_sel [simp]: "fields (upd f u) = f (fields u)" "SubURL (upd f u) = SubURL u"
  by (simp_all add: upd_def)

definition empty_fields :: url_fields where
  "empty_fields =
     \<lparr>u_Protocol = '''', u_Location = '''', u_Ip = '''', u_Port = '''', u_PrimitiveURL = '''',
      u_primitiveTS = '''', u_params = [], u_Path = '''', u_Username = '''', u_Password = '''',
      u_Methods = [], u_attributes = []\<rparr>"

fun values_ok :: "url_values \<Rightarrow> bool" where
  "values_ok vs \<longleftrightarrow> map_ok vs \<and> (\<forall>e \<in> set vs. snd e \<noteq> [])"

declare values_ok.simps [simp del]

fun url_ok :: "url \<Rightarrow> bool" where
  "url_ok (Url f sub) \<longleftrightarrow>
     values_ok (u_params f) \<and> map_ok (u_attributes f) \<and>
     (case sub of None \<Rightarrow> True | Some s \<Rightarrow> url_ok s)"

section \<open>Package net/url: Values\<close>

definition Values_Get :: "url_values \<Rightarrow> string \<Rightarrow> string" where
  "Values_Get vs k = (case map_of vs k of Some (v # _) \<Rightarrow> v | _ \<Rightarrow> '''')"

definition Values_Set :: "url_values \<Rightarrow> string \<Rightarrow> string \<Rightarrow> url_values" where
  "Values_Set vs k v = map_put k [v] vs"

definition Values_Add :: "url_values \<Rightarrow> string \<Rightarrow> string \<Rightarrow> url_values" where
  "Values_Add vs k v = map_put k ((case map_of vs k of Some l \<Rightarrow> l | None \<Rightarrow> []) @ [v]) vs"

definition unreserved :: "char \<Rightarrow> bool" where
  "unreserved c \<longleftrightarrow>
     (let n = (of_char c :: nat) in
      48 \<le> n \<and> n \<le> 57 \<or> 65 \<le> n \<and> n \<le> 90 \<or> 97 \<le> n \<and> n \<le> 122 \<or>
      c = CHR ''-'' \<or> c = CHR ''_'' \<or> c = CHR ''.'' \<or> c = CHR ''~'')"

definition hex_upper :: "nat \<Rightarrow> char" where
  "hex_upper d = char_of (if d < 10 then 48 + d else 55 + d)"

definition escape_char :: "char \<Rightarrow> string" where
  "escape_char c =
     (if unreserved c then [c]
      else if c = CHR '' '' then ''+''
      else CHR ''%'' # [hex_upper (of_char c div 16), hex_upper (of_char c mod 16)])"

definition QueryEscape :: "string \<Rightarrow> string" where
  "QueryEscape s = concat (map escape_char s)"

definition join_with :: "string \<Rightarrow> string list \<Rightarrow> string" where
  "join_with sep xs = concat (case xs of [] \<Rightarrow> [] | y # ys \<Rightarrow> y # map (\<lambda>z. sep @ z) ys)"

text \<open>\<^verbatim>\<open>Values.Encode\<close>: the pairs in the order of their keys, joined by an ampersand.\<close>

definition Values_Encode :: "url_values \<Rightarrow> string" where
  "Values_Encode vs =
     join_with ''&''
       (concat (map (\<lambda>k. map (\<lambda>v. QueryEscape k @ ''='' @ QueryEscape v)
                        (case map_of vs k of Some l \<Rightarrow> l | None \<Rightarrow> []))
                 (sort (map fst vs))))"

section \<open>Parameter access\<close>

definition SetParam :: "url \<Rightarrow> string \<Rightarrow> string \<Rightarrow> url" where
  "SetParam c key value = upd (\<lambda>f. f\<lparr>u_params := Values_Set (u_params f) key value\<rparr>) c"

definition AppendParam :: "url \<Rightarrow> string \<Rightarrow> string \<Rightarrow> url" where
  "AppendParam c key value = upd (\<lambda>f. f\<lparr>u_params := Values_Add (u_params f) key value\<rparr>) c"

definition AddParam :: "url \<Rightarrow> string \<Rightarrow> string \<Rightarrow> url" where
  "AddParam c key value = AppendParam c key value"

definition AddParamAvoidNil :: "url \<Rightarrow> string \<Rightarrow> string \<Rightarrow> url" where
  "AddParamAvoidNil c key value = AppendParam c key value"

definition CompareAndSwapParam :: "url \<Rightarrow> string \<Rightarrow> string \<Rightarrow> string \<Rightarrow> bool \<times> url" where
  "CompareAndSwapParam c key expected newValue =
     (if Values_Get (params c) key = expected
      then (True, upd (\<lambda>f. f\<lparr>u_params := Values_Set (u_params f) key newValue\<rparr>) c)
      else (False, c))"

definition SetAttribute :: "url \<Rightarrow> string \<Rightarrow> go_any \<Rightarrow> url" where
  "SetAttribute c key value = upd (\<lambda>f. f\<lparr>u_attributes := map_put key value (u_attributes f)\<rparr>) c"

definition GetAttribute :: "url \<Rightarrow> string \<Rightarrow> go_any option" where
  "GetAttribute c key = map_of (attributes c) key"

definition DeleteAttribute :: "url \<Rightarrow> string \<Rightarrow> url" where
  "DeleteAttribute c key = upd (\<lambda>f. f\<lparr>u_attributes := map_del key (u_attributes f)\<rparr>) c"

definition ClearAttributes :: "url \<Rightarrow> url" where
  "ClearAttributes c = upd (\<lambda>f. f\<lparr>u_attributes := []\<rparr>) c"

definition DelParam :: "url \<Rightarrow> string \<Rightarrow> url" where
  "DelParam c key = upd (\<lambda>f. f\<lparr>u_params := map_del key (u_params f)\<rparr>) c"

definition ReplaceParams :: "url \<Rightarrow> url_values \<Rightarrow> url" where
  "ReplaceParams c param = upd (\<lambda>f. f\<lparr>u_params := param\<rparr>) c"

text \<open>
  \<open>RangeParams\<close> calls \<open>f\<close> on each key with its first value until \<open>f\<close> answers false; the
  closure's captured variables are the state \<open>s\<close>.  \<^verbatim>\<open>v[0]\<close> panics on an empty value list.
\<close>

fun RangeParams :: "url_values \<Rightarrow> (string \<Rightarrow> string \<Rightarrow> 's \<Rightarrow> 's \<times> bool) \<Rightarrow> 's \<Rightarrow> 's go" where
  "RangeParams [] f s = Inr s"
| "RangeParams ((k, vs) # ps) f s =
     (case vs of
        [] \<Rightarrow> Inl IndexOutOfRange
      | v # _ \<Rightarrow> (case f k v s of (s', continue) \<Rightarrow>
                    if continue then RangeParams ps f s' else Inr s'))"

definition GetParam :: "url \<Rightarrow> string \<Rightarrow> string \<Rightarrow> string" where
  "GetParam c s d =
     (let r = (if 0 < length (params c) then Values_Get (params c) s else '''')
      in if length r = 0 then d else r)"

definition GetNonDefaultParam :: "url \<Rightarrow> string \<Rightarrow> string \<times> bool" where
  "GetNonDefaultParam c s =
     (let r = (if 0 < length (params c) then Values_Get (params c) s else '''')
      in (r, r \<noteq> ''''))"

definition valuesHasNonDefaultParam :: "url_values \<Rightarrow> string \<Rightarrow> bool" where
  "valuesHasNonDefaultParam values key =
     (if length values = 0 then False else Values_Get values key \<noteq> '''')"

definition copyURLValues :: "url_values \<Rightarrow> url_values" where
  "copyURLValues src = fold (\<lambda>(k, vs) dst. map_put k vs dst) src []"

definition CopyParams :: "url \<Rightarrow> url_values" where
  "CopyParams c = copyURLValues (params c)"

definition GetParams :: "url \<Rightarrow> url_values" where
  "GetParams c = CopyParams c"

definition GetParamBool :: "url \<Rightarrow> string \<Rightarrow> bool \<Rightarrow> bool" where
  "GetParamBool c key d = (case ParseBool (GetParam c key '''') of None \<Rightarrow> d | Some r \<Rightarrow> r)"

definition GetParamInt :: "url \<Rightarrow> string \<Rightarrow> int \<Rightarrow> int" where
  "GetParamInt c key d = (case ParseInt (GetParam c key '''') 64 of None \<Rightarrow> d | Some r \<Rightarrow> r)"

definition GetParamInt32 :: "url \<Rightarrow> string \<Rightarrow> int \<Rightarrow> int" where
  "GetParamInt32 c key d = (case ParseInt (GetParam c key '''') 32 of None \<Rightarrow> d | Some r \<Rightarrow> r)"

definition GetParamByIntValue :: "url \<Rightarrow> string \<Rightarrow> int \<Rightarrow> int" where
  "GetParamByIntValue c key d =
     (case ParseInt (GetParam c key '''') 64 of None \<Rightarrow> d | Some r \<Rightarrow> r)"

definition methods_key :: "string \<Rightarrow> string \<Rightarrow> string" where
  "methods_key method key = ''methods.'' @ method @ ''.'' @ key"

definition GetMethodParamInt :: "url \<Rightarrow> string \<Rightarrow> string \<Rightarrow> int \<Rightarrow> int" where
  "GetMethodParamInt c method key d =
     (case ParseInt (GetParam c (methods_key method key) '''') 64 of None \<Rightarrow> d | Some r \<Rightarrow> r)"

definition GetMethodParamIntValue :: "url \<Rightarrow> string \<Rightarrow> string \<Rightarrow> int \<Rightarrow> int" where
  "GetMethodParamIntValue c method key d =
     (case ParseInt (GetParam c (methods_key method key) '''') 64 of None \<Rightarrow> d | Some r \<Rightarrow> r)"

definition GetMethodParamInt64 :: "url \<Rightarrow> string \<Rightarrow> string \<Rightarrow> int \<Rightarrow> int" where
  "GetMethodParamInt64 c method key d =
     (let r = GetMethodParamInt c method key MinInt64
      in if r = MinInt64 then GetParamInt c key d else r)"

definition GetMethodParam :: "url \<Rightarrow> string \<Rightarrow> string \<Rightarrow> string \<Rightarrow> string" where
  "GetMethodParam c method key d =
     (let r = GetParam c (methods_key method key) '''' in if r = '''' then d else r)"

definition GetMethodParamBool :: "url \<Rightarrow> string \<Rightarrow> string \<Rightarrow> bool \<Rightarrow> bool" where
  "GetMethodParamBool c method key d = GetParamBool c (methods_key method key) d"

definition SetParams :: "url \<Rightarrow> url_values \<Rightarrow> url" where
  "SetParams c m =
     upd (\<lambda>f. f\<lparr>u_params :=
       fold (\<lambda>(k, vs) ps. if length vs = 0 then map_del k ps else map_put k vs ps) m (u_params f)\<rparr>) c"

definition rawParam :: "url \<Rightarrow> string \<Rightarrow> string \<times> bool" where
  "rawParam c key =
     (if length (params c) = 0 then ('''', False)
      else case map_of (params c) key of
             None \<Rightarrow> ('''', False)
           | Some [] \<Rightarrow> ('''', False)
           | Some (v # _) \<Rightarrow> (v, True))"

section \<open>Location, keys and service keys\<close>

definition parseLocation :: "string \<Rightarrow> string \<times> string" where
  "parseLocation location =
     (if location = '''' then ('''', ''0'')
      else case Cut location '':'' of
             (before, after, found) \<Rightarrow>
               if \<not> found then (location, ''0'')
               else case Cut after '':'' of
                      (before2, _, found2) \<Rightarrow> if found2 then (before, before2) else (before, after))"

definition GetRawParam :: "url \<Rightarrow> string \<Rightarrow> string" where
  "GetRawParam c key =
     (if key = ProtocolKey then Protocol c
      else if key = UsernameKey then Username c
      else if key = HostKey then fst (parseLocation (Location c))
      else if key = PasswordKey then Password c
      else if key = PortKey then Port c
      else if key = PathKey then Path c
      else GetParam c key '''')"

definition MatchKey :: "string \<Rightarrow> string \<Rightarrow> string" where
  "MatchKey serviceKey protocol = serviceKey @ '':'' @ protocol"

definition Group :: "url \<Rightarrow> string" where
  "Group c = GetParam c GroupKey ''''"

definition Interface :: "url \<Rightarrow> string" where
  "Interface c = GetParam c InterfaceKey ''''"

definition Version :: "url \<Rightarrow> string" where
  "Version c = GetParam c VersionKey ''''"

definition Address :: "url \<Rightarrow> string" where
  "Address c = (if Port c = '''' then Ip c else Ip c @ '':'' @ Port c)"

definition Service :: "url \<Rightarrow> string" where
  "Service c =
     (let service = GetParam c InterfaceKey (TrimPrefix (Path c) ''/'') in
      if service \<noteq> '''' then service
      else case SubURL c of
             None \<Rightarrow> ''''
           | Some sub \<Rightarrow> GetParam sub InterfaceKey (TrimPrefix (Path c) ''/''))"

definition Key :: "url \<Rightarrow> string" where
  "Key c =
     Protocol c @ ''://'' @ Username c @ '':'' @ Password c @ ''@'' @ Ip c @ '':'' @ Port c @
     ''/?interface='' @ Service c @ ''&group='' @ GetParam c GroupKey '''' @
     ''&version='' @ GetParam c VersionKey ''''"

definition GetCacheInvokerMapKey :: "url \<Rightarrow> string" where
  "GetCacheInvokerMapKey c =
     Protocol c @ ''://'' @ Username c @ '':'' @ Password c @ ''@'' @ Ip c @ '':'' @ Port c @
     ''/?interface='' @ Service c @ ''&group='' @ GetParam c GroupKey '''' @
     ''&version='' @ GetParam c VersionKey '''' @ ''&timestamp='' @ primitiveTS c @
     ''&meshClusterID='' @ GetParam c MeshClusterIDKey ''''"

definition String :: "url \<Rightarrow> string" where
  "String c =
     (let encodedParams = Values_Encode (params c) in
      Protocol c @ ''://'' @
      (if length (Username c) \<noteq> 0 \<or> length (Password c) \<noteq> 0
       then Username c @ '':'' @ Password c @ ''@'' else '''') @
      Ip c @ '':'' @ Port c @ Path c @
      (if encodedParams \<noteq> '''' then ''?'' @ encodedParams else ''''))"

definition ServiceKey3 :: "string \<Rightarrow> string \<Rightarrow> string \<Rightarrow> string" where
  "ServiceKey3 intf grp version =
     (if intf = '''' then ''''
      else (if grp \<noteq> '''' then grp @ ''/'' else '''') @ intf @
           (if version \<noteq> '''' \<and> version \<noteq> ''0.0.0'' then '':'' @ version else ''''))"

definition ServiceKey :: "url \<Rightarrow> string" where
  "ServiceKey c =
     ServiceKey3 (GetParam c InterfaceKey (TrimPrefix (Path c) ''/''))
       (GetParam c GroupKey '''') (GetParam c VersionKey '''')"

definition ParseServiceKey :: "string \<Rightarrow> string \<times> string \<times> string" where
  "ParseServiceKey serviceKey =
     (if serviceKey = '''' then ('''', '''', '''')
      else
        let (grp, serviceKey) =
              (case Index serviceKey ''/'' of
                 Some i \<Rightarrow> (take i serviceKey, drop (i + 1) serviceKey)
               | None \<Rightarrow> ('''', serviceKey));
            (version, serviceKey) =
              (case LastIndex serviceKey '':'' of
                 Some i \<Rightarrow> (drop (i + 1) serviceKey, take i serviceKey)
               | None \<Rightarrow> ('''', serviceKey))
        in (serviceKey, grp, version))"

definition IsAnyCondition :: "string \<Rightarrow> string \<Rightarrow> string \<Rightarrow> url \<Rightarrow> bool" where
  "IsAnyCondition intf grp version serviceURL =
     (let matchCondition = (\<lambda>pattern actual. pattern = AnyValue \<or> pattern = actual)
      in matchCondition intf (Service serviceURL) \<and>
         matchCondition grp (Group serviceURL) \<and>
         matchCondition version (Version serviceURL))"

definition ColonSeparatedKey :: "url \<Rightarrow> string" where
  "ColonSeparatedKey c =
     (let intf = GetParam c InterfaceKey (TrimPrefix (Path c) ''/'');
          version = GetParam c VersionKey '''';
          grp = GetParam c GroupKey ''''
      in if intf = '''' then ''''
         else intf @ '':'' @ (if version \<noteq> '''' \<and> version \<noteq> ''0.0.0'' then version else '''') @
              '':'' @ (if grp \<noteq> '''' then grp else ''''))"

definition EncodedServiceKey :: "url \<Rightarrow> string" where
  "EncodedServiceKey c = Replace1 (ServiceKey c) ''/'' ''*''"

definition isMatchCategory :: "string \<Rightarrow> string \<Rightarrow> bool" where
  "isMatchCategory category1 category2 =
     (if length category2 = 0 then category1 = DefaultCategory
      else if Contains category2 AnyValue then True
      else if Contains category2 RemoveValuePrefix
           then \<not> Contains category2 (RemoveValuePrefix @ category1)
      else Contains category2 category1)"

section \<open>Options and construction\<close>

type_synonym Option = "url \<Rightarrow> url"

definition ascii_lower :: "string \<Rightarrow> string" where
  "ascii_lower s =
     map (\<lambda>c. let n = (of_char c :: nat) in if 65 \<le> n \<and> n \<le> 90 then char_of (n + 32) else c) s"

definition WithUsername :: "string \<Rightarrow> Option" where
  "WithUsername username = upd (\<lambda>f. f\<lparr>u_Username := username\<rparr>)"

definition WithPassword :: "string \<Rightarrow> Option" where
  "WithPassword pwd = upd (\<lambda>f. f\<lparr>u_Password := pwd\<rparr>)"

definition WithMethods :: "string list \<Rightarrow> Option" where
  "WithMethods methods = upd (\<lambda>f. f\<lparr>u_Methods := methods\<rparr>)"

definition WithParams :: "url_values \<Rightarrow> Option" where
  "WithParams ps = (\<lambda>u. SetParams u ps)"

definition WithParamsValue :: "string \<Rightarrow> string \<Rightarrow> Option" where
  "WithParamsValue key val = (\<lambda>u. SetParam u key val)"

definition WithProtocol :: "string \<Rightarrow> Option" where
  "WithProtocol proto = upd (\<lambda>f. f\<lparr>u_Protocol := proto\<rparr>)"

definition WithIp :: "string \<Rightarrow> Option" where
  "WithIp ip = upd (\<lambda>f. f\<lparr>u_Ip := ip\<rparr>)"

definition WithPort :: "string \<Rightarrow> Option" where
  "WithPort port = upd (\<lambda>f. f\<lparr>u_Port := port\<rparr>)"

definition WithPath :: "string \<Rightarrow> Option" where
  "WithPath path = upd (\<lambda>f. f\<lparr>u_Path := ''/'' @ TrimPrefix path ''/''\<rparr>)"

definition WithInterface :: "string \<Rightarrow> Option" where
  "WithInterface v = (\<lambda>u. SetParam u InterfaceKey v)"

definition WithLocation :: "string \<Rightarrow> Option" where
  "WithLocation location = upd (\<lambda>f. f\<lparr>u_Location := location\<rparr>)"

text \<open>The version-1 UUID that \<^verbatim>\<open>uuid.NewUUID\<close> of google/uuid returns is the argument \<open>uuid\<close>.\<close>

definition WithToken :: "string \<Rightarrow> string \<Rightarrow> Option" where
  "WithToken uuid token =
     (\<lambda>u. if 0 < length token
          then SetParam u TokenKey
                 (if ascii_lower token = ''true'' \<or> ascii_lower token = ''default''
                  then uuid else token)
          else u)"

definition WithAttribute :: "string \<Rightarrow> go_any \<Rightarrow> Option" where
  "WithAttribute key attribute =
     upd (\<lambda>f. f\<lparr>u_attributes := map_put key attribute (u_attributes f)\<rparr>)"

definition WithWeight :: "int \<Rightarrow> Option" where
  "WithWeight weight = (\<lambda>u. if 0 < weight then SetParam u WeightKey (Itoa weight) else u)"

definition NewURLWithOptions :: "Option list \<Rightarrow> url" where
  "NewURLWithOptions opts =
     (let newURL = fold (\<lambda>opt u. opt u) opts (Url empty_fields None)
      in upd (\<lambda>f. f\<lparr>u_Location := u_Ip f @ '':'' @ u_Port f\<rparr>) newURL)"

section \<open>Cloning\<close>

definition newURLForClone :: "url \<Rightarrow> url" where
  "newURLForClone c =
     Url (empty_fields
           \<lparr>u_Protocol := Protocol c, u_Location := Location c, u_Ip := Ip c, u_Port := Port c,
            u_PrimitiveURL := PrimitiveURL c, u_primitiveTS := primitiveTS c, u_Path := Path c,
            u_Username := Username c, u_Password := Password c, u_Methods := Methods c,
            u_attributes := [], u_params := []\<rparr>) None"

text \<open>
  A \<^verbatim>\<open>*gxset.HashSet\<close> is a list of its elements without repetition, nil is \<^const>\<open>None\<close>; only
  \<^verbatim>\<open>Contains\<close> and \<^verbatim>\<open>Size\<close> of it are used.
\<close>

definition paramsCapacityForClone :: "nat \<Rightarrow> string list option \<Rightarrow> string list \<Rightarrow> int" where
  "paramsCapacityForClone paramsLen excludeParams reserveParams =
     (let n = (if 0 < length reserveParams \<and> length reserveParams < paramsLen
               then int (length reserveParams) else int paramsLen);
          n = (case excludeParams of None \<Rightarrow> n | Some ex \<Rightarrow> n - int (length ex))
      in if n < 0 then 0 else n)"

definition shouldCopyParam :: "string \<Rightarrow> string list option \<Rightarrow> string list \<Rightarrow> bool" where
  "shouldCopyParam key excludeParams reserveParams =
     (if (case excludeParams of None \<Rightarrow> False | Some ex \<Rightarrow> key \<in> set ex) then False
      else length reserveParams = 0 \<or> key \<in> set reserveParams)"

definition copyFilteredParams ::
  "url_values \<Rightarrow> url_values \<Rightarrow> string list option \<Rightarrow> string list \<Rightarrow> url_values" where
  "copyFilteredParams src ps excludeParams reserveParams =
     (if excludeParams = None \<and> length reserveParams = 0
      then (if 8 < length src then copyURLValues src
            else fold (\<lambda>(key, values) ps. map_put key values ps) src ps)
      else
        let ps = (if 8 < paramsCapacityForClone (length src) excludeParams reserveParams
                  then [] else ps)
        in fold (\<lambda>(key, values) ps.
                   if shouldCopyParam key excludeParams reserveParams
                   then map_put key values ps else ps) src ps)"

definition copyAttributes :: "url \<Rightarrow> url \<Rightarrow> url" where
  "copyAttributes c newURL = fold (\<lambda>(key, value) u. SetAttribute u key value) (attributes c) newURL"

fun CloneWithFilter :: "url \<Rightarrow> string list option \<Rightarrow> string list \<Rightarrow> url" where
  "CloneWithFilter (Url f sub) excludeParams reserveParams =
     (let c = Url f sub;
          newURL = newURLForClone c;
          newURL = upd (\<lambda>g. g\<lparr>u_params :=
                     copyFilteredParams (params c) (u_params g) excludeParams reserveParams\<rparr>) newURL;
          newURL = copyAttributes c newURL
      in case sub of
           None \<Rightarrow> newURL
         | Some s \<Rightarrow> Url (fields newURL) (Some (CloneWithFilter s None [])))"

definition Clone :: "url \<Rightarrow> url" where
  "Clone c = CloneWithFilter c None []"

definition CloneExceptParams :: "url \<Rightarrow> string list option \<Rightarrow> url" where
  "CloneExceptParams c excludeParams = CloneWithFilter c excludeParams []"

definition CloneWithParams :: "url \<Rightarrow> string list \<Rightarrow> url" where
  "CloneWithParams c reserveParams = CloneWithFilter c None reserveParams"

section \<open>Merging\<close>

text \<open>
  The loop over the methods of \<^verbatim>\<open>anotherUrl\<close>, for one parameter key and then for the four.
\<close>

definition mergeMethodParam :: "url_values \<Rightarrow> string \<Rightarrow> string \<Rightarrow> url_values \<Rightarrow> url_values" where
  "mergeMethodParam another method paramKey ps =
     (let v = Values_Get another paramKey;
          ps = (if 0 < length v then map_put paramKey [v] ps else ps);
          methodsKey = methods_key method paramKey;
          w = Values_Get another methodsKey
      in if 0 < length w then map_put methodsKey [w] ps else ps)"

definition mergeMethods :: "url_values \<Rightarrow> string list \<Rightarrow> url_values \<Rightarrow> url_values" where
  "mergeMethods another methods ps =
     fold (\<lambda>method ps.
       fold (mergeMethodParam another method)
         [LoadbalanceKey, ClusterKey, RetriesKey, TimeoutKey] ps) methods ps"

definition mergeParams :: "url_values \<Rightarrow> url_values \<Rightarrow> url_values" where
  "mergeParams another ps =
     fold (\<lambda>(key, value) ps.
       if \<not> valuesHasNonDefaultParam ps key
       then (if 0 < length value then map_put key value ps else ps) else ps) another ps"

definition mergeAttributes :: "url \<Rightarrow> url \<Rightarrow> url" where
  "mergeAttributes another u =
     fold (\<lambda>(attrK, attrV) u. case GetAttribute u attrK of None \<Rightarrow> SetAttribute u attrK attrV
                                                        | Some _ \<Rightarrow> u) (attributes another) u"

definition MergeURL :: "url \<Rightarrow> url \<Rightarrow> url" where
  "MergeURL c anotherUrl =
     (let mergedURL = Clone c;
          ps = params mergedURL;
          baseTimestamp = Values_Get ps TimestampKey;
          baseHasTimestamp = (baseTimestamp \<noteq> '''');
          ps = mergeParams (params anotherUrl) ps;
          ps = (if \<not> baseHasTimestamp
                then map_put TimestampKey [Values_Get (params anotherUrl) TimestampKey]
                       (map_put RemoteTimestampKey [baseTimestamp] ps)
                else ps);
          ps = mergeMethods (params anotherUrl) (Methods anotherUrl) ps;
          mergedURL = upd (\<lambda>f. f\<lparr>u_Methods := Methods anotherUrl\<rparr>) mergedURL;
          mergedURL = mergeAttributes anotherUrl mergedURL
      in ReplaceParams mergedURL ps)"

section \<open>Comparison\<close>

definition ToMap :: "url \<Rightarrow> (string \<times> string) list go" where
  "ToMap c =
     (let capacity = length (params c)
            + (if Protocol c \<noteq> '''' then 1 else 0) + (if Username c \<noteq> '''' then 1 else 0)
            + (if Password c \<noteq> '''' then 1 else 0) + (if Location c \<noteq> '''' then 2 else 0)
            + (if Path c \<noteq> '''' then 1 else 0)
      in if capacity = 0 then Inr []
         else case RangeParams (params c) (\<lambda>key value m. (map_put key value m, True)) [] of
                Inl p \<Rightarrow> Inl p
              | Inr m \<Rightarrow>
                  (let m = (if Protocol c \<noteq> '''' then map_put ProtocolKey (Protocol c) m else m);
                       m = (if Username c \<noteq> '''' then map_put UsernameKey (Username c) m else m);
                       m = (if Password c \<noteq> '''' then map_put PasswordKey (Password c) m else m);
                       m = (if Location c \<noteq> ''''
                            then (case parseLocation (Location c) of
                                    (host, port) \<Rightarrow> map_put PortKey port (map_put HostKey host m))
                            else m);
                       m = (if Path c \<noteq> '''' then map_put PathKey (Path c) m else m)
                   in Inr m))"

definition reservedKeyList :: "string list" where
  "reservedKeyList = [ProtocolKey, UsernameKey, PasswordKey, HostKey, PortKey, PathKey]"

definition effectiveReserved :: "url \<Rightarrow> string \<Rightarrow> string \<times> bool" where
  "effectiveReserved u key =
     (if key = ProtocolKey \<and> Protocol u \<noteq> '''' then (Protocol u, True)
      else if key = UsernameKey \<and> Username u \<noteq> '''' then (Username u, True)
      else if key = PasswordKey \<and> Password u \<noteq> '''' then (Password u, True)
      else if key = PathKey \<and> Path u \<noteq> '''' then (Path u, True)
      else if key = HostKey \<and> Location u \<noteq> '''' then (fst (parseLocation (Location u)), True)
      else if key = PortKey \<and> Location u \<noteq> '''' then (snd (parseLocation (Location u)), True)
      else rawParam u key)"

fun equalReservedKeys_loop :: "url \<Rightarrow> url \<Rightarrow> string list \<Rightarrow> string list \<Rightarrow> bool" where
  "equalReservedKeys_loop left right excluded [] = True"
| "equalReservedKeys_loop left right excluded (key # keys) =
     (if key \<in> set excluded then equalReservedKeys_loop left right excluded keys
      else case (effectiveReserved left key, effectiveReserved right key) of
             ((lv, lok), (rv, rok)) \<Rightarrow>
               if lok \<noteq> rok \<or> lv \<noteq> rv then False
               else equalReservedKeys_loop left right excluded keys)"

definition equalReservedKeys :: "url \<Rightarrow> url \<Rightarrow> string list \<Rightarrow> bool" where
  "equalReservedKeys left right excluded =
     equalReservedKeys_loop left right excluded reservedKeyList"

text \<open>The state of the second closure is \<open>(rightCount, matched)\<close>.\<close>

definition equalParams :: "url \<Rightarrow> url \<Rightarrow> string list \<Rightarrow> bool go" where
  "equalParams left right excluded =
     (case RangeParams (params left)
             (\<lambda>key value m.
                (if key \<notin> set reservedKeyList \<and> key \<notin> set excluded then map_put key value m else m,
                 True)) [] of
        Inl p \<Rightarrow> Inl p
      | Inr leftParams \<Rightarrow>
          (case RangeParams (params right)
                  (\<lambda>key value (rightCount, matched).
                     if key \<in> set reservedKeyList \<or> key \<in> set excluded
                     then ((rightCount, matched), True)
                     else if map_of leftParams key \<noteq> Some value
                          then ((rightCount + 1, False), False)
                          else ((rightCount + 1, matched), True)) (0::nat, True) of
             Inl p \<Rightarrow> Inl p
           | Inr (rightCount, matched) \<Rightarrow> Inr (matched \<and> rightCount = length leftParams)))"

text \<open>The arguments are pointers: one nil makes them different, and two are dereferenced.\<close>

definition IsEquals :: "url option \<Rightarrow> url option \<Rightarrow> string list \<Rightarrow> bool go" where
  "IsEquals left right excludes =
     (if left = None \<and> right \<noteq> None \<or> right = None \<and> left \<noteq> None then Inr False
      else case (left, right) of
        (Some left, Some right) \<Rightarrow>
          if Ip left \<noteq> Ip right \<or> Port left \<noteq> Port right then Inr False
          else if \<not> equalReservedKeys left right excludes then Inr False
          else equalParams left right excludes
      | _ \<Rightarrow> Inl NilDereference)"

definition URLEqual :: "url \<Rightarrow> url \<Rightarrow> bool" where
  "URLEqual c u =
     (let tmpC = upd (\<lambda>f. f\<lparr>u_Ip := '''', u_Port := ''''\<rparr>) (Clone c);
          tmpURL = upd (\<lambda>f. f\<lparr>u_Ip := '''', u_Port := ''''\<rparr>) (Clone u);
          cGroup = GetParam tmpC GroupKey '''';
          urlGroup = GetParam tmpURL GroupKey '''';
          cKey = Key tmpC;
          urlKey = Key tmpURL;
          (cKey, urlKey) =
            (if cGroup = AnyValue then (Replace1 cKey ''group=*'' (''group='' @ urlGroup), urlKey)
             else if urlGroup = AnyValue then (cKey, Replace1 urlKey ''group=*'' (''group='' @ cGroup))
             else (cKey, urlKey))
      in if cKey \<noteq> urlKey then False
         else if GetParam tmpURL EnabledKey ''true'' \<noteq> ''true'' \<and>
                 GetParam tmpURL EnabledKey '''' \<noteq> AnyValue then False
         else isMatchCategory (GetParam tmpURL CategoryKey DefaultCategory)
                (GetParam tmpC CategoryKey DefaultCategory))"

definition Compare :: "url \<Rightarrow> url \<Rightarrow> int" where
  "Compare c other =
     (let a = String c; b = String other in if a > b then 1 else if a < b then -1 else 0)"

section \<open>Laws of parameter access\<close>

lemma Values_Get_Nil [simp]: "Values_Get [] k = ''''"
  by (simp add: Values_Get_def)

lemma GetParam_eq: "GetParam c s d = (if Values_Get (params c) s = '''' then d else Values_Get (params c) s)"
  by (cases "params c") (simp_all add: GetParam_def Let_def)

lemma Values_Get_put [simp]:
  "Values_Get (map_put k (v # vs) ps) k' = (if k' = k then v else Values_Get ps k')"
  by (simp add: Values_Get_def)

lemma Values_Get_del [simp]:
  "Values_Get (map_del k ps) k' = (if k' = k then '''' else Values_Get ps k')"
  by (simp add: Values_Get_def)

lemma valuesHasNonDefaultParam_eq [simp]: "valuesHasNonDefaultParam ps k \<longleftrightarrow> Values_Get ps k \<noteq> ''''"
  by (cases ps) (simp_all add: valuesHasNonDefaultParam_def)

lemma GetParam_SetParam [simp]:
  "GetParam (SetParam c k v) k' d =
     (if k' = k then (if v = '''' then d else v) else GetParam c k' d)"
  by (simp add: GetParam_eq SetParam_def Values_Set_def)

lemma GetParam_DelParam [simp]:
  "GetParam (DelParam c k) k' d = (if k' = k then d else GetParam c k' d)"
  by (simp add: GetParam_eq DelParam_def)

lemma GetParam_nonempty: "GetParam c k d \<noteq> '''' \<or> d = ''''"
  by (simp add: GetParam_eq)

lemma GetParamInt_bounds: "in_int64 d \<Longrightarrow> in_int64 (GetParamInt c key d)"
  by (auto simp: GetParamInt_def ParseInt_bounds split: option.splits)

lemma GetMethodParamInt64_bounds:
  "in_int64 d \<Longrightarrow> in_int64 (GetMethodParamInt64 c m key d)"
  by (auto simp: GetMethodParamInt64_def GetMethodParamInt_def Let_def GetParamInt_bounds
           intro: ParseInt_bounds split: option.splits)

section \<open>Cloning keeps everything it is not told to drop\<close>

lemma copyURLValues_id: "map_ok src \<Longrightarrow> copyURLValues src = src"
  by (simp add: copyURLValues_def fold_map_put)

lemma shouldCopyParam_all [simp]: "shouldCopyParam key None []"
  by (simp add: shouldCopyParam_def)

lemma copyFilteredParams_filter:
  "map_ok src \<Longrightarrow>
   copyFilteredParams src [] ex rs = filter (\<lambda>e. shouldCopyParam (fst e) ex rs) src"
  by (cases ex) (auto simp: copyFilteredParams_def copyURLValues_id fold_map_put
                            fold_map_put_filter Let_def)

lemma fold_SetAttribute:
  "fold (\<lambda>(k, v) u. SetAttribute u k v) as u =
   upd (\<lambda>f. f\<lparr>u_attributes := fold (\<lambda>(k, v) m. map_put k v m) as (u_attributes f)\<rparr>) u"
  by (induction as arbitrary: u) (auto simp: SetAttribute_def upd_def)

lemma CloneWithFilter_eq:
  "url_ok c \<Longrightarrow>
   CloneWithFilter c ex rs =
     upd (\<lambda>f. f\<lparr>u_params := filter (\<lambda>e. shouldCopyParam (fst e) ex rs) (u_params f)\<rparr>) c"
proof (induction c ex rs rule: CloneWithFilter.induct)
  case (1 f sub ex rs)
  have own: "copyAttributes (Url f sub)
      (upd (\<lambda>g. g\<lparr>u_params := copyFilteredParams (u_params f) (u_params g) ex rs\<rparr>)
        (newURLForClone (Url f sub)))
     = Url (f\<lparr>u_params := filter (\<lambda>e. shouldCopyParam (fst e) ex rs) (u_params f)\<rparr>) None"
    using "1.prems"
    by (simp add: copyAttributes_def fold_SetAttribute newURLForClone_def empty_fields_def
                  copyFilteredParams_filter fold_map_put values_ok.simps upd_def)
  show ?case
  proof (cases sub)
    case None
    with own show ?thesis by (simp add: upd_def)
  next
    case (Some s)
    have "CloneWithFilter s None [] = s"
      using 1 Some by (simp add: upd_def)
    with own Some show ?thesis by (simp add: upd_def)
  qed
qed

lemma Clone_id [simp]: "url_ok c \<Longrightarrow> Clone c = c"
  by (simp add: Clone_def CloneWithFilter_eq upd_def)

section \<open>The type invariant is kept\<close>

lemma values_ok_put [simp]: "values_ok ps \<Longrightarrow> vs \<noteq> [] \<Longrightarrow> values_ok (map_put k vs ps)"
proof -
  have "e \<in> set (map_put k vs ps) \<Longrightarrow> e = (k, vs) \<or> e \<in> set ps" for e
    by (induction ps) (auto split: if_splits)
  then show "values_ok ps \<Longrightarrow> vs \<noteq> [] \<Longrightarrow> values_ok (map_put k vs ps)"
    by (force simp: values_ok.simps)
qed

lemma values_ok_filter [simp]: "values_ok ps \<Longrightarrow> values_ok (filter P ps)"
  by (auto simp: values_ok.simps map_ok_filter)

lemma values_ok_del [simp]: "values_ok ps \<Longrightarrow> values_ok (map_del k ps)"
  by (simp add: map_del_def)

lemma url_ok_upd:
  "url_ok c \<Longrightarrow>
   (values_ok (params c) \<Longrightarrow> map_ok (attributes c) \<Longrightarrow>
      values_ok (u_params (g (fields c))) \<and> map_ok (u_attributes (g (fields c)))) \<Longrightarrow>
   url_ok (upd g c)"
  by (cases c) (simp add: upd_def)

lemma url_okD: "url_ok c \<Longrightarrow> values_ok (params c) \<and> map_ok (attributes c)"
  by (cases c) simp

lemma values_ok_mergeParams:
  "values_ok ps \<Longrightarrow> values_ok (mergeParams another ps)"
  by (induction another arbitrary: ps) (auto simp: mergeParams_def)

lemma values_ok_mergeMethods: "values_ok ps \<Longrightarrow> values_ok (mergeMethods another ms ps)"
  by (induction ms arbitrary: ps)
     (simp_all add: mergeMethods_def mergeMethodParam_def Let_def)


lemma fold_merge_attributes:
  "\<exists>m. fold (\<lambda>(k, v) u. case GetAttribute u k of None \<Rightarrow> SetAttribute u k v | Some _ \<Rightarrow> u) as u
        = upd (\<lambda>f. f\<lparr>u_attributes := m\<rparr>) u \<and> (map_ok (attributes u) \<longrightarrow> map_ok m)"
proof (induction as arbitrary: u)
  case Nil
  show ?case by (rule exI[of _ "attributes u"]) (simp add: upd_def)
next
  case (Cons e as)
  let ?u = "case GetAttribute u (fst e) of None \<Rightarrow> SetAttribute u (fst e) (snd e) | Some _ \<Rightarrow> u"
  have step: "\<exists>m. ?u = upd (\<lambda>f. f\<lparr>u_attributes := m\<rparr>) u \<and> (map_ok (attributes u) \<longrightarrow> map_ok m)"
    by (auto simp: SetAttribute_def upd_def split: option.splits
             intro: exI[of _ "attributes u"] exI[of _ "map_put (fst e) (snd e) (attributes u)"])
  from Cons.IH[of ?u] step show ?case
    by (auto simp: upd_def split_beta)
qed

lemma mergeAttributes_upd:
  obtains m where "mergeAttributes another u = upd (\<lambda>f. f\<lparr>u_attributes := m\<rparr>) u"
    and "map_ok (attributes u) \<Longrightarrow> map_ok m"
  using fold_merge_attributes[of "attributes another" u] unfolding mergeAttributes_def by blast

lemma url_ok_MergeURL:
  assumes c: "url_ok c"
  shows "url_ok (MergeURL c another)"
proof -
  obtain m where m: "mergeAttributes another (upd (\<lambda>f. f\<lparr>u_Methods := Methods another\<rparr>) c)
      = upd (\<lambda>f. f\<lparr>u_attributes := m\<rparr>) (upd (\<lambda>f. f\<lparr>u_Methods := Methods another\<rparr>) c)"
    and ok: "map_ok (attributes c) \<Longrightarrow> map_ok m"
    using mergeAttributes_upd[of another "upd (\<lambda>f. f\<lparr>u_Methods := Methods another\<rparr>) c"] by auto
  from c ok url_okD[OF c] m show ?thesis
    by (cases c)
       (auto simp: MergeURL_def Let_def ReplaceParams_def upd_def
             intro!: values_ok_mergeMethods values_ok_mergeParams values_ok_put)
qed

section \<open>What a merge gives\<close>

text \<open>The keys for which \<^verbatim>\<open>anotherUrl\<close> wins.\<close>

definition merge_override_keys :: "string list \<Rightarrow> string set" where
  "merge_override_keys ms =
     (\<Union>m \<in> set ms. \<Union>p \<in> {LoadbalanceKey, ClusterKey, RetriesKey, TimeoutKey}. {p, methods_key m p})"

lemma Values_Get_mergeMethodParam:
  "Values_Get (mergeMethodParam a m p ps) k =
     (if k \<in> {p, methods_key m p} \<and> Values_Get a k \<noteq> '''' then Values_Get a k else Values_Get ps k)"
  by (auto simp: mergeMethodParam_def Let_def)

lemma Values_Get_mergeMethods:
  "Values_Get (mergeMethods a ms ps) k =
     (if k \<in> merge_override_keys ms \<and> Values_Get a k \<noteq> '''' then Values_Get a k else Values_Get ps k)"
proof (induction ms arbitrary: ps)
  case Nil
  then show ?case by (simp add: mergeMethods_def merge_override_keys_def)
next
  case (Cons m ms)
  have "mergeMethods a (m # ms) ps =
      mergeMethods a ms (fold (mergeMethodParam a m) [LoadbalanceKey, ClusterKey, RetriesKey, TimeoutKey] ps)"
    by (simp add: mergeMethods_def)
  moreover have "merge_override_keys (m # ms) = merge_override_keys ms \<union>
      (\<Union>p \<in> {LoadbalanceKey, ClusterKey, RetriesKey, TimeoutKey}. {p, methods_key m p})"
    by (auto simp: merge_override_keys_def)
  ultimately show ?case
    by (simp add: Cons.IH Values_Get_mergeMethodParam)
qed

lemma Values_Get_Cons:
  "Values_Get ((k0, vs) # a) k =
     (if k = k0 then (case vs of [] \<Rightarrow> [] | v # _ \<Rightarrow> v) else Values_Get a k)"
  by (simp add: Values_Get_def split: list.splits)

lemma Values_Get_mergeParams:
  "map_ok a \<Longrightarrow>
   Values_Get (mergeParams a ps) k =
     (if Values_Get ps k \<noteq> '''' then Values_Get ps k else Values_Get a k)"
proof (induction a arbitrary: ps)
  case Nil
  then show ?case by (simp add: mergeParams_def)
next
  case (Cons e a)
  obtain k0 vs where e: "e = (k0, vs)" by (cases e)
  have notin: "map_of a k0 = None"
    using Cons.prems e by (metis distinct.simps(2) fst_conv list.simps(9) map_of_eq_None_iff set_map)
  let ?ps = "if \<not> valuesHasNonDefaultParam ps k0
             then (if 0 < length vs then map_put k0 vs ps else ps) else ps"
  have unfold: "mergeParams (e # a) ps = mergeParams a ?ps"
    by (simp add: mergeParams_def e)
  have "Values_Get (mergeParams a ?ps) k =
     (if Values_Get ?ps k \<noteq> '''' then Values_Get ?ps k else Values_Get a k)"
    using Cons by simp
  moreover have "Values_Get a k0 = []" using notin by (simp add: Values_Get_def)
  ultimately show ?case
    unfolding unfold by (cases vs) (auto simp: e Values_Get_Cons split: if_splits)
qed

text \<open>Parameters of a merge, for a key other than the two timestamps.\<close>

lemma params_MergeURL:
  assumes "url_ok c"
  shows "params (MergeURL c a) =
    mergeMethods (params a) (Methods a)
      (if Values_Get (params c) TimestampKey = ''''
       then map_put TimestampKey [Values_Get (params a) TimestampKey]
              (map_put RemoteTimestampKey [''''] (mergeParams (params a) (params c)))
       else mergeParams (params a) (params c))"
  using assms by (simp add: MergeURL_def Let_def ReplaceParams_def)

lemma override_not_timestamp [simp]:
  "TimestampKey \<notin> merge_override_keys ms" "RemoteTimestampKey \<notin> merge_override_keys ms"
  by (auto simp: merge_override_keys_def methods_key_def)

section \<open>Comparison against the flattened map\<close>

text \<open>\<open>first_values\<close> is the map that \<^verbatim>\<open>RangeParams\<close> streams.\<close>

definition first_values :: "url_values \<Rightarrow> (string \<times> string) list" where
  "first_values ps = map (\<lambda>(k, vs). (k, hd vs)) ps"

lemma map_of_first_values: "map_of (first_values ps) k = map_option hd (map_of ps k)"
  by (induction ps) (auto simp: first_values_def)

lemma first_values_Nil [simp]: "first_values [] = []"
  by (simp add: first_values_def)

lemma keys_first_values [simp]: "map fst (first_values ps) = map fst ps"
  by (auto simp: first_values_def)

lemma RangeParams_fold:
  "values_ok ps \<Longrightarrow>
   RangeParams ps (\<lambda>k v s. (g k v s, True)) s = Inr (fold (\<lambda>(k, v) s. g k v s) (first_values ps) s)"
  by (induction ps arbitrary: s)
     (auto simp: first_values_def values_ok.simps split: list.splits)

lemma rawParam_values_ok:
  "values_ok (params c) \<Longrightarrow>
   rawParam c k = (case map_of (first_values (params c)) k of None \<Rightarrow> ('''', False) | Some v \<Rightarrow> (v, True))"
  by (auto simp: rawParam_def map_of_first_values values_ok.simps dest!: map_of_SomeD
           split: option.splits list.splits)

lemma RangeParams_compare:
  assumes "values_ok rs"
  shows "\<exists>n b. RangeParams rs
           (\<lambda>key value (rightCount, matched).
              if key \<in> R \<or> key \<in> E then ((rightCount, matched), True)
              else if L key \<noteq> Some value then ((rightCount + 1, False), False)
                   else ((rightCount + 1, matched), True)) (n0 :: nat, True) = Inr (n, b)
         \<and> (b \<longleftrightarrow> (\<forall>e \<in> set (first_values rs). fst e \<notin> R \<and> fst e \<notin> E \<longrightarrow> L (fst e) = Some (snd e)))
         \<and> (b \<longrightarrow> n = n0 + length (filter (\<lambda>e. fst e \<notin> R \<and> fst e \<notin> E) (first_values rs)))"
  using assms
proof (induction rs arbitrary: n0)
  case Nil
  show ?case by (auto simp: first_values_def)
next
  case (Cons e rs)
  obtain k v vs where e: "e = (k, v # vs)"
    using Cons.prems by (cases e; cases "snd e") (auto simp: values_ok.simps)
  have ok: "values_ok rs" using Cons.prems by (simp add: values_ok.simps)
  show ?case
    using Cons.IH[OF ok, of n0] Cons.IH[OF ok, of "n0 + 1"]
    by (auto simp: e first_values_def)
qed

text \<open>Two finite maps of equal size, one inside the other, are equal.\<close>

lemma map_ok_subset_eq:
  assumes "map_ok l" "map_ok r" "\<forall>e \<in> set r. map_of l (fst e) = Some (snd e)"
    "length r = length l"
  shows "map_of l = map_of r"
proof
  fix k
  have sub: "dom (map_of r) \<subseteq> dom (map_of l)"
    using assms(3) by (force dest: map_of_SomeD)
  have eq: "dom (map_of r) = dom (map_of l)"
    using assms(1,2,4) sub by (intro card_subset_eq) (simp_all add: finite_dom_map_of length_map_ok[symmetric])
  show "map_of l k = map_of r k"
  proof (cases "map_of r k")
    case None
    with eq show ?thesis by (metis domIff)
  next
    case (Some v)
    with assms(3) show ?thesis by (force dest: map_of_SomeD)
  qed
qed

lemma equalParams_iff:
  assumes l: "values_ok (params l)" and r: "values_ok (params r)"
  shows "equalParams l r ex = Inr (\<forall>k. k \<notin> set reservedKeyList \<and> k \<notin> set ex \<longrightarrow>
           map_of (first_values (params l)) k = map_of (first_values (params r)) k)"
proof -
  let ?P = "\<lambda>k. k \<notin> set reservedKeyList \<and> k \<notin> set ex"
  let ?L = "filter (\<lambda>e. ?P (fst e)) (first_values (params l))"
  let ?R = "filter (\<lambda>e. ?P (fst e)) (first_values (params r))"
  have okl: "map_ok (first_values (params l))" and okr: "map_ok (first_values (params r))"
    using l r by (simp_all add: values_ok.simps)
  have left: "RangeParams (params l)
      (\<lambda>key value m. (if ?P key then map_put key value m else m, True)) [] = Inr ?L"
    using RangeParams_fold[OF l, of "\<lambda>key value m. if ?P key then map_put key value m else m" "[]"]
      fold_map_put_filter[OF okl, of "[]" ?P] by simp
  obtain n b where right: "RangeParams (params r)
      (\<lambda>key value (rightCount, matched).
         if key \<in> set reservedKeyList \<or> key \<in> set ex then ((rightCount, matched), True)
         else if map_of ?L key \<noteq> Some value then ((rightCount + 1, False), False)
              else ((rightCount + 1, matched), True)) (0 :: nat, True) = Inr (n, b)"
    and b: "b \<longleftrightarrow> (\<forall>e \<in> set (first_values (params r)). ?P (fst e) \<longrightarrow> map_of ?L (fst e) = Some (snd e))"
    and n: "b \<longrightarrow> n = length ?R"
    using RangeParams_compare[OF r, of "set reservedKeyList" "set ex" "map_of ?L" 0] by auto
  have b': "b \<longleftrightarrow> (\<forall>e \<in> set ?R. map_of ?L (fst e) = Some (snd e))"
    using b by auto
  have ok: "map_ok ?L" "map_ok ?R" using okl okr by (simp_all only: map_ok_filter)
  have "(b \<and> n = length ?L) \<longleftrightarrow> map_of ?L = map_of ?R"
  proof
    assume "b \<and> n = length ?L"
    with b' n show "map_of ?L = map_of ?R" by (intro map_ok_subset_eq ok) auto
  next
    assume eq: "map_of ?L = map_of ?R"
    then have "length ?L = length ?R" using ok by (simp only: length_map_ok)
    moreover have b using b' eq ok(2) by (auto simp del: set_filter)
    ultimately show "b \<and> n = length ?L" using n by simp
  qed
  also have "\<dots> \<longleftrightarrow> (\<forall>k. ?P k \<longrightarrow>
      map_of (first_values (params l)) k = map_of (first_values (params r)) k)"
    by (auto simp: fun_eq_iff map_of_filter_key[where P = ?P])
  finally show ?thesis
    unfolding equalParams_def left by (simp only: sum.case right prod.case)
qed

text \<open>\<^verbatim>\<open>ToMap\<close> never panics on a well-formed URL, and this is what it maps each key to.\<close>

definition flat_value :: "url \<Rightarrow> string \<Rightarrow> string option" where
  "flat_value c k =
     (if k \<in> set reservedKeyList
      then (case effectiveReserved c k of (v, ok) \<Rightarrow> if ok then Some v else None)
      else map_of (first_values (params c)) k)"

lemma ToMap_flat_value:
  assumes ok: "url_ok c"
  shows "\<exists>m. ToMap c = Inr m \<and> (\<forall>k. map_of m k = flat_value c k)"
proof -
  have vok: "values_ok (params c)" using ok by (simp add: url_okD)
  have range: "RangeParams (params c) (\<lambda>key value m. (map_put key value m, True)) []
      = Inr (first_values (params c))"
    using RangeParams_fold[OF vok, of map_put "[]"] fold_map_put[of "first_values (params c)" "[]"] vok
    by (simp add: values_ok.simps)
  have raw: "(case rawParam c k of (v, ok) \<Rightarrow> if ok then Some v else None)
      = map_of (first_values (params c)) k" for k
    by (simp add: rawParam_values_ok[OF vok] split: option.splits)
  show ?thesis
    unfolding ToMap_def range sum.case
    by (cases "parseLocation (Location c)")
       (auto simp: Let_def flat_value_def effectiveReserved_def reservedKeyList_def raw)
qed

lemma equalReservedKeys_loop_iff:
  "equalReservedKeys_loop l r ex keys \<longleftrightarrow>
     (\<forall>k \<in> set keys. k \<notin> set ex \<longrightarrow> effectiveReserved l k = effectiveReserved r k)"
  by (induction keys) (auto split: prod.splits)

lemma effectiveReserved_absent: "\<not> snd (effectiveReserved c k) \<Longrightarrow> fst (effectiveReserved c k) = []"
  by (auto simp: effectiveReserved_def rawParam_def split: if_splits option.splits list.splits)

lemma effectiveReserved_flat:
  "k \<in> set reservedKeyList \<Longrightarrow>
   effectiveReserved l k = effectiveReserved r k \<longleftrightarrow> flat_value l k = flat_value r k"
  using effectiveReserved_absent[of l k] effectiveReserved_absent[of r k]
  by (auto simp: flat_value_def prod_eq_iff split_beta split: if_splits)

lemma IsEquals_flat:
  assumes "url_ok l" "url_ok r"
  shows "IsEquals (Some l) (Some r) ex = Inr (Ip l = Ip r \<and> Port l = Port r \<and>
           (\<forall>k. k \<notin> set ex \<longrightarrow> flat_value l k = flat_value r k))"
proof -
  have res: "equalReservedKeys l r ex \<longleftrightarrow>
      (\<forall>k \<in> set reservedKeyList. k \<notin> set ex \<longrightarrow> flat_value l k = flat_value r k)"
    by (simp add: equalReservedKeys_def equalReservedKeys_loop_iff effectiveReserved_flat)
  have par: "equalParams l r ex = Inr (\<forall>k. k \<notin> set reservedKeyList \<and> k \<notin> set ex \<longrightarrow>
      flat_value l k = flat_value r k)"
    using assms by (simp add: equalParams_iff url_okD flat_value_def cong: conj_cong)
  show ?thesis
    by (auto simp: IsEquals_def res par)
qed

section \<open>Properties\<close>

text \<open>
  C10: \<^verbatim>\<open>IsEquals\<close>, which compares two URLs without building maps, agrees with the comparison
  of their \<^verbatim>\<open>ToMap\<close> maps: on two URLs it never panics, and it answers true exactly when ip and port
  are equal and both maps give every key outside the exclude list the same value.  A URL differs
  from nil.
\<close>

theorem IsEquals_agrees_with_ToMap:
  assumes "url_ok left" "url_ok right"
  shows "\<exists>ml mr. ToMap left = Inr ml \<and> ToMap right = Inr mr \<and>
    IsEquals (Some left) (Some right) excludes =
      Inr (Ip left = Ip right \<and> Port left = Port right \<and>
           (\<forall>k. k \<notin> set excludes \<longrightarrow> map_of ml k = map_of mr k)) \<and>
    IsEquals (Some left) None excludes = Inr False \<and> IsEquals None (Some right) excludes = Inr False"
proof -
  obtain ml where ml: "ToMap left = Inr ml" "\<And>k. map_of ml k = flat_value left k"
    using ToMap_flat_value[OF assms(1)] by blast
  obtain mr where mr: "ToMap right = Inr mr" "\<And>k. map_of mr k = flat_value right k"
    using ToMap_flat_value[OF assms(2)] by blast
  show ?thesis
    using ml mr IsEquals_flat[OF assms] by (auto simp: IsEquals_def)
qed

text \<open>
  C9: what a merge gives for every parameter.  The first URL's value wins and the second URL only
  fills gaps, with three exceptions.  The second URL wins for the per-method forms of loadbalance,
  cluster, retries and timeout of its own methods.  It wins for these four keys themselves only if
  it lists a method at all; if it lists none, the first URL wins there as well, although the comment
  on \<^verbatim>\<open>MergeURL\<close> excepts them without a condition.  And if the first URL has no timestamp,
  \<^verbatim>\<open>remote.timestamp\<close> is emptied, whatever either URL has there, so that reading it gives the default.
\<close>

theorem MergeURL_precedence:
  assumes "url_ok c" "url_ok another"
  shows "(\<forall>k. k \<noteq> RemoteTimestampKey \<longrightarrow>
           GetParam (MergeURL c another) k d =
             (if k \<in> merge_override_keys (Methods another)
              then GetParam another k (GetParam c k d) else GetParam c k (GetParam another k d)))
       \<and> (\<forall>k \<in> {LoadbalanceKey, ClusterKey, RetriesKey, TimeoutKey}.
           GetParam (MergeURL c another) k d =
             (if Methods another = [] then GetParam c k (GetParam another k d)
              else GetParam another k (GetParam c k d)))
       \<and> GetParam (MergeURL c another) RemoteTimestampKey d =
           (if GetParam c TimestampKey '''' = '''' then d
            else GetParam c RemoteTimestampKey (GetParam another RemoteTimestampKey d))"
proof -
  have four: "k \<in> merge_override_keys (Methods another) \<longleftrightarrow> Methods another \<noteq> []"
    if "k \<in> {LoadbalanceKey, ClusterKey, RetriesKey, TimeoutKey}" for k
    using that by (cases "Methods another") (auto simp: merge_override_keys_def)
  have "map_ok (params another)"
    using assms(2) by (simp add: url_okD[THEN conjunct1, unfolded values_ok.simps])
  note eval = GetParam_eq params_MergeURL[OF assms(1)] Values_Get_mergeMethods Values_Get_mergeParams[OF this]
  have rule: "GetParam (MergeURL c another) k d =
      (if k \<in> merge_override_keys (Methods another)
       then GetParam another k (GetParam c k d) else GetParam c k (GetParam another k d))"
    if "k \<noteq> RemoteTimestampKey" for k
    using that by (cases "k = TimestampKey") (simp_all add: eval)
  moreover have "GetParam (MergeURL c another) k d =
      (if Methods another = [] then GetParam c k (GetParam another k d) else GetParam another k (GetParam c k d))"
    if "k \<in> {LoadbalanceKey, ClusterKey, RetriesKey, TimeoutKey}" for k
    using rule[of k] four[OF that] that by auto
  moreover have "GetParam (MergeURL c another) RemoteTimestampKey d =
      (if GetParam c TimestampKey '''' = '''' then d
       else GetParam c RemoteTimestampKey (GetParam another RemoteTimestampKey d))"
    by (simp add: eval)
  ultimately show ?thesis by blast
qed

definition sample_consumer :: url where
  "sample_consumer =
     NewURLWithOptions [WithProtocol ''tri'', WithIp ''10.0.0.1'', WithPort ''20000'',
       WithParamsValue ''a1'' ''v1'', WithParamsValue ''b1'' ''v2'', WithParamsValue ''retries'' ''2'']"

definition sample_provider :: url where
  "sample_provider =
     NewURLWithOptions [WithProtocol ''tri'', WithIp ''10.0.0.2'', WithPort ''20000'',
       WithMethods [''Greet''], WithParamsValue ''a2'' ''v3'', WithParamsValue ''b1'' ''v4'',
       WithParamsValue ''retries'' ''5'', WithParamsValue ''timestamp'' ''1700000000'']"

lemmas url_eval = sample_consumer_def sample_provider_def NewURLWithOptions_def empty_fields_def
  WithProtocol_def WithIp_def WithPort_def WithMethods_def WithParamsValue_def SetParam_def
  Values_Set_def upd_def values_ok.simps

lemma sample_urls_ok [simp]: "url_ok sample_consumer" "url_ok sample_provider"
  by (simp_all add: url_eval)

theorem IsEquals_agrees_with_ToMap_witness:
  "IsEquals (Some sample_consumer) (Some (SetParam sample_consumer ''b1'' ''w'')) [''b1''] = Inr True"
proof -
  have "url_ok (SetParam sample_consumer ''b1'' ''w'')" by (simp add: url_eval)
  from IsEquals_agrees_with_ToMap[OF sample_urls_ok(1) this, of "[''b1'']"]
  show ?thesis
    by (auto simp: url_eval ToMap_def parseLocation_def Cut_def Let_def)
qed

theorem MergeURL_precedence_witness:
  "GetParam (MergeURL sample_consumer sample_provider) ''b1'' '''' = ''v2'' \<and>
   GetParam (MergeURL sample_consumer sample_provider) ''a2'' '''' = ''v3'' \<and>
   GetParam (MergeURL sample_consumer sample_provider) RetriesKey '''' = ''5'' \<and>
   GetParam (MergeURL sample_consumer sample_provider) RemoteTimestampKey ''none'' = ''none''"
  using MergeURL_precedence[OF sample_urls_ok, of "''''"] MergeURL_precedence[OF sample_urls_ok, of "''none''"]
  by (simp add: merge_override_keys_def url_eval GetParam_def Values_Get_def methods_key_def)

text \<open>
  C38: a service key made from an interface, a group and a version parses back into them (version
  0.0.0 is the absent version) whenever the separators leave the key unambiguous.
\<close>

theorem ParseServiceKey_ServiceKey3:
  assumes "intf \<noteq> ''''" "CHR ''/'' \<notin> set grp"
    "grp \<noteq> '''' \<or> CHR ''/'' \<notin> set intf \<union> set version"
    "CHR '':'' \<notin> set version" "version \<notin> {'''', ''0.0.0''} \<or> CHR '':'' \<notin> set intf"
  shows "ParseServiceKey (ServiceKey3 intf grp version) =
           (intf, grp, if version = ''0.0.0'' then '''' else version)"
proof -
  let ?k = "ServiceKey3 intf grp version"
  let ?r = "intf @ (if version \<noteq> '''' \<and> version \<noteq> ''0.0.0'' then '':'' @ version else '''')"
  have "(case Index ?k ''/'' of Some i \<Rightarrow> (take i ?k, drop (i + 1) ?k) | None \<Rightarrow> ('''', ?k)) = (grp, ?r)"
    using assms(1,2,3)
    by (cases "grp = ''''") (simp_all add: ServiceKey3_def Index_char_append Index_char_None[THEN iffD2])
  moreover have "(case LastIndex ?r '':'' of Some i \<Rightarrow> (drop (i + 1) ?r, take i ?r) | None \<Rightarrow> ('''', ?r))
      = (if version = ''0.0.0'' then '''' else version, intf)"
    using assms(4,5)
    by (cases "version \<in> {'''', ''0.0.0''}")
       (auto simp: LastIndex_char_append LastIndex_char_None[THEN iffD2])
  moreover have "?k \<noteq> ''''" using assms(1) by (simp add: ServiceKey3_def)
  ultimately show ?thesis by (simp add: ParseServiceKey_def Let_def)
qed

theorem ParseServiceKey_ServiceKey3_witness:
  "ParseServiceKey (ServiceKey3 ''com.foo.Greeter'' ''g1'' ''1.0.0'') = (''com.foo.Greeter'', ''g1'', ''1.0.0'')"
  using ParseServiceKey_ServiceKey3[of "''com.foo.Greeter''" "''g1''" "''1.0.0''"] by simp

lemma RangeParams_empty_value:
  "(k, []) \<in> set ps \<Longrightarrow> RangeParams ps (\<lambda>k v s. (g k v s, True)) s = Inl IndexOutOfRange"
  by (induction ps arbitrary: s) (auto split: list.split)

lemma url_ok_ReplaceParams:
  "url_ok c \<Longrightarrow> url_ok (ReplaceParams c ps) \<longleftrightarrow> values_ok ps"
  by (cases c) (simp add: ReplaceParams_def upd_def)

text \<open>
  C37: the invariant that no parameter or attribute key occurs twice and that every parameter has a
  value, under which \<^verbatim>\<open>RangeParams\<close> does not panic, is kept by every method that writes parameters
  or attributes, except for \<^verbatim>\<open>ReplaceParams\<close>.  That one installs the given values as they are: it
  keeps the invariant exactly when the values have it, and after installing a key with an empty
  list of values \<^verbatim>\<open>RangeParams\<close> panics.
\<close>

theorem url_ok_preserved:
  assumes "url_ok c"
  shows "url_ok (SetParam c k v) \<and> url_ok (AppendParam c k v) \<and> url_ok (AddParam c k v) \<and>
    url_ok (AddParamAvoidNil c k v) \<and> url_ok (DelParam c k) \<and>
    url_ok (snd (CompareAndSwapParam c k e v)) \<and> url_ok (SetParams c m) \<and>
    url_ok (SetAttribute c k a) \<and> url_ok (DeleteAttribute c k) \<and> url_ok (ClearAttributes c) \<and>
    url_ok (CloneWithFilter c ex rs) \<and> url_ok (MergeURL c another) \<and>
    (\<exists>s'. RangeParams (params c) (\<lambda>k v s. (g k v s, True)) s = Inr s') \<and>
    (url_ok (ReplaceParams c ps) \<longleftrightarrow> values_ok ps) \<and>
    ((k, []) \<in> set ps \<longrightarrow>
       RangeParams (params (ReplaceParams c ps)) (\<lambda>k v s. (g k v s, True)) s = Inl IndexOutOfRange)"
proof -
  have vok: "values_ok (params c)" and aok: "map_ok (attributes c)"
    using url_okD[OF assms] by simp_all
  have sp: "values_ok ps \<Longrightarrow>
      values_ok (fold (\<lambda>(k, vs) ps. if vs = [] then map_del k ps else map_put k vs ps) m ps)" for ps
    by (induction m arbitrary: ps) auto
  have "url_ok (SetParam c k v)" "url_ok (AppendParam c k v)" "url_ok (DelParam c k)"
    "url_ok (snd (CompareAndSwapParam c k e v))" "url_ok (SetParams c m)"
    "url_ok (SetAttribute c k a)" "url_ok (DeleteAttribute c k)" "url_ok (ClearAttributes c)"
    "url_ok (CloneWithFilter c ex rs)"
    unfolding SetParam_def AppendParam_def DelParam_def CompareAndSwapParam_def SetParams_def
      SetAttribute_def DeleteAttribute_def ClearAttributes_def CloneWithFilter_eq[OF assms]
      Values_Set_def Values_Add_def
    using assms by (auto intro!: url_ok_upd sp)
  then show ?thesis
    using url_ok_MergeURL[OF assms] RangeParams_fold[OF vok, of g s] url_ok_ReplaceParams[OF assms]
      RangeParams_empty_value[of k ps g s]
    by (simp add: AddParam_def AddParamAvoidNil_def ReplaceParams_def)
qed

theorem url_ok_preserved_witness:
  "url_ok (SetParam sample_consumer ''a1'' '''') \<and> url_ok (MergeURL sample_consumer sample_provider) \<and>
   \<not> url_ok (ReplaceParams sample_consumer [(''a1'', [])]) \<and>
   RangeParams (params (ReplaceParams sample_consumer [(''a1'', [])])) (\<lambda>_ _ n. (n, True)) (0::nat) = Inl IndexOutOfRange"
  using url_ok_preserved[OF sample_urls_ok(1), where k = "''a1''" and v = "''''" and another = sample_provider
      and s = "0::nat" and g = "\<lambda>_ _ n. n" and ps = "[(''a1'', [])]"]
  by (simp add: values_ok.simps)

end
