(* ===== verification/Url_Parse.thy ===== *)
theory Url_Parse
  imports Url
begin

text \<open>
  \<^verbatim>\<open>common.NewURL\<close>, which turns a text into a URL, with what it uses of the packages \<^verbatim>\<open>net/url\<close>
  (\<^verbatim>\<open>Parse\<close>, \<^verbatim>\<open>ParseQuery\<close>, \<^verbatim>\<open>QueryUnescape\<close>, as of Go 1.25.0) and \<^verbatim>\<open>net\<close> (\<^verbatim>\<open>SplitHostPort\<close>), and
  the round trip through \<^const>\<open>String\<close>.  The texts of errors are not modelled, only their kinds.
\<close>

section \<open>Package net/url: unescaping\<close>

datatype encoding =
    encodePath
  | encodeHost
  | encodeZone
  | encodeUserPassword
  | encodeQueryComponent
  | encodeFragment

datatype url_error =
    EscapeError string
  | InvalidHostError string
  | ParseError string
  | AddrError string

definition unhex :: "char \<Rightarrow> nat option" where
  "unhex c =
     (let n = (of_char c :: nat)
      in if 48 \<le> n \<and> n \<le> 57 then Some (n - 48)
         else if 97 \<le> n \<and> n \<le> 102 then Some (n - 87)
         else if 65 \<le> n \<and> n \<le> 70 then Some (n - 55)
         else None)"

text \<open>The characters that need no escape in a host.\<close>

definition host_char :: "char \<Rightarrow> bool" where
  "host_char c \<longleftrightarrow> unreserved c \<or> c \<in> set ''!$&()*+,;=:[]<>'' \<or> c = CHR 0x22 \<or> c = CHR 0x27"

text \<open>Prefixing the text that was read.\<close>

definition pre :: "string \<Rightarrow> url_error + string \<Rightarrow> url_error + string" where
  "pre s r = (case r of Inl e \<Rightarrow> Inl e | Inr t \<Rightarrow> Inr (s @ t))"

definition escaped_ok :: "encoding \<Rightarrow> char \<Rightarrow> char \<Rightarrow> nat \<Rightarrow> bool" where
  "escaped_ok mode a b n \<longleftrightarrow>
     [a, b] = ''25'' \<or>
     (case mode of
        encodeHost \<Rightarrow> 128 \<le> n
      | encodeZone \<Rightarrow> n = 32 \<or> host_char (char_of n)
      | _ \<Rightarrow> True)"

definition plain_ok :: "encoding \<Rightarrow> char \<Rightarrow> bool" where
  "plain_ok mode c \<longleftrightarrow> \<not> ((mode = encodeHost \<or> mode = encodeZone) \<and> (of_char c :: nat) < 128 \<and> \<not> host_char c)"

fun unescape :: "encoding \<Rightarrow> string \<Rightarrow> url_error + string" where
  "unescape mode [] = Inr []"
| "unescape mode (c # s) =
     (if c = CHR ''%''
      then (case s of
              a # b # rest \<Rightarrow>
                (case (unhex a, unhex b) of
                   (Some x, Some y) \<Rightarrow>
                     if escaped_ok mode a b (16 * x + y) then pre [char_of (16 * x + y)] (unescape mode rest)
                     else Inl (EscapeError [c, a, b])
                 | _ \<Rightarrow> Inl (EscapeError [c, a, b]))
            | _ \<Rightarrow> Inl (EscapeError (c # s)))
      else if c = CHR ''+'' then pre (if mode = encodeQueryComponent then '' '' else ''+'') (unescape mode s)
      else if plain_ok mode c then pre [c] (unescape mode s)
      else Inl (InvalidHostError [c]))"

abbreviation QueryUnescape :: "string \<Rightarrow> url_error + string" where
  "QueryUnescape \<equiv> unescape encodeQueryComponent"

text \<open>
  \<^verbatim>\<open>ParseQuery\<close>: a semicolon is an error whatever came before it, of the other errors the first one
  is kept, and the loop goes on after an error.
\<close>

fun parse_pairs :: "string list \<Rightarrow> url_error option \<Rightarrow> url_values \<Rightarrow> url_error option \<times> url_values" where
  "parse_pairs [] err m = (err, m)"
| "parse_pairs (p # ps) err m =
     (if Contains p '';'' then parse_pairs ps (Some (ParseError ''invalid semicolon separator in query'')) m
      else if p = '''' then parse_pairs ps err m
      else
        let (key, val, _) = Cut p ''=''
        in case QueryUnescape key of
             Inl e \<Rightarrow> parse_pairs ps (if err = None then Some e else err) m
           | Inr key \<Rightarrow>
               (case QueryUnescape val of
                  Inl e \<Rightarrow> parse_pairs ps (if err = None then Some e else err) m
                | Inr val \<Rightarrow> parse_pairs ps err (Values_Add m key val)))"

definition ParseQuery :: "string \<Rightarrow> url_error + url_values" where
  "ParseQuery query = (case parse_pairs (Split query ''&'') None [] of (None, m) \<Rightarrow> Inr m | (Some e, _) \<Rightarrow> Inl e)"

section \<open>Package net/url: Parse\<close>

record parsed_url =
  p_Scheme :: string
  p_User :: "(string \<times> string option) option"
  p_Host :: string
  p_Path :: string
  p_RawQuery :: string

definition no_parts :: parsed_url where
  "no_parts = \<lparr>p_Scheme = '''', p_User = None, p_Host = '''', p_Path = '''', p_RawQuery = ''''\<rparr>"

definition is_letter :: "char \<Rightarrow> bool" where
  "is_letter c \<longleftrightarrow> (let n = (of_char c :: nat) in 97 \<le> n \<and> n \<le> 122 \<or> 65 \<le> n \<and> n \<le> 90)"

definition to_lower :: "char \<Rightarrow> char" where
  "to_lower c = (let n = (of_char c :: nat) in if 65 \<le> n \<and> n \<le> 90 then char_of (n + 32) else c)"

text \<open>\<open>seen\<close> is the part of the scheme that was read.\<close>

fun getScheme :: "string \<Rightarrow> string \<Rightarrow> string \<Rightarrow> url_error + string \<times> string" where
  "getScheme raw seen [] = Inr ('''', raw)"
| "getScheme raw seen (c # s) =
     (if is_letter c then getScheme raw (seen @ [c]) s
      else if is_digit c \<or> c \<in> set ''+-.'' then if seen = '''' then Inr ('''', raw) else getScheme raw (seen @ [c]) s
      else if c = CHR '':'' then if seen = '''' then Inl (ParseError ''missing protocol scheme'') else Inr (seen, s)
      else Inr ('''', raw))"

definition validOptionalPort :: "string \<Rightarrow> bool" where
  "validOptionalPort port = (case port of [] \<Rightarrow> True | c # ds \<Rightarrow> c = CHR '':'' \<and> list_all is_digit ds)"

definition validUserinfo :: "string \<Rightarrow> bool" where
  "validUserinfo s = list_all (\<lambda>c. is_letter c \<or> is_digit c \<or> c \<in> set ''-._:~!$&()*+,;=%@'' \<or> c = CHR 0x27) s"

text \<open>The zone of an address in brackets has its own escapes.\<close>

definition parseHost :: "string \<Rightarrow> url_error + string" where
  "parseHost host =
     (if HasPrefix host ''[''
      then (case LastIndex host '']'' of
              None \<Rightarrow> Inl (ParseError ''missing bracket in host'')
            | Some i \<Rightarrow>
                if \<not> validOptionalPort (drop (i + 1) host) then Inl (ParseError ''invalid port after host'')
                else case Index (take i host) ''%25'' of
                       None \<Rightarrow> unescape encodeHost host
                     | Some zone \<Rightarrow>
                         (case unescape encodeHost (take zone host) of
                            Inl e \<Rightarrow> Inl e
                          | Inr host1 \<Rightarrow>
                              (case unescape encodeZone (drop zone (take i host)) of
                                 Inl e \<Rightarrow> Inl e
                               | Inr host2 \<Rightarrow> pre (host1 @ host2) (unescape encodeHost (drop i host)))))
      else case LastIndex host '':'' of
             Some i \<Rightarrow>
               if validOptionalPort (drop i host) then unescape encodeHost host
               else Inl (ParseError ''invalid port after host'')
           | None \<Rightarrow> unescape encodeHost host)"

definition parseAuthority :: "string \<Rightarrow> url_error + (string \<times> string option) option \<times> string" where
  "parseAuthority authority =
     (case LastIndex authority ''@'' of
        None \<Rightarrow> (case parseHost authority of Inl e \<Rightarrow> Inl e | Inr host \<Rightarrow> Inr (None, host))
      | Some i \<Rightarrow>
          (case parseHost (drop (i + 1) authority) of
             Inl e \<Rightarrow> Inl e
           | Inr host \<Rightarrow>
               let userinfo = take i authority
               in if \<not> validUserinfo userinfo then Inl (ParseError ''net/url: invalid userinfo'')
                  else if \<not> Contains userinfo '':''
                  then (case unescape encodeUserPassword userinfo of
                          Inl e \<Rightarrow> Inl e
                        | Inr user \<Rightarrow> Inr (Some (user, None), host))
                  else
                    let (username, password, _) = Cut userinfo '':''
                    in case unescape encodeUserPassword username of
                         Inl e \<Rightarrow> Inl e
                       | Inr username \<Rightarrow>
                           (case unescape encodeUserPassword password of
                              Inl e \<Rightarrow> Inl e
                            | Inr password \<Rightarrow> Inr (Some (username, Some password), host))))"

definition control_char :: "char \<Rightarrow> bool" where
  "control_char c \<longleftrightarrow> (let n = (of_char c :: nat) in n < 32 \<or> n = 127)"

text \<open>The part after the scheme and before the query.\<close>

definition parse_hier :: "parsed_url \<Rightarrow> string \<Rightarrow> url_error + parsed_url" where
  "parse_hier u rest =
     (let with_path = (\<lambda>u path. case unescape encodePath path of Inl e \<Rightarrow> Inl e | Inr p \<Rightarrow> Inr (u\<lparr>p_Path := p\<rparr>))
      in if (p_Scheme u \<noteq> '''' \<or> \<not> HasPrefix rest ''///'') \<and> HasPrefix rest ''//''
         then
           let authority = drop 2 rest;
               (authority, rest) = (case Index authority ''/'' of Some i \<Rightarrow> (take i authority, drop i authority) | None \<Rightarrow> (authority, ''''))
           in case parseAuthority authority of
                Inl e \<Rightarrow> Inl e
              | Inr (user, host) \<Rightarrow> with_path (u\<lparr>p_User := user, p_Host := host\<rparr>) rest
         else with_path u rest)"

definition parse_url :: "string \<Rightarrow> url_error + parsed_url" where
  "parse_url rawURL =
     (if list_ex control_char rawURL then Inl (ParseError ''net/url: invalid control character in URL'')
      else if rawURL = ''*'' then Inr (no_parts\<lparr>p_Path := ''*''\<rparr>)
      else case getScheme rawURL '''' rawURL of
             Inl e \<Rightarrow> Inl e
           | Inr (scheme, rest) \<Rightarrow>
               let scheme = map to_lower scheme;
                   (rest, query) =
                     (if HasSuffix rest ''?'' \<and> count_list rest (CHR ''?'') = 1 then (butlast rest, '''')
                      else let (rest, query, _) = Cut rest ''?'' in (rest, query));
                   u = no_parts\<lparr>p_Scheme := scheme, p_RawQuery := query\<rparr>
               in if \<not> HasPrefix rest ''/''
                  then if scheme \<noteq> '''' then Inr u
                       else if Contains (fst (Cut rest ''/'')) '':''
                       then Inl (ParseError ''first path segment in URL cannot contain colon'')
                       else parse_hier u rest
                  else parse_hier u rest)"

definition Parse :: "string \<Rightarrow> url_error + parsed_url" where
  "Parse rawURL =
     (let (u, frag, _) = Cut rawURL ''#''
      in case parse_url u of
           Inl e \<Rightarrow> Inl e
         | Inr url \<Rightarrow>
             if frag = '''' then Inr url
             else case unescape encodeFragment frag of Inl e \<Rightarrow> Inl e | Inr _ \<Rightarrow> Inr url)"

section \<open>Package net: SplitHostPort\<close>

definition SplitHostPort :: "string \<Rightarrow> url_error + string \<times> string" where
  "SplitHostPort hostport =
     (case LastIndex hostport '':'' of
        None \<Rightarrow> Inl (AddrError ''missing port in address'')
      | Some i \<Rightarrow>
          if HasPrefix hostport ''[''
          then (case Index hostport '']'' of
                  None \<Rightarrow> Inl (AddrError ''missing bracket in address'')
                | Some close \<Rightarrow>
                    if close + 1 \<noteq> i
                    then Inl (AddrError (if close + 1 \<noteq> length hostport \<and> hostport ! (close + 1) = CHR '':''
                                then ''too many colons in address'' else ''missing port in address''))
                    else if Contains (drop 1 hostport) ''['' then Inl (AddrError ''unexpected bracket in address'')
                    else if Contains (drop (close + 1) hostport) '']'' then Inl (AddrError ''unexpected bracket in address'')
                    else Inr (drop 1 (take close hostport), drop (i + 1) hostport))
          else if Contains (take i hostport) '':'' then Inl (AddrError ''too many colons in address'')
          else if Contains hostport ''['' \<or> Contains hostport '']'' then Inl (AddrError ''unexpected bracket in address'')
          else Inr (take i hostport, drop (i + 1) hostport))"

section \<open>NewURL\<close>

text \<open>A list of addresses may have blanks and empty entries.\<close>

definition urlStringTrim :: "string \<Rightarrow> string" where
  "urlStringTrim s = join_with '','' (filter (\<lambda>t. t \<noteq> '''') (map TrimSpace (Split s '','')))"

text \<open>The address and the port are those of the first location that has a port.\<close>

fun first_address :: "string list \<Rightarrow> url_error + (string \<times> string) option" where
  "first_address [] = Inr None"
| "first_address (l # ls) =
     (let location = Trim l (CHR '' '')
      in if Contains location '':''
         then (case SplitHostPort location of Inl e \<Rightarrow> Inl e | Inr a \<Rightarrow> Inr (Some a))
         else first_address ls)"

definition NewURL :: "string \<Rightarrow> Option list \<Rightarrow> url_error + url" where
  "NewURL urlString opts =
     (if urlString = '''' then Inr (Url empty_fields None)
      else
        let urlString = urlStringTrim urlString
        in case QueryUnescape urlString of
             Inl e \<Rightarrow> Inl e
           | Inr rawURLString \<Rightarrow>
               let rawURLString =
                     (if \<not> Contains rawURLString ''//''
                      then Protocol (fold (\<lambda>opt u. opt u) opts (Url empty_fields None)) @ ''://'' @ rawURLString
                      else rawURLString)
               in case Parse rawURLString of
                    Inl e \<Rightarrow> Inl e
                  | Inr serviceURL \<Rightarrow>
                      (case ParseQuery (p_RawQuery serviceURL) of
                         Inl e \<Rightarrow> Inl e
                       | Inr ps \<Rightarrow>
                           (case first_address (Split (p_Host serviceURL) '','') of
                              Inl e \<Rightarrow> Inl e
                            | Inr address \<Rightarrow>
                                let (ip, port) = (case address of None \<Rightarrow> ('''', '''') | Some a \<Rightarrow> a);
                                    user = (case p_User serviceURL of None \<Rightarrow> ('''', None) | Some u \<Rightarrow> u);
                                    s = Url \<lparr>u_Protocol = p_Scheme serviceURL, u_Location = p_Host serviceURL, u_Ip = ip,
                                          u_Port = port, u_PrimitiveURL = urlString, u_primitiveTS = Values_Get ps TimestampKey,
                                          u_params = ps, u_Path = p_Path serviceURL, u_Username = fst user,
                                          u_Password = (case snd user of None \<Rightarrow> '''' | Some p \<Rightarrow> p),
                                          u_Methods = [], u_attributes = []\<rparr> None;
                                    s = fold (\<lambda>opt u. opt u) opts s;
                                    group = Values_Get (params s) ''registry.group''
                                in Inr (if group \<noteq> ''''
                                        then upd (\<lambda>f. f\<lparr>u_PrimitiveURL := u_PrimitiveURL f @ ''/'' @ group\<rparr>) s else s))))"


section \<open>Reading back what was escaped\<close>

lemma pre_simps [simp]: "pre s (Inr t) = Inr (s @ t)" "pre s (Inl e) = Inl e" "pre [] r = r" "pre s (pre t r) = pre (s @ t) r"
  by (auto simp: pre_def split: sum.split)

lemma unhex_hex_upper: "d < 16 \<Longrightarrow> unhex (hex_upper d) = Some d"
  by (auto simp: unhex_def hex_upper_def Let_def)

lemma unreserved_plain: "unreserved c \<Longrightarrow> c \<noteq> CHR ''%'' \<and> c \<noteq> CHR ''+'' \<and> plain_ok mode c"
  by (auto simp: unreserved_def plain_ok_def host_char_def Let_def)

lemma unescape_escape_char: "QueryUnescape (escape_char c @ s) = pre [c] (QueryUnescape s)"
proof -
  have n: "(of_char c :: nat) < 256" by simp
  then have "(of_char c :: nat) div 16 < 16" by (simp add: less_mult_imp_div_less)
  then show ?thesis
    using unreserved_plain [of c encodeQueryComponent]
    by (auto simp: escape_char_def unhex_hex_upper escaped_ok_def)
qed

lemma unescape_escape: "QueryUnescape (QueryEscape s @ t) = pre s (QueryUnescape t)"
  by (induction s) (simp_all add: QueryEscape_def unescape_escape_char)

text \<open>Text that unescaping leaves alone.\<close>

definition verbatim_text :: "encoding \<Rightarrow> string \<Rightarrow> bool" where
  "verbatim_text mode s = list_all (\<lambda>c. c \<noteq> CHR ''%'' \<and> c \<noteq> CHR ''+'' \<and> plain_ok mode c) s"

lemma verbatim_text_simps [simp]:
  "verbatim_text mode []" "verbatim_text mode (c # s) \<longleftrightarrow> (c \<noteq> CHR ''%'' \<and> c \<noteq> CHR ''+'' \<and> plain_ok mode c) \<and> verbatim_text mode s"
  "verbatim_text mode (s @ t) \<longleftrightarrow> verbatim_text mode s \<and> verbatim_text mode t"
  by (simp_all add: verbatim_text_def)

lemma unescape_append: "verbatim_text mode s \<Longrightarrow> unescape mode (s @ t) = pre s (unescape mode t)"
  by (induction s) auto

lemma unescape_verbatim: "verbatim_text mode s \<Longrightarrow> unescape mode s = Inr s"
  using unescape_append [of mode s "[]"] by simp

lemma plain_ok_other [simp]: "mode \<noteq> encodeHost \<Longrightarrow> mode \<noteq> encodeZone \<Longrightarrow> plain_ok mode c"
  by (simp add: plain_ok_def)

lemma unreserved_verbatim: "list_all unreserved s \<Longrightarrow> verbatim_text mode s"
  using unreserved_plain by (auto simp: verbatim_text_def list_all_iff)

section \<open>Queries\<close>

text \<open>The pairs of a query in the order in which they are written.\<close>

definition query_pairs :: "url_values \<Rightarrow> (string \<times> string) list" where
  "query_pairs vs =
     concat (map (\<lambda>k. map (Pair k) (case map_of vs k of Some l \<Rightarrow> l | None \<Rightarrow> [])) (sort (map fst vs)))"

definition query_text :: "(string \<times> string) list \<Rightarrow> string" where
  "query_text ps = join_with ''&'' (map (\<lambda>(k, v). k @ ''='' @ v) ps)"

lemma join_with_simps [simp]:
  "join_with sep [] = []" "join_with sep [x] = x" "join_with sep (x # y # ys) = x @ sep @ join_with sep (y # ys)"
  by (simp_all add: join_with_def)

lemma Values_Encode_pairs:
  "Values_Encode vs = query_text (map (\<lambda>(k, v). (QueryEscape k, QueryEscape v)) (query_pairs vs))"
  by (simp add: Values_Encode_def query_text_def query_pairs_def map_concat comp_def)

lemma unescape_query:
  "QueryUnescape (query_text (map (\<lambda>(k, v). (QueryEscape k, QueryEscape v)) ps)) = Inr (query_text ps)"
proof (induction ps rule: induct_list012)
  case (2 p)
  have "QueryUnescape (QueryEscape v) = Inr v" for v using unescape_escape [of v "[]"] by simp
  then show ?case by (cases p) (simp add: query_text_def unescape_escape unescape_append [of _ "''=''"])
next
  case (3 p q ps)
  then show ?case
    by (cases p, cases q) (simp add: query_text_def unescape_escape unescape_append [of _ "''=''"] unescape_append [of _ "''&''"])
qed (simp add: query_text_def)

definition key_char :: "char \<Rightarrow> bool" where
  "key_char c \<longleftrightarrow> \<not> control_char c \<and> c \<notin> set ''%+&;#=''"

definition value_char :: "char \<Rightarrow> bool" where
  "value_char c \<longleftrightarrow> \<not> control_char c \<and> c \<notin> set ''%+&;#''"

definition plain_pair :: "string \<times> string \<Rightarrow> bool" where
  "plain_pair p \<longleftrightarrow> fst p \<noteq> '''' \<and> list_all key_char (fst p) \<and> list_all value_char (snd p)"


lemma Split_char_none: "c \<notin> set s \<Longrightarrow> Split s [c] = [s]"
  by (subst Split.simps) (simp add: Index_char_None[THEN iffD2])

lemma Split_char_append: "c \<notin> set s \<Longrightarrow> Split (s @ c # t) [c] = s # Split t [c]"
  by (subst Split.simps) (simp add: Index_char_append)

lemma Split_query:
  assumes "ps \<noteq> []" "list_all plain_pair ps"
  shows "Split (query_text ps) ''&'' = map (\<lambda>(k, v). k @ ''='' @ v) ps"
proof -
  have amp: "CHR ''&'' \<notin> set (k @ ''='' @ v)" if "plain_pair (k, v)" for k v
    using that by (auto simp: plain_pair_def key_char_def value_char_def list_all_iff)
  show ?thesis
    using assms
  proof (induction ps rule: induct_list012)
    case (2 p)
    then show ?case using amp by (cases p) (simp add: query_text_def Split_char_none)
  next
    case (3 p q ps)
    obtain k v where p: "p = (k, v)" by fastforce
    have "Split ((k @ ''='' @ v) @ CHR ''&'' # query_text (q # ps)) ''&'' = (k @ ''='' @ v) # Split (query_text (q # ps)) ''&''"
      using amp [of k v] 3(4) p by (intro Split_char_append) simp
    then show ?case using 3 p by (simp add: query_text_def)
  qed simp
qed

definition add_pairs :: "(string \<times> string) list \<Rightarrow> url_values \<Rightarrow> url_values" where
  "add_pairs ps m = fold (\<lambda>(k, v) m. Values_Add m k v) ps m"

lemma key_value_verbatim:
  "list_all key_char s \<Longrightarrow> verbatim_text encodeQueryComponent s"
  "list_all value_char s \<Longrightarrow> verbatim_text encodeQueryComponent s"
  by (auto simp: verbatim_text_def list_all_iff key_char_def value_char_def)

lemma parse_pair_plain:
  assumes "plain_pair (k, v)"
  shows "parse_pairs ((k @ ''='' @ v) # qs) None m = parse_pairs qs None (Values_Add m k v)"
proof -
  have plain: "k \<noteq> ''''" "list_all key_char k" "list_all value_char v" using assms by (simp_all add: plain_pair_def)
  have h: "CHR '';'' \<notin> set (k @ ''='' @ v)" "CHR ''='' \<notin> set k"
    using plain(2,3) by (auto simp: key_char_def value_char_def list_all_iff)
  have c: "\<not> Contains (k @ ''='' @ v) '';''" unfolding Contains_def Index_char_None [THEN iffD2, OF h(1)] by simp
  have c2: "Cut (k @ ''='' @ v) ''='' = (k, v, True)" using Cut_char_append [OF h(2), of v] by simp
  have u: "QueryUnescape k = Inr k" "QueryUnescape v = Inr v"
    by (rule unescape_verbatim, rule key_value_verbatim, fact plain)+
  have "(k @ ''='' @ v = '''') = False" by simp
  then show ?thesis
    by (simp only: parse_pairs.simps c c2 u Let_def prod.case sum.case if_False)
qed

lemma parse_pairs_plain:
  "list_all plain_pair ps \<Longrightarrow> parse_pairs (map (\<lambda>(k, v). k @ ''='' @ v) ps) None m = (None, add_pairs ps m)"
proof (induction ps arbitrary: m)
  case (Cons p ps)
  obtain k v where p: "p = (k, v)" by fastforce
  show ?case
    using Cons parse_pair_plain [of k v "map (\<lambda>(k, v). k @ ''='' @ v) ps" m]
    by (simp add: add_pairs_def p del: parse_pairs.simps)
qed (simp add: add_pairs_def)

lemma ParseQuery_text:
  assumes "list_all plain_pair ps"
  shows "ParseQuery (query_text ps) = Inr (add_pairs ps [])"
proof (cases "ps = []")
  case True
  then show ?thesis by (simp add: ParseQuery_def query_text_def Split_char_none add_pairs_def Contains_def)
next
  case False
  show ?thesis unfolding ParseQuery_def Split_query [OF False assms] parse_pairs_plain [OF assms] by simp
qed

lemma map_of_add_pairs:
  "map_of (add_pairs ps m) k =
     (case map snd (filter (\<lambda>p. fst p = k) ps) of
        [] \<Rightarrow> map_of m k
      | v # vs \<Rightarrow> Some ((case map_of m k of Some l \<Rightarrow> l | None \<Rightarrow> []) @ v # vs))"
proof (induction ps arbitrary: m)
  case (Cons p ps)
  then show ?case
    by (cases p) (auto simp: add_pairs_def Values_Add_def split: list.split option.split)
qed (simp add: add_pairs_def)

lemma filter_key_pairs:
  "distinct ks \<Longrightarrow> filter (\<lambda>p. fst p = k) (concat (map (\<lambda>j. map (Pair j) (f j)) ks)) = (if k \<in> set ks then map (Pair k) (f k) else [])"
  by (induction ks) (auto simp: filter_empty_conv filter_id_conv)

lemma query_pairs_back:
  assumes "values_ok vs"
  shows "map_of (add_pairs (query_pairs vs) []) k = map_of vs k"
proof -
  have "distinct (sort (map fst vs))" using assms by (simp add: values_ok.simps)
  note f = filter_key_pairs [OF this, of k "\<lambda>k. case map_of vs k of Some l \<Rightarrow> l | None \<Rightarrow> []"]
  show ?thesis
  proof (cases "map_of vs k")
    case None
    then show ?thesis by (simp add: map_of_add_pairs query_pairs_def f)
  next
    case (Some l)
    then have "(k, l) \<in> set vs" by (rule map_of_SomeD)
    then have "l \<noteq> []" "k \<in> fst ` set vs" using assms by (force simp: values_ok.simps)+
    then show ?thesis using Some by (cases l) (simp_all add: map_of_add_pairs query_pairs_def f comp_def)
  qed
qed


section \<open>The text of a URL\<close>

definition scheme_char :: "char \<Rightarrow> bool" where
  "scheme_char c \<longleftrightarrow> (let n = (of_char c :: nat) in 97 \<le> n \<and> n \<le> 122) \<or> is_digit c \<or> c \<in> set ''-.''"

text \<open>
  URLs whose text can be read back.  The characters of a parameter are not restricted to those a
  query may contain, since they are escaped, but the text is unescaped before it is taken apart:
  no parameter may have a separator of queries in it.
\<close>

definition plain_url :: "url \<Rightarrow> bool" where
  "plain_url u \<longleftrightarrow>
     Protocol u \<noteq> '''' \<and> is_letter (hd (Protocol u)) \<and> list_all scheme_char (Protocol u) \<and>
     list_all unreserved (Username u) \<and> list_all unreserved (Password u) \<and>
     list_all unreserved (Ip u) \<and> list_all is_digit (Port u) \<and>
     HasPrefix (Path u @ ''/'') ''/'' \<and> list_all (\<lambda>c. unreserved c \<or> c = CHR ''/'') (Path u) \<and>
     values_ok (params u) \<and> list_all plain_pair (query_pairs (params u))"

definition authority_text :: "url \<Rightarrow> string" where
  "authority_text u =
     (if Username u \<noteq> '''' \<or> Password u \<noteq> '''' then Username u @ '':'' @ Password u @ ''@'' else '''') @ Ip u @ '':'' @ Port u"

definition raw_text :: "url \<Rightarrow> string" where
  "raw_text u =
     Protocol u @ ''://'' @ authority_text u @ Path u @
     (if query_pairs (params u) \<noteq> [] then ''?'' @ query_text (query_pairs (params u)) else '''')"

lemma query_text_Nil [simp]: "query_text ps = [] \<longleftrightarrow> ps = []"
  by (cases ps; cases "tl ps") (auto simp: query_text_def)

lemma String_text:
  "String u = Protocol u @ ''://'' @ authority_text u @ Path u @
     (if query_pairs (params u) \<noteq> [] then ''?'' @ Values_Encode (params u) else '''')"
  by (simp add: String_def Let_def authority_text_def Values_Encode_pairs)

lemma digit_unreserved: "is_digit c \<Longrightarrow> unreserved c"
  by (auto simp: is_digit_def unreserved_def Let_def)

lemma scheme_unreserved: "scheme_char c \<Longrightarrow> unreserved c"
  by (auto simp: scheme_char_def unreserved_def Let_def is_digit_def)

text \<open>The characters of the text before the query.\<close>

definition head_char :: "char \<Rightarrow> bool" where
  "head_char c \<longleftrightarrow> unreserved c \<or> c \<in> set ''/:@''"

lemma authority_chars: "plain_url u \<Longrightarrow> list_all (\<lambda>c. unreserved c \<or> c \<in> set '':@'') (authority_text u)"
  by (auto simp: plain_url_def authority_text_def list_all_iff digit_unreserved)

lemma head_chars: "plain_url u \<Longrightarrow> list_all head_char (Protocol u @ ''://'' @ authority_text u @ Path u)"
  using authority_chars [of u] scheme_unreserved by (auto simp: plain_url_def head_char_def list_all_iff)

lemma head_verbatim: "list_all head_char s \<Longrightarrow> verbatim_text encodeQueryComponent s"
  using unreserved_plain [of _ encodeQueryComponent] by (auto simp: verbatim_text_def head_char_def list_all_iff)

lemma unescape_String:
  assumes "plain_url u"
  shows "QueryUnescape (String u) = Inr (raw_text u)"
proof -
  have v: "verbatim_text encodeQueryComponent (Protocol u @ ''://'' @ authority_text u @ Path u)"
    using head_verbatim head_chars [OF assms] by blast
  show ?thesis
  proof (cases "query_pairs (params u) = []")
    case True
    then show ?thesis using unescape_verbatim [OF v] by (simp add: String_text raw_text_def)
  next
    case False
    have "verbatim_text encodeQueryComponent ((Protocol u @ ''://'' @ authority_text u @ Path u) @ ''?'')" using v by simp
    from unescape_append [OF this, of "Values_Encode (params u)"] False show ?thesis
      by (simp add: String_text raw_text_def Values_Encode_pairs unescape_query)
  qed
qed


text \<open>The trimming of address lists does not touch the text.\<close>

definition printed_char :: "char \<Rightarrow> bool" where
  "printed_char c \<longleftrightarrow> unreserved c \<or> c \<in> set ''/:@?&=%+''"

lemma spaces_not_printed: "\<forall>p \<in> set utf8_spaces. \<not> printed_char (hd p) \<and> \<not> printed_char (last p)"
  by code_simp

lemma TrimSpace_printed:
  assumes "s \<noteq> []" "list_all printed_char s"
  shows "TrimSpace s = s"
proof -
  obtain c s' where c: "s = c # s'" using assms(1) by (cases s) auto
  obtain t t' where t: "rev s = t # t'" using assms(1) by (cases "rev s") auto
  have "t \<in> set s" using t by (metis list.set_intros(1) set_rev)
  then have pr: "printed_char c" "printed_char t" using assms(2) c by (auto simp: list_all_iff)
  have "trim_left utf8_spaces s = s" unfolding c
    by (rule trim_left_none) (use spaces_not_printed pr(1) in auto)
  moreover have "trim_left (map rev utf8_spaces) (rev s) = rev s" unfolding t
    by (rule trim_left_none) (use spaces_not_printed pr(2) in \<open>auto simp: hd_rev\<close>)
  ultimately show ?thesis by (simp add: TrimSpace_def)
qed

lemma hex_unreserved: "d < 16 \<Longrightarrow> unreserved (hex_upper d)"
  by (auto simp: hex_upper_def unreserved_def Let_def)

lemma escape_printed: "list_all printed_char (QueryEscape s)"
proof -
  have "list_all printed_char (escape_char c)" for c
  proof -
    have "(of_char c :: nat) < 256" by simp
    then have "(of_char c :: nat) div 16 < 16" by (simp add: less_mult_imp_div_less)
    then show ?thesis using hex_unreserved by (auto simp: escape_char_def printed_char_def)
  qed
  then show ?thesis by (induction s) (simp_all add: QueryEscape_def)
qed

lemma query_printed: "list_all printed_char (query_text (map (\<lambda>(k, v). (QueryEscape k, QueryEscape v)) ps))"
proof -
  have "printed_char (CHR ''='')" "printed_char (CHR ''&'')" by (simp_all add: printed_char_def)
  then show ?thesis
    by (induction ps rule: induct_list012) (auto simp: query_text_def escape_printed)
qed

lemma String_printed:
  assumes "plain_url u"
  shows "list_all printed_char (String u)"
proof -
  have "list_all printed_char (Protocol u @ ''://'' @ authority_text u @ Path u)"
    using head_chars [OF assms] by (auto simp: list_all_iff head_char_def printed_char_def)
  moreover have "printed_char (CHR ''?'')" by (simp add: printed_char_def)
  ultimately show ?thesis using query_printed by (simp add: String_text Values_Encode_pairs)
qed

lemma urlStringTrim_String:
  assumes "plain_url u"
  shows "urlStringTrim (String u) = String u"
proof -
  have "String u \<noteq> []" by (simp add: String_text)
  moreover have "CHR '','' \<notin> set (String u)"
    using String_printed [OF assms] by (auto simp: list_all_iff printed_char_def unreserved_def)
  ultimately show ?thesis using TrimSpace_printed [OF _ String_printed [OF assms]] by (simp add: urlStringTrim_def Split_char_none)
qed

section \<open>Taking the text apart\<close>

lemma getScheme_plain:
  "list_all scheme_char p \<Longrightarrow> seen \<noteq> [] \<or> p \<noteq> [] \<and> is_letter (hd p) \<Longrightarrow>
   getScheme raw seen (p @ CHR '':'' # s) = Inr (seen @ p, s)"
proof (induction p arbitrary: seen)
  case Nil
  then show ?case by (simp add: is_letter_def is_digit_def)
next
  case (Cons c p)
  have "is_letter c \<or> (is_digit c \<or> c \<in> set ''+-.'') \<and> seen \<noteq> []"
    using Cons.prems by (auto simp: scheme_char_def is_letter_def Let_def)
  then have "getScheme raw seen (c # t) = getScheme raw (seen @ [c]) t" for t
    by (elim disjE conjE) (simp_all only: getScheme.simps if_True if_False simp_thms if_cancel split: if_split)
  then show ?case using Cons.IH [of "seen @ [c]"] Cons.prems(1) by simp
qed

lemma to_lower_scheme: "list_all scheme_char p \<Longrightarrow> map to_lower p = p"
  by (induction p) (auto simp: scheme_char_def to_lower_def is_digit_def Let_def)

lemma parseHost_plain:
  assumes "list_all unreserved ip" "list_all is_digit port"
  shows "parseHost (ip @ '':'' @ port) = Inr (ip @ '':'' @ port)"
proof -
  have "CHR '':'' \<notin> set port" using assms(2) by (auto simp: list_all_iff is_digit_def)
  from LastIndex_char_append [OF this, of ip] have "LastIndex (ip @ '':'' @ port) '':'' = Some (length ip)" by simp
  moreover have "\<not> HasPrefix (ip @ '':'' @ port) ''[''"
    using assms(1) by (cases ip) (auto simp: unreserved_def)
  moreover have "verbatim_text encodeHost (ip @ '':'' @ port)"
    using unreserved_verbatim [OF assms(1), of encodeHost] assms(2) digit_unreserved unreserved_verbatim [of port encodeHost]
    by (auto simp: list_all_iff plain_ok_def host_char_def)
  ultimately show ?thesis
    using assms(2) unescape_verbatim [of encodeHost "ip @ '':'' @ port"] by (simp add: parseHost_def validOptionalPort_def)
qed

lemma parseAuthority_plain:
  assumes "plain_url u"
  shows "parseAuthority (authority_text u) =
    Inr (if Username u \<noteq> '''' \<or> Password u \<noteq> '''' then Some (Username u, Some (Password u)) else None, Ip u @ '':'' @ Port u)"
proof -
  have p: "list_all unreserved (Username u)" "list_all unreserved (Password u)" "list_all unreserved (Ip u)" "list_all is_digit (Port u)"
    using assms by (simp_all add: plain_url_def)
  have host: "parseHost (Ip u @ '':'' @ Port u) = Inr (Ip u @ '':'' @ Port u)" using parseHost_plain p by blast
  have at: "CHR ''@'' \<notin> set (Ip u @ '':'' @ Port u)"
    using p by (auto simp: list_all_iff unreserved_def is_digit_def)
  show ?thesis
  proof (cases "Username u \<noteq> '''' \<or> Password u \<noteq> ''''")
    case False
    then show ?thesis using at host LastIndex_char_None [of "Ip u @ '':'' @ Port u" "CHR ''@''"]
      by (simp add: parseAuthority_def authority_text_def)
  next
    case True
    let ?ui = "Username u @ '':'' @ Password u"
    have a: "authority_text u = ?ui @ CHR ''@'' # (Ip u @ '':'' @ Port u)" using True by (simp add: authority_text_def)
    have "validUserinfo ?ui" using p by (auto simp: validUserinfo_def list_all_iff unreserved_def is_letter_def is_digit_def Let_def)
    moreover have colon: "CHR '':'' \<notin> set (Username u)" using p(1) by (auto simp: list_all_iff unreserved_def)
    moreover have "Contains ?ui '':''" using Index_char_append [OF colon, of "Password u"] by (simp add: Contains_def)
    moreover have "Cut ?ui '':'' = (Username u, Password u, True)" using Cut_char_append [OF colon] by simp
    ultimately show ?thesis
      using LastIndex_char_append [OF at, of ?ui] host True unescape_verbatim [OF unreserved_verbatim, of "Username u"]
        unescape_verbatim [OF unreserved_verbatim, of "Password u"] p(1,2)
      unfolding parseAuthority_def a by (simp add: Let_def)
  qed
qed


lemma Index_authority:
  assumes "plain_url u"
  shows "(case Index (authority_text u @ Path u) ''/'' of
      Some i \<Rightarrow> (take i (authority_text u @ Path u), drop i (authority_text u @ Path u))
    | None \<Rightarrow> (authority_text u @ Path u, '''')) = (authority_text u, Path u)"
proof -
  have slash: "CHR ''/'' \<notin> set (authority_text u)"
    using authority_chars [OF assms] by (auto simp: list_all_iff unreserved_def)
  show ?thesis
  proof (cases "Path u")
    case Nil
    then show ?thesis using slash Index_char_None [of "authority_text u" "CHR ''/''"] by simp
  next
    case (Cons c p)
    then have "c = CHR ''/''" using assms by (simp add: plain_url_def)
    then show ?thesis using Cons Index_char_append [OF slash, of p] by simp
  qed
qed

definition parsed_parts :: "url \<Rightarrow> parsed_url" where
  "parsed_parts u =
     \<lparr>p_Scheme = Protocol u,
      p_User = (if Username u \<noteq> '''' \<or> Password u \<noteq> '''' then Some (Username u, Some (Password u)) else None),
      p_Host = Ip u @ '':'' @ Port u, p_Path = Path u, p_RawQuery = query_text (query_pairs (params u))\<rparr>"

lemma parse_hier_plain:
  assumes "plain_url u"
  shows "parse_hier (no_parts\<lparr>p_Scheme := Protocol u, p_RawQuery := query_text (query_pairs (params u))\<rparr>)
    (''//'' @ authority_text u @ Path u) = Inr (parsed_parts u)"
proof -
  have "list_all (\<lambda>c. unreserved c \<or> c = CHR ''/'') (Path u)" using assms by (simp add: plain_url_def)
  then have "verbatim_text encodePath (Path u)" by (auto simp: verbatim_text_def list_all_iff unreserved_def)
  then have path: "unescape encodePath (Path u) = Inr (Path u)" by (rule unescape_verbatim)
  have "HasPrefix (''//'' @ authority_text u @ Path u) ''//''" by simp
  moreover have "drop 2 (''//'' @ authority_text u @ Path u) = authority_text u @ Path u" by simp
  moreover have "Protocol u \<noteq> ''''" using assms by (simp add: plain_url_def)
  ultimately show ?thesis
    unfolding parse_hier_def Let_def
    by (simp only: Index_authority [OF assms] prod.case parseAuthority_plain [OF assms] sum.case path)
       (simp add: no_parts_def parsed_parts_def)
qed

lemma HasSuffix_last: "HasSuffix s [c] \<longleftrightarrow> s \<noteq> [] \<and> last s = c"
  by (cases s rule: rev_cases) (auto simp: go_defs)

text \<open>The query is what follows the first question mark.\<close>

lemma query_split:
  assumes "CHR ''?'' \<notin> set b"
  shows "(if HasSuffix (b @ (if ps \<noteq> [] then ''?'' @ query_text ps else '''')) ''?'' \<and>
       count_list (b @ (if ps \<noteq> [] then ''?'' @ query_text ps else '''')) (CHR ''?'') = 1
     then (butlast (b @ (if ps \<noteq> [] then ''?'' @ query_text ps else '''')), '''')
     else let (rest, query, _) = Cut (b @ (if ps \<noteq> [] then ''?'' @ query_text ps else '''')) ''?'' in (rest, query)) =
    (b, query_text ps)"
proof (cases "ps = []")
  case True
  then show ?thesis using assms by (auto simp: HasSuffix_last Cut_char_notin query_text_def)
next
  case False
  let ?d = "query_text ps"
  have "last (b @ ''?'' @ ?d) = CHR ''?'' \<Longrightarrow> CHR ''?'' \<in> set ?d" using False last_in_set [of ?d] by simp
  then have "\<not> (HasSuffix (b @ ''?'' @ ?d) ''?'' \<and> count_list (b @ ''?'' @ ?d) (CHR ''?'') = 1)"
    by (auto simp: HasSuffix_last count_list_0_iff)
  moreover have "Cut (b @ ''?'' @ ?d) ''?'' = (b, ?d, True)" using Cut_char_append [OF assms] by simp
  ultimately show ?thesis unfolding if_P [OF False] by (simp only: if_False Let_def prod.case)
qed

lemma raw_chars:
  assumes "plain_url u" "c \<in> set (raw_text u)"
  shows "\<not> control_char c \<and> c \<noteq> CHR ''#''"
proof -
  have "\<not> control_char c \<and> c \<noteq> CHR ''#''" if "head_char c \<or> value_char c \<or> key_char c \<or> c \<in> set ''?&=''" for c
    using that by (auto simp: head_char_def value_char_def key_char_def unreserved_def control_char_def Let_def)
  moreover have "head_char c \<or> value_char c \<or> key_char c \<or> c \<in> set ''?&=''"
  proof -
    have "list_all plain_pair ps \<Longrightarrow> c \<in> set (query_text ps) \<Longrightarrow> value_char c \<or> key_char c \<or> c \<in> set ''?&=''" for ps
      by (induction ps rule: induct_list012) (auto simp: query_text_def plain_pair_def list_all_iff)
    then show ?thesis
      using assms head_chars [OF assms(1)] by (auto simp: raw_text_def plain_url_def list_all_iff split: if_split_asm)
  qed
  ultimately show ?thesis by blast
qed

lemma Parse_plain:
  assumes "plain_url u"
  shows "Parse (raw_text u) = Inr (parsed_parts u)"
proof -
  let ?q = "if query_pairs (params u) \<noteq> [] then ''?'' @ query_text (query_pairs (params u)) else ''''"
  have raw: "raw_text u = Protocol u @ CHR '':'' # (''//'' @ authority_text u @ Path u) @ ?q" by (simp add: raw_text_def)
  have p: "Protocol u \<noteq> ''''" "is_letter (hd (Protocol u))" "list_all scheme_char (Protocol u)"
    using assms by (simp_all add: plain_url_def)
  have "CHR ''#'' \<notin> set (raw_text u)" "\<not> list_ex control_char (raw_text u)" using raw_chars [OF assms] by (auto simp: list_ex_iff)
  moreover have "raw_text u \<noteq> ''*''" by (auto simp: raw dest: arg_cong [of _ _ length])
  moreover have "getScheme (raw_text u) '''' (raw_text u) = Inr (Protocol u, (''//'' @ authority_text u @ Path u) @ ?q)"
    using getScheme_plain [of "Protocol u" "[]"] p unfolding raw by simp
  moreover have "\<not> head_char (CHR ''?'')" by (simp add: head_char_def unreserved_def)
  then have "CHR ''?'' \<notin> set (''//'' @ authority_text u @ Path u)"
    using head_chars [OF assms] by (auto simp: list_all_iff)
  note query_split [OF this, of "query_pairs (params u)"]
  moreover have "HasPrefix (''//'' @ authority_text u @ Path u) ''/''" by simp
  ultimately have "parse_url (raw_text u) = Inr (parsed_parts u)"
    unfolding parse_url_def by (simp only: if_False sum.case prod.case Let_def to_lower_scheme [OF p(3)] parse_hier_plain [OF assms] not_True_eq_False if_True)
  then show ?thesis using \<open>CHR ''#'' \<notin> _\<close> by (simp add: Parse_def Cut_char_notin)
qed


lemma Index_none_prefix: "Index s p = None \<Longrightarrow> \<not> HasPrefix (drop n s) p"
proof (induction s arbitrary: n)
  case (Cons c s)
  then show ?case by (cases n) (auto split: if_split_asm)
qed (cases p; simp)

lemma Contains_char: "Contains s [c] \<longleftrightarrow> c \<in> set s"
  by (simp add: go_defs Index_char_None)

lemma Trim_none: "c \<notin> set s \<Longrightarrow> Trim s c = s"
proof -
  have "c \<notin> set t \<Longrightarrow> dropWhile (\<lambda>x. x = c) t = t" for t by (cases t) auto
  then show "c \<notin> set s \<Longrightarrow> Trim s c = s" by (simp add: go_defs)
qed

lemma first_address_plain:
  assumes "plain_url u"
  shows "first_address (Split (Ip u @ '':'' @ Port u) '','') = Inr (Some (Ip u, Port u))"
proof -
  let ?h = "Ip u @ '':'' @ Port u"
  have p: "list_all unreserved (Ip u)" "list_all is_digit (Port u)" using assms by (simp_all add: plain_url_def)
  then have chars: "CHR '','' \<notin> set ?h" "CHR '' '' \<notin> set ?h" "CHR ''['' \<notin> set ?h" "CHR '']'' \<notin> set ?h"
    "CHR '':'' \<notin> set (Ip u)" "CHR '':'' \<notin> set (Port u)"
    by (auto simp: list_all_iff unreserved_def is_digit_def)
  have t: "Trim ?h (CHR '' '') = ?h" using chars(2) by (rule Trim_none)
  have li: "LastIndex ?h '':'' = Some (length (Ip u))" using LastIndex_char_append [OF chars(6), of "Ip u"] by simp
  have "\<not> HasPrefix ?h ''[''" using chars(3) by (cases "Ip u") auto
  moreover have "\<not> Contains (take (length (Ip u)) ?h) '':''" "\<not> (Contains ?h ''['' \<or> Contains ?h '']'')"
    using chars(3-5) unfolding Contains_char by simp_all
  ultimately have "SplitHostPort ?h = Inr (Ip u, Port u)"
    unfolding SplitHostPort_def li option.case by (simp only: if_False) simp
  moreover have "Contains ?h '':''" unfolding Contains_char by simp
  ultimately show ?thesis
    unfolding Split_char_none [OF chars(1)] first_address.simps Let_def t by (simp only: if_True sum.case)
qed

text \<open>C8: the text of a URL is read back as a URL with the same protocol, user, address, path and
  parameters.  The protocol is a scheme name, user, address and path consist of unreserved characters,
  and the values of the parameters may have all characters except control characters, percent, plus,
  ampersand, semicolon and number sign; their keys may not have an equals sign either.\<close>

theorem NewURL_String:
  assumes "plain_url u"
  shows "\<exists>v. NewURL (String u) [] = Inr v \<and> Protocol v = Protocol u \<and> Username v = Username u \<and> Password v = Password u \<and>
    Ip v = Ip u \<and> Port v = Port u \<and> Location v = Ip u @ '':'' @ Port u \<and> Path v = Path u \<and> PrimitiveURL v = String u @
      (if Values_Get (params u) ''registry.group'' \<noteq> '''' then ''/'' @ Values_Get (params u) ''registry.group'' else '''') \<and>
    (\<forall>k. map_of (params v) k = map_of (params u) k)"
proof -
  let ?ps = "add_pairs (query_pairs (params u)) []"
  have same: "map_of ?ps = map_of (params u)" using query_pairs_back [of "params u"] assms by (auto simp: plain_url_def)
  have "Contains (raw_text u) ''//''"
  proof -
    have "HasPrefix (drop (length (Protocol u) + 1) (raw_text u)) ''//''" by (simp add: raw_text_def)
    then show ?thesis unfolding go_defs using Index_none_prefix by blast
  qed
  moreover have "ParseQuery (query_text (query_pairs (params u))) = Inr ?ps"
    using assms by (intro ParseQuery_text) (simp add: plain_url_def)
  moreover have "String u \<noteq> ''''" by (simp add: String_text)
  ultimately show ?thesis
    using same
    by (simp add: NewURL_def urlStringTrim_String [OF assms] unescape_String [OF assms] Parse_plain [OF assms]
        first_address_plain [OF assms, simplified] parsed_parts_def Let_def Values_Get_def)
qed

theorem NewURL_String_witness:
  "let u = SetParam sample_provider ''note'' ''a=b c,d''
   in \<exists>v. NewURL (String u) [] = Inr v \<and> map_of (params v) ''note'' = Some [''a=b c,d''] \<and> Ip v = ''10.0.0.2'' \<and>
     Location v = ''10.0.0.2:20000''"
proof -
  let ?u = "SetParam sample_provider ''note'' ''a=b c,d''"
  have "plain_url ?u" by code_simp
  moreover have "map_of (params ?u) ''note'' = Some [''a=b c,d'']" "Ip ?u = ''10.0.0.2''" "Port ?u = ''20000''" by code_simp+
  ultimately show ?thesis unfolding Let_def using NewURL_String [of ?u] by (metis append.simps)
qed

text \<open>A value with an ampersand in it comes back as two parameters.\<close>

lemma NewURL_splits_values:
  "let u = SetParam sample_provider ''note'' ''a&weight=9''
   in map_of (params u) ''weight'' = None \<and>
      (case NewURL (String u) [] of Inr v \<Rightarrow> map_of (params v) ''weight'' = Some [''9''] | Inl _ \<Rightarrow> False)"
  by code_simp

text \<open>What is read is a well-formed URL.\<close>

lemma parse_pairs_ok: "values_ok m \<Longrightarrow> parse_pairs ps err m = (e, m') \<Longrightarrow> values_ok m'"
proof (induction ps arbitrary: err m)
  case (Cons p ps)
  have "values_ok (Values_Add m k v)" for k v
    using Cons.prems(1) by (simp add: Values_Add_def)
  then show ?case
    using Cons by (auto simp: Let_def split: if_split_asm prod.split_asm sum.split_asm)
qed simp

lemma NewURL_ok:
  assumes "NewURL s [] = Inr u"
  shows "url_ok u"
proof (cases "s = ''''")
  case False
  have "url_ok v" if "values_ok (u_params f)" "u_attributes f = []" "v = Url f None" for v f using that by simp
  then show ?thesis
    using assms False parse_pairs_ok [of "[]" _ None]
    by (auto simp: NewURL_def ParseQuery_def Let_def values_ok.simps upd_def split: if_split_asm sum.split_asm prod.split_asm option.split_asm)
qed (use assms in \<open>auto simp: NewURL_def empty_fields_def values_ok.simps\<close>)

end
