(* ===== verification/Go_Float.thy ===== *)
theory Go_Float
  imports Go_Prelude "HOL-Library.Log_Nat"
begin

text \<open>
  Go's \<^verbatim>\<open>float64\<close> arithmetic on the finite values the code computes with: a float is the
  rational number it denotes, and every operation is the exact operation followed by
  \<open>fl64\<close>, the rounding to a 53-bit significand, to nearest with ties to even (IEEE 754).
  Overflow to infinity and subnormal numbers are out of reach of the modelled
  expressions: their operands are 64-bit integers and quotients of them.
\<close>

definition fl_exp :: "rat \<Rightarrow> int" where
  "fl_exp x =
     (let (p, q) = quotient_of x; k = bitlen p - bitlen q
      in if 2 powi k \<le> x then k else k - 1)"

definition round_even :: "rat \<Rightarrow> int" where
  "round_even m =
     (let f = \<lfloor>m\<rfloor>; d = m - of_int f
      in if d < 1 / 2 then f else if 1 / 2 < d then f + 1 else if even f then f else f + 1)"

definition fl_round :: "int \<Rightarrow> rat \<Rightarrow> rat" where
  "fl_round p x =
     (if x = 0 then 0
      else let u = 2 powi (fl_exp \<bar>x\<bar> - p) in sgn x * (of_int (round_even (\<bar>x\<bar> / u)) * u))"

definition fl64 :: "rat \<Rightarrow> rat" where
  "fl64 = fl_round 52"

text \<open>\<^verbatim>\<open>float32\<close> has a 24-bit significand.\<close>

definition fl32 :: "rat \<Rightarrow> rat" where
  "fl32 = fl_round 23"

text \<open>
  \<^verbatim>\<open>float64(n)\<close>, the arithmetic operations, and \<^verbatim>\<open>int64(x)\<close>, which truncates towards zero.  Out
  of range the language leaves the conversion to the implementation; the value here is the one
  of the amd64 instruction.
\<close>

definition float_of_int :: "int \<Rightarrow> rat" where
  "float_of_int n = fl64 (of_int n)"

definition fmul :: "rat \<Rightarrow> rat \<Rightarrow> rat" where
  "fmul a b = fl64 (a * b)"

definition fdiv :: "rat \<Rightarrow> rat \<Rightarrow> rat" where
  "fdiv a b = fl64 (a / b)"

definition fsub :: "rat \<Rightarrow> rat \<Rightarrow> rat" where
  "fsub a b = fl64 (a - b)"

definition int_of_float :: "rat \<Rightarrow> int" where
  "int_of_float x =
     (let t = (if 0 \<le> x then \<lfloor>x\<rfloor> else - \<lfloor>- x\<rfloor>) in if in_int64 t then t else MinInt64)"

lemma round_even_error: "\<bar>of_int (round_even m) - m\<bar> \<le> 1 / 2"
proof -
  have "0 \<le> m - of_int \<lfloor>m\<rfloor>" "m - of_int \<lfloor>m\<rfloor> < 1" by linarith+
  then show ?thesis by (auto simp: round_even_def Let_def)
qed

lemma round_even_floor: "\<lfloor>m\<rfloor> \<le> round_even m"
  by (auto simp: round_even_def Let_def)

lemma round_even_of_int [simp]: "round_even (of_int n) = n"
  by (simp add: round_even_def Let_def)

lemma fl_exp_lower:
  assumes "0 < x"
  shows "2 powi (fl_exp x) \<le> x"
proof -
  obtain p q where pq: "quotient_of x = (p, q)" by (cases "quotient_of x")
  have q: "0 < q" using quotient_of_denom_pos[OF pq] .
  have x: "x = of_int p / of_int q" using quotient_of_div[OF pq] .
  have p: "0 < p" using assms q x by (simp add: zero_less_divide_iff)
  have lo: "(2::rat) ^ nat (bitlen p - 1) \<le> of_int p"
    using bitlen_bounds[OF p] by (metis of_int_le_iff of_int_numeral of_int_power)
  have hi: "of_int q < (2::rat) ^ nat (bitlen q)"
    using bitlen_bounds[OF q] by (metis of_int_less_iff of_int_numeral of_int_power)
  have bp: "1 \<le> bitlen p" using p bitlen_nonneg[of p] by (metis bitlen_eq_zero_iff le_less int_one_le_iff_zero_less not_le)
  have bq: "0 \<le> bitlen q" by (rule bitlen_nonneg)
  have "2 powi (bitlen p - bitlen q - 1) = (2::rat) powi (bitlen p - 1) / 2 powi (bitlen q)"
    by (simp add: power_int_diff[symmetric] algebra_simps)
  also have "\<dots> = 2 ^ nat (bitlen p - 1) / 2 ^ nat (bitlen q)"
    using bp bq by (simp add: power_int_nonneg_exp)
  also have "\<dots> \<le> of_int p / of_int q"
    using lo hi q p by (intro frac_le) auto
  finally have "2 powi (bitlen p - bitlen q - 1) \<le> x" by (simp add: x)
  then show ?thesis by (simp add: fl_exp_def pq Let_def)
qed

lemma fl_exp_upper:
  assumes "0 < x"
  shows "x < 2 powi (fl_exp x + 1)"
proof -
  obtain p q where pq: "quotient_of x = (p, q)" by (cases "quotient_of x")
  have q: "0 < q" using quotient_of_denom_pos[OF pq] .
  have x: "x = of_int p / of_int q" using quotient_of_div[OF pq] .
  have p: "0 < p" using assms q x by (simp add: zero_less_divide_iff)
  have hi: "of_int p < (2::rat) ^ nat (bitlen p)"
    using bitlen_bounds[OF p] by (metis of_int_less_iff of_int_numeral of_int_power)
  have lo: "(2::rat) ^ nat (bitlen q - 1) \<le> of_int q"
    using bitlen_bounds[OF q] by (metis of_int_le_iff of_int_numeral of_int_power)
  have bq: "1 \<le> bitlen q" using q bitlen_nonneg[of q] by (metis bitlen_eq_zero_iff le_less int_one_le_iff_zero_less not_le)
  have bp: "0 \<le> bitlen p" by (rule bitlen_nonneg)
  have "x < 2 ^ nat (bitlen p) / 2 ^ nat (bitlen q - 1)"
    unfolding x using hi lo q p by (intro frac_less) auto
  also have "\<dots> = 2 powi (bitlen p) / 2 powi (bitlen q - 1)"
    using bp bq by (simp add: power_int_nonneg_exp)
  also have "\<dots> = 2 powi (bitlen p - bitlen q + 1)"
    by (simp add: power_int_diff[symmetric] algebra_simps)
  finally show ?thesis by (auto simp: fl_exp_def pq Let_def)
qed

lemma fl64_pos: "0 < x \<Longrightarrow> fl64 x = of_int (round_even (x / 2 powi (fl_exp x - 52))) * 2 powi (fl_exp x - 52)"
  by (simp add: fl64_def fl_round_def Let_def)

lemma fl64_nonneg: "0 \<le> x \<Longrightarrow> 0 \<le> fl64 x"
proof (cases "x = 0")
  case False
  assume "0 \<le> x"
  with False have "0 < x" by simp
  have "0 \<le> x / 2 powi (fl_exp x - 52)" using \<open>0 < x\<close> by simp
  then have "0 \<le> round_even (x / 2 powi (fl_exp x - 52))"
    by (meson order_trans round_even_floor zero_le_floor)
  with \<open>0 < x\<close> show ?thesis by (simp add: fl64_pos)
qed (simp add: fl64_def fl_round_def)

lemma fl64_error:
  assumes "0 < x"
  shows "fl64 x \<le> x + 2 powi (fl_exp x - 52) / 2"
proof -
  define u :: rat where "u = 2 powi (fl_exp x - 52)"
  have u: "0 < u" by (simp add: u_def)
  have "of_int (round_even (x / u)) \<le> x / u + 1 / 2"
    using round_even_error[of "x / u"] by linarith
  then have "of_int (round_even (x / u)) * u \<le> (x / u + 1 / 2) * u"
    using u by (intro mult_right_mono) auto
  also have "\<dots> = x + u / 2" using u by (simp add: distrib_right)
  finally show ?thesis using fl64_pos[OF assms] by (simp add: u_def)
qed

text \<open>
  The rounding unit of a number below \<open>2 ^ 53\<close> is a negative power of two, so integers are
  multiples of it.
\<close>

lemma powi_exp_less:
  assumes "0 < x" "x < 2 ^ 53"
  shows "fl_exp x \<le> 52"
proof (rule ccontr)
  assume "\<not> fl_exp x \<le> 52"
  then have "(2::rat) powi 53 \<le> 2 powi (fl_exp x)" by (intro power_int_increasing) auto
  with fl_exp_lower[OF assms(1)] assms(2) show False by simp
qed

lemma fl64_le_1:
  assumes "0 \<le> x" "x < 1"
  shows "fl64 x \<le> 1"
proof (cases "x = 0")
  case False
  with assms(1) have x: "0 < x" by simp
  let ?e = "fl_exp x" and ?u = "(2::rat) powi (fl_exp x - 52)"
  have "(2::rat) powi ?e < 2 powi 0" using fl_exp_lower[OF x] assms(2) by simp
  then have e: "?e + 1 \<le> 0" by (metis add1_zle_eq linorder_not_less one_le_numeral power_int_increasing)
  have u: "0 < ?u" by simp
  have top: "2 ^ 53 * ?u = (2::rat) powi (?e + 1)"
    using power_int_add[of "2::rat" 53 "?e - 52"] by (simp add: algebra_simps)
  have "x < 2 ^ 53 * ?u" using fl_exp_upper[OF x] unfolding top .
  then have "x / ?u < 2 ^ 53" unfolding pos_divide_less_eq[OF u] .
  then have "x / ?u + 1 / 2 < 2 ^ 53 + 1" by simp
  moreover have "of_int (round_even (x / ?u)) \<le> x / ?u + 1 / 2"
    using round_even_error[of "x / ?u"] by linarith
  ultimately have "of_int (round_even (x / ?u)) < (of_int (2 ^ 53 + 1) :: rat)" by simp
  then have "round_even (x / ?u) \<le> 2 ^ 53" by (simp only: of_int_less_iff)
  then have "of_int (round_even (x / ?u)) \<le> (2 ^ 53 :: rat)" by (metis of_int_le_iff of_int_numeral of_int_power)
  then have "fl64 x \<le> 2 ^ 53 * ?u" unfolding fl64_pos[OF x] using u by (intro mult_right_mono) auto
  also have "\<dots> \<le> 1" unfolding top using power_int_increasing[OF e, of "2::rat"] by simp
  finally show ?thesis .
qed (simp add: fl64_def fl_round_def)

lemma of_int_multiple_unit:
  assumes "e \<le> 52"
  shows "\<exists>k. (of_int n :: rat) = of_int k * 2 powi (e - 52)"
proof -
  have "(2::rat) powi (e - 52) = 1 / 2 ^ nat (52 - e)"
    using power_int_minus_divide[of "2::rat" "52 - e"] assms by (simp add: power_int_nonneg_exp)
  then have "(of_int n :: rat) = of_int (n * 2 ^ nat (52 - e)) * 2 powi (e - 52)"
    by simp
  then show ?thesis by blast
qed

lemma fl64_of_int:
  assumes "0 \<le> n" "n < 2 ^ 53"
  shows "fl64 (of_int n) = of_int n"
proof (cases "n = 0")
  case False
  let ?x = "of_int n :: rat"
  have x: "0 < ?x" "?x < 2 ^ 53"
    using assms False by (simp, metis of_int_less_iff of_int_numeral of_int_power)
  obtain k where k: "?x = of_int k * 2 powi (fl_exp ?x - 52)"
    using of_int_multiple_unit[OF powi_exp_less[OF x]] by blast
  then have "?x / 2 powi (fl_exp ?x - 52) = of_int k" by (subst nonzero_divide_eq_eq) auto
  then show ?thesis using fl64_pos[OF x(1)] k by simp
qed (simp add: fl64_def fl_round_def)

text \<open>
  Dividing two integers in floating point and truncating is integer division as long as the
  dividend is below \<open>2 ^ 53\<close>.
\<close>

lemma floor_fl64_div:
  assumes p: "0 < p" "p < 2 ^ 53" and q: "0 < q"
  shows "\<lfloor>fl64 (of_int p / of_int q)\<rfloor> = p div q"
proof -
  let ?x = "of_int p / of_int q :: rat" and ?n = "p div q"
  let ?u = "(2::rat) powi (fl_exp ?x - 52)"
  have x: "0 < ?x" using p q by simp
  have "?x \<le> of_int p" using p q by (simp add: divide_le_eq mult_le_cancel_left1)
  also have "\<dots> < 2 ^ 53" using p(2) by (metis of_int_less_iff of_int_numeral of_int_power)
  finally have x53: "?x < 2 ^ 53" .
  have u: "0 < ?u" by simp
  have fl: "fl64 ?x = of_int (round_even (?x / ?u)) * ?u" using fl64_pos[OF x] .
  have n: "of_int ?n \<le> ?x" "?x \<le> of_int (?n + 1) - 1 / of_int q"
  proof -
    have "p = ?n * q + p mod q" "0 \<le> p mod q" "p mod q \<le> q - 1" using q by simp_all
    then have "(of_int p :: rat) = of_int ?n * of_int q + of_int (p mod q)"
      "(0::rat) \<le> of_int (p mod q)" "(of_int (p mod q) :: rat) \<le> of_int q - 1"
      by (metis of_int_add of_int_mult, simp, metis of_int_1 of_int_diff of_int_le_iff)
    moreover have "(of_int (?n + 1) - 1 / of_int q) * of_int q = (of_int ?n * of_int q + (of_int q - 1) :: rat)"
      using q by (simp add: field_simps)
    ultimately show "of_int ?n \<le> ?x" "?x \<le> of_int (?n + 1) - 1 / of_int q"
      using q by (simp add: le_divide_eq, simp only: divide_le_eq of_int_0_less_iff if_True)
  qed
  have lower: "of_int ?n \<le> fl64 ?x"
  proof -
    obtain k where k: "(of_int ?n :: rat) = of_int k * ?u"
      using of_int_multiple_unit[OF powi_exp_less[OF x x53]] by blast
    then have "of_int k \<le> ?x / ?u" using n(1) u by (simp only: pos_le_divide_eq)
    then have "k \<le> round_even (?x / ?u)" using round_even_floor order_trans le_floor_iff by metis
    then show ?thesis using k u fl by simp
  qed
  have upper: "fl64 ?x < of_int (?n + 1)"
  proof -
    have err: "fl64 ?x \<le> ?x + ?u / 2" using fl64_error[OF x] .
    have "2 powi (fl_exp ?x) \<le> ?x" using fl_exp_lower[OF x] .
    then have "of_int q * 2 powi (fl_exp ?x) \<le> (of_int p :: rat)" using q by (simp add: field_simps)
    also have "\<dots> < 2 ^ 53" using p(2) by (metis of_int_less_iff of_int_numeral of_int_power)
    finally have "of_int q * (?u / 2) < 1"
      by (simp add: power_int_diff field_simps)
    then have "?u / 2 < 1 / of_int q" using q by (simp add: field_simps)
    with err n(2) show ?thesis by linarith
  qed
  from lower upper show ?thesis by (intro floor_unique) auto
qed

section \<open>Single precision\<close>

lemma fl32_pos: "0 < x \<Longrightarrow> fl32 x = of_int (round_even (x / 2 powi (fl_exp x - 23))) * 2 powi (fl_exp x - 23)"
  by (simp add: fl32_def fl_round_def Let_def)

lemma fl32_error:
  assumes "0 < x"
  shows "\<bar>fl32 x - x\<bar> \<le> 2 powi (fl_exp x - 23) / 2"
proof -
  define u :: rat where "u = 2 powi (fl_exp x - 23)"
  have u: "0 < u" by (simp add: u_def)
  have "fl32 x - x = (of_int (round_even (x / u)) - x / u) * u"
    using u fl32_pos [OF assms] by (simp add: u_def left_diff_distrib)
  also have "\<bar>\<dots>\<bar> = \<bar>of_int (round_even (x / u)) - x / u\<bar> * u" using u by (simp add: abs_mult)
  also have "\<dots> \<le> 1 / 2 * u" using round_even_error [of "x / u"] u by (intro mult_right_mono) auto
  finally show ?thesis by (simp add: u_def)
qed

lemma fl32_of_int:
  assumes "0 \<le> n" "n < 2 ^ 24"
  shows "fl32 (of_int n) = of_int n"
proof (cases "n = 0")
  case False
  let ?x = "of_int n :: rat" and ?u = "2 powi (fl_exp (of_int n) - 23) :: rat"
  have x: "0 < ?x" "?x < 2 ^ 24"
    using assms False by (simp, metis of_int_less_iff of_int_numeral of_int_power)
  have "\<not> 23 < fl_exp ?x"
  proof
    assume "23 < fl_exp ?x"
    then have "(2::rat) powi 24 \<le> 2 powi (fl_exp ?x)" by (intro power_int_increasing) auto
    with fl_exp_lower [OF x(1)] x(2) show False by simp
  qed
  then have "?u = 1 / 2 ^ nat (23 - fl_exp ?x)"
    using power_int_minus_divide [of "2::rat" "23 - fl_exp ?x"] by (simp add: power_int_nonneg_exp)
  then have "?x / ?u = of_int (n * 2 ^ nat (23 - fl_exp ?x))" by simp
  then have "round_even (?x / ?u) = n * 2 ^ nat (23 - fl_exp ?x)" by (simp only: round_even_of_int)
  with fl32_pos [OF x(1)] \<open>?u = 1 / 2 ^ nat (23 - fl_exp ?x)\<close> show ?thesis by simp
qed (simp add: fl32_def fl_round_def)

text \<open>Rounding a number between 0 and 1 moves it by at most \<open>2 ^ -25\<close>.\<close>

lemma fl32_unit_error:
  assumes "0 \<le> x" "x \<le> 1"
  shows "\<bar>fl32 x - x\<bar> \<le> 1 / 2 ^ 25"
proof -
  consider "x = 0" | "x = 1" | "0 < x" "x < 1" using assms by linarith
  then show ?thesis
  proof cases
    case 3
    have "(2::rat) powi (fl_exp x) < 2 powi 0" using fl_exp_lower [OF 3(1)] 3(2) by simp
    then have "fl_exp x + 1 \<le> 0" by (metis add1_zle_eq linorder_not_less one_le_numeral power_int_increasing)
    then have "fl_exp x - 23 \<le> - 24" by simp
    then have "(2::rat) powi (fl_exp x - 23) \<le> 2 powi (- 24)" by (intro power_int_increasing) auto
    also have "\<dots> = 1 / 2 ^ 24" by (simp add: power_int_minus_divide)
    finally show ?thesis using fl32_error [OF 3(1)] by simp
  next
    case 2
    then show ?thesis using fl32_of_int [of 1] by simp
  qed (simp add: fl32_def fl_round_def)
qed

text \<open>
  Comparing two fractions of at most 1 in single precision is exact as long as the product of
  their denominators is below \<open>2 ^ 24\<close>: different fractions are further apart than the rounding.
\<close>

lemma fl32_fractions:
  fixes k n r m :: int
  assumes "0 \<le> k" "k \<le> n" "0 < n" "0 \<le> r" "r \<le> m" "0 < m" "n * m < 2 ^ 24"
  shows "fl32 (of_int r / of_int m) \<le> fl32 (of_int k / of_int n) \<longleftrightarrow> r * n \<le> k * m"
proof -
  let ?x = "of_int k / of_int n :: rat" and ?y = "of_int r / of_int m :: rat"
  have errs: "\<bar>fl32 ?x - ?x\<bar> \<le> 1 / 2 ^ 25" "\<bar>fl32 ?y - ?y\<bar> \<le> 1 / 2 ^ 25"
    using assms by (intro fl32_unit_error; simp)+
  have diff: "?x - ?y = of_int (k * m - r * n) / of_int (n * m)" using assms by (simp add: field_simps)
  have gap: "(1::rat) / 2 ^ 24 < 1 / of_int (n * m)"
  proof -
    have "(of_int (n * m) :: rat) < 2 ^ 24" using assms(7) by (metis of_int_less_iff of_int_numeral of_int_power)
    moreover have "(0::rat) < of_int (n * m)" using assms(3,6) by simp
    ultimately show ?thesis by (intro divide_strict_left_mono) auto
  qed
  have half: "(1::rat) / 2 ^ 25 + 1 / 2 ^ 25 = 1 / 2 ^ 24" by simp
  consider "k * m = r * n" | "r * n + 1 \<le> k * m" | "k * m + 1 \<le> r * n" by linarith
  then show ?thesis
  proof cases
    case 1
    then have "?x = ?y" using assms by (simp add: field_simps flip: of_int_mult)
    then show ?thesis using 1 by simp
  next
    case 2
    then have "(1::rat) \<le> of_int (k * m - r * n)" by (metis diff_ge_0_iff_ge add_le_imp_le_diff le_diff_eq of_int_1_le_iff add.commute)
    then have "1 / of_int (n * m) \<le> ?x - ?y" unfolding diff using assms(3,6) by (intro divide_right_mono) auto
    then have "fl32 ?y \<le> fl32 ?x" using errs [unfolded abs_le_iff] gap half by linarith
    then show ?thesis using 2 by simp
  next
    case 3
    then have "(1::rat) \<le> of_int (r * n - k * m)" by (metis diff_ge_0_iff_ge add_le_imp_le_diff le_diff_eq of_int_1_le_iff add.commute)
    then have "1 / of_int (n * m) \<le> of_int (r * n - k * m) / (of_int (n * m) :: rat)"
      using assms(3,6) by (intro divide_right_mono) auto
    also have "\<dots> = ?y - ?x" using assms by (simp add: field_simps)
    finally have "fl32 ?x < fl32 ?y" using errs [unfolded abs_le_iff] gap half by linarith
    then show ?thesis using 3 by simp
  qed
qed

end
