(* ===== verification/Rpc_Types.thy ===== *)
theory Rpc_Types
  imports Url
begin

text \<open>
  The values that travel through the call chain: invocations
  (\<^verbatim>\<open>protocol/invocation/rpcinvocation.go\<close>), results (\<^verbatim>\<open>protocol/result/result.go\<close>), errors and
  invokers (\<^verbatim>\<open>protocol/base/base_invoker.go\<close>).  An invoker in a candidate list is a pointer
  (\<open>ivk_id\<close>, which Go's \<^verbatim>\<open>==\<close> on interface values compares) together with the URL it was
  created with; whether it is available is a question put to the environment at the time
  of the call.  \<open>BaseInvoker\<close> is the invoker's own state with its life cycle.
\<close>

section \<open>Errors\<close>

text \<open>
  \<open>TripleError code wire msg\<close> is a \<^verbatim>\<open>*triple_protocol.Error\<close>, \<open>Wrapped\<close> an error that unwraps
  to another one, \<open>ContextCanceled\<close> and \<open>ContextDeadlineExceeded\<close> the two errors of the context
  package, \<open>PlainError\<close> any other error.
\<close>

datatype go_error =
    PlainError string
  | TripleError nat bool string
  | Wrapped string go_error
  | ContextCanceled
  | ContextDeadlineExceeded

definition CodeUnknown :: nat where "CodeUnknown = 2"
definition CodeBizError :: nat where "CodeBizError = 17"

fun asError :: "go_error \<Rightarrow> (nat \<times> bool) option" where
  "asError (PlainError _) = None"
| "asError (TripleError code wire _) = Some (code, wire)"
| "asError (Wrapped _ e) = asError e"
| "asError _ = None"

definition IsWireError :: "go_error \<Rightarrow> bool" where
  "IsWireError err = (case asError err of None \<Rightarrow> False | Some (_, wire) \<Rightarrow> wire)"

definition CodeOf :: "go_error \<Rightarrow> nat" where
  "CodeOf err = (case asError err of None \<Rightarrow> CodeUnknown | Some (code, _) \<Rightarrow> code)"

section \<open>Results\<close>

text \<open>\<open>Attrs\<close> is \<^const>\<open>None\<close> while the Go map is nil.\<close>

record RPCResult =
  Attrs :: "(string \<times> go_any) list option"
  BizErr :: "go_error option"
  Err :: "go_error option"
  Rest :: go_any

definition empty_result :: RPCResult where
  "empty_result = \<lparr>Attrs = None, BizErr = None, Err = None, Rest = GNil\<rparr>"

definition error_result :: "go_error \<Rightarrow> RPCResult" where
  "error_result e = empty_result\<lparr>Err := Some e\<rparr>"

definition SetError :: "RPCResult \<Rightarrow> go_error option \<Rightarrow> RPCResult" where
  "SetError r err = r\<lparr>Err := err\<rparr>"

definition SetBizError :: "RPCResult \<Rightarrow> go_error option \<Rightarrow> RPCResult" where
  "SetBizError r err = r\<lparr>BizErr := err\<rparr>"

definition SetResult :: "RPCResult \<Rightarrow> go_any \<Rightarrow> RPCResult" where
  "SetResult r rest = r\<lparr>Rest := rest\<rparr>"

definition SetAttachments :: "RPCResult \<Rightarrow> (string \<times> go_any) list option \<Rightarrow> RPCResult" where
  "SetAttachments r attr = r\<lparr>Attrs := attr\<rparr>"

definition Result_Attachments :: "RPCResult \<Rightarrow> (string \<times> go_any) list \<times> RPCResult" where
  "Result_Attachments r =
     (case Attrs r of None \<Rightarrow> ([], r\<lparr>Attrs := Some []\<rparr>) | Some m \<Rightarrow> (m, r))"

definition AddAttachment :: "RPCResult \<Rightarrow> string \<Rightarrow> go_any \<Rightarrow> RPCResult" where
  "AddAttachment r key value =
     r\<lparr>Attrs := Some (map_put key value (case Attrs r of None \<Rightarrow> [] | Some m \<Rightarrow> m))\<rparr>"

definition Result_Attachment :: "RPCResult \<Rightarrow> string \<Rightarrow> go_any \<Rightarrow> go_any \<times> RPCResult" where
  "Result_Attachment r key defaultValue =
     (case Attrs r of
        None \<Rightarrow> (GNil, r\<lparr>Attrs := Some []\<rparr>)
      | Some m \<Rightarrow> (case map_of m key of None \<Rightarrow> (defaultValue, r) | Some v \<Rightarrow> (v, r)))"

section \<open>Invocations\<close>

text \<open>The reflection values, the reply and the context of the struct are not read by the modelled code.\<close>

record RPCInvocation =
  methodName :: string
  arguments :: "go_any list option"
  attachments :: "(string \<times> go_any) list option"
  inv_attributes :: "(string \<times> go_any) list option"

definition NewRPCInvocation ::
  "string \<Rightarrow> go_any list option \<Rightarrow> (string \<times> go_any) list option \<Rightarrow> RPCInvocation" where
  "NewRPCInvocation name args atts =
     \<lparr>methodName = name, arguments = args, attachments = atts, inv_attributes = Some []\<rparr>"

definition MethodName :: "RPCInvocation \<Rightarrow> string" where
  "MethodName r = methodName r"

definition Arguments :: "RPCInvocation \<Rightarrow> go_any list" where
  "Arguments r = (case arguments r of None \<Rightarrow> [] | Some as \<Rightarrow> as)"

definition IsGenericInvocation :: "RPCInvocation \<Rightarrow> bool" where
  "IsGenericInvocation r \<longleftrightarrow>
     (MethodName r = ''$invoke'' \<or> MethodName r = ''$invokeAsync'') \<and>
     arguments r \<noteq> None \<and> length (Arguments r) = 3"

definition ActualMethodName :: "RPCInvocation \<Rightarrow> string" where
  "ActualMethodName r =
     (if IsGenericInvocation r
      then (case Arguments r ! 0 of GStr mtdName \<Rightarrow> mtdName | _ \<Rightarrow> MethodName r)
      else MethodName r)"

definition GetAttachmentInterface :: "RPCInvocation \<Rightarrow> string \<Rightarrow> go_any" where
  "GetAttachmentInterface r key =
     (case attachments r of
        None \<Rightarrow> GNil
      | Some m \<Rightarrow> (case map_of m key of None \<Rightarrow> GNil | Some v \<Rightarrow> v))"

definition SetAttachment :: "RPCInvocation \<Rightarrow> string \<Rightarrow> go_any \<Rightarrow> RPCInvocation" where
  "SetAttachment r key value =
     r\<lparr>attachments := Some (map_put key value (case attachments r of None \<Rightarrow> [] | Some m \<Rightarrow> m))\<rparr>"

definition GetAttachment :: "RPCInvocation \<Rightarrow> string \<Rightarrow> string option" where
  "GetAttachment r key =
     (case attachments r of
        None \<Rightarrow> None
      | Some m \<Rightarrow>
          (case map_of m key of
             Some (GStr str) \<Rightarrow> Some str
           | Some (GStrs (s # _)) \<Rightarrow> Some s
           | _ \<Rightarrow> None))"

definition GetAttachmentWithDefaultValue :: "RPCInvocation \<Rightarrow> string \<Rightarrow> string \<Rightarrow> string" where
  "GetAttachmentWithDefaultValue r key defaultValue =
     (case GetAttachment r key of Some value \<Rightarrow> value | None \<Rightarrow> defaultValue)"

definition Inv_SetAttribute :: "RPCInvocation \<Rightarrow> string \<Rightarrow> go_any \<Rightarrow> RPCInvocation" where
  "Inv_SetAttribute r key value =
     r\<lparr>inv_attributes := Some (map_put key value (case inv_attributes r of None \<Rightarrow> [] | Some m \<Rightarrow> m))\<rparr>"

definition Inv_GetAttribute :: "RPCInvocation \<Rightarrow> string \<Rightarrow> go_any option" where
  "Inv_GetAttribute r key = (case inv_attributes r of None \<Rightarrow> None | Some m \<Rightarrow> map_of m key)"

definition Inv_GetAttributeWithDefaultValue :: "RPCInvocation \<Rightarrow> string \<Rightarrow> go_any \<Rightarrow> go_any" where
  "Inv_GetAttributeWithDefaultValue r key defaultValue =
     (case Inv_GetAttribute r key of Some value \<Rightarrow> value | None \<Rightarrow> defaultValue)"

definition Inv_ServiceKey :: "RPCInvocation \<Rightarrow> string" where
  "Inv_ServiceKey r =
     ServiceKey3
       (TrimPrefix (GetAttachmentWithDefaultValue r PathKey
          (GetAttachmentWithDefaultValue r InterfaceKey '''')) ''/'')
       (GetAttachmentWithDefaultValue r GroupKey '''')
       (GetAttachmentWithDefaultValue r VersionKey '''')"

section \<open>Invokers\<close>

record invoker =
  ivk_id :: nat
  GetURL :: url

record BaseInvoker =
  bi_url :: "url option"
  bi_available :: bool
  bi_destroyed :: bool

definition emptyURL :: url where
  "emptyURL = NewURLWithOptions [WithProtocol ''dubbo-go-internal-invoker-destroyed'']"

definition NewBaseInvoker :: "url \<Rightarrow> BaseInvoker" where
  "NewBaseInvoker u = \<lparr>bi_url = Some u, bi_available = True, bi_destroyed = False\<rparr>"

definition BaseInvoker_GetURL :: "BaseInvoker \<Rightarrow> url" where
  "BaseInvoker_GetURL bi = (case bi_url bi of None \<Rightarrow> emptyURL | Some u \<Rightarrow> u)"

definition BaseInvoker_IsAvailable :: "BaseInvoker \<Rightarrow> bool" where
  "BaseInvoker_IsAvailable bi = bi_available bi"

definition SetAvailable :: "BaseInvoker \<Rightarrow> bool \<Rightarrow> BaseInvoker" where
  "SetAvailable bi available = bi\<lparr>bi_available := available\<rparr>"

definition BaseInvoker_IsDestroyed :: "BaseInvoker \<Rightarrow> bool" where
  "BaseInvoker_IsDestroyed bi = bi_destroyed bi"

text \<open>The second component is the URL object the invoker pointed to, after its attributes are cleared.\<close>

definition BaseInvoker_Destroy :: "BaseInvoker \<Rightarrow> BaseInvoker \<times> url option" where
  "BaseInvoker_Destroy bi =
     (bi\<lparr>bi_destroyed := True, bi_available := False, bi_url := None\<rparr>,
      map_option ClearAttributes (bi_url bi))"

end
