(* ===== verification/Rpc_Status.thy ===== *)
theory Rpc_Status
  imports Rpc_Types
begin

text \<open>
  \<^verbatim>\<open>protocol/base/rpc_status.go\<close>: the call statistics that the least-active strategy reads and the
  blacklist of unhealthy invokers.  The package's global maps are the record \<open>rpc_state\<close>; a
  status is reached through its URL key (and method), so updating through the pointer that
  \<^verbatim>\<open>GetMethodStatus\<close> returns is updating the entry.  Counters are \<^verbatim>\<open>int32\<close> and \<^verbatim>\<open>int64\<close> and
  wrap around.
\<close>

record RPCStatus =
  active :: int
  failed :: int
  total :: int
  totalElapsed :: int
  failedElapsed :: int
  maxElapsed :: int
  failedMaxElapsed :: int
  succeededMaxElapsed :: int
  successiveRequestFailureCount :: int
  lastRequestFailedTimestamp :: int

definition zero_status :: RPCStatus where
  "zero_status =
     \<lparr>active = 0, failed = 0, total = 0, totalElapsed = 0, failedElapsed = 0, maxElapsed = 0,
      failedMaxElapsed = 0, succeededMaxElapsed = 0, successiveRequestFailureCount = 0,
      lastRequestFailedTimestamp = 0\<rparr>"

record rpc_state =
  methodStatistics :: "(string \<times> (string \<times> RPCStatus) list) list"
  serviceStatistic :: "(string \<times> RPCStatus) list"
  invokerBlackList :: "(string \<times> invoker) list"
  blackListCacheDirty :: bool
  blackListRefreshing :: int

definition init_rpc_state :: rpc_state where
  "init_rpc_state =
     \<lparr>methodStatistics = [], serviceStatistic = [], invokerBlackList = [],
      blackListCacheDirty = False, blackListRefreshing = 0\<rparr>"

section \<open>Status lookup\<close>

text \<open>\<^verbatim>\<open>LoadOrStore\<close> of a \<^verbatim>\<open>sync.Map\<close>: the value found or stored, and the map after.\<close>

definition LoadOrStore :: "'k \<Rightarrow> 'v \<Rightarrow> ('k \<times> 'v) list \<Rightarrow> 'v \<times> ('k \<times> 'v) list" where
  "LoadOrStore k v m = (case map_of m k of Some v' \<Rightarrow> (v', m) | None \<Rightarrow> (v, map_put k v m))"

definition GetURLStatus :: "url \<Rightarrow> rpc_state \<Rightarrow> RPCStatus \<times> rpc_state" where
  "GetURLStatus u s =
     (case LoadOrStore (Key u) zero_status (serviceStatistic s) of
        (st, m) \<Rightarrow> (st, s\<lparr>serviceStatistic := m\<rparr>))"

definition GetMethodStatus :: "url \<Rightarrow> string \<Rightarrow> rpc_state \<Rightarrow> RPCStatus \<times> rpc_state" where
  "GetMethodStatus u name s =
     (let identifier = Key u;
          (methodActive, ms) = LoadOrStore identifier [] (methodStatistics s);
          (status, methodActive) = LoadOrStore name zero_status methodActive
      in (status, s\<lparr>methodStatistics := map_put identifier methodActive ms\<rparr>))"

definition GetActive :: "RPCStatus \<Rightarrow> int" where
  "GetActive rpc = active rpc"

section \<open>Counting\<close>

definition beginCount0 :: "RPCStatus \<Rightarrow> RPCStatus" where
  "beginCount0 st = st\<lparr>active := wrap32 (active st + 1)\<rparr>"

text \<open>\<open>now\<close> is the value of \<^verbatim>\<open>CurrentTimeMillis()\<close>.\<close>

definition endCount0 :: "int \<Rightarrow> int \<Rightarrow> bool \<Rightarrow> RPCStatus \<Rightarrow> RPCStatus" where
  "endCount0 now elapsed succeeded st =
     (let st = st\<lparr>active := wrap32 (active st + (-1)), total := wrap32 (total st + 1),
                  totalElapsed := wrap64 (totalElapsed st + elapsed)\<rparr>;
          st = (if maxElapsed st < elapsed then st\<lparr>maxElapsed := elapsed\<rparr> else st)
      in if succeeded
         then (let st = (if succeededMaxElapsed st < elapsed
                         then st\<lparr>succeededMaxElapsed := elapsed\<rparr> else st)
               in st\<lparr>successiveRequestFailureCount := 0\<rparr>)
         else (let st = st\<lparr>lastRequestFailedTimestamp := now,
                           successiveRequestFailureCount :=
                             wrap32 (successiveRequestFailureCount st + 1),
                           failed := wrap32 (failed st + 1),
                           failedElapsed := wrap64 (failedElapsed st + elapsed)\<rparr>
               in if failedMaxElapsed st < elapsed
                  then st\<lparr>failedMaxElapsed := elapsed\<rparr> else st))"

definition at_URLStatus :: "url \<Rightarrow> (RPCStatus \<Rightarrow> RPCStatus) \<Rightarrow> rpc_state \<Rightarrow> rpc_state" where
  "at_URLStatus u f s =
     (case GetURLStatus u s of
        (st, s) \<Rightarrow> s\<lparr>serviceStatistic := map_put (Key u) (f st) (serviceStatistic s)\<rparr>)"

definition at_MethodStatus ::
  "url \<Rightarrow> string \<Rightarrow> (RPCStatus \<Rightarrow> RPCStatus) \<Rightarrow> rpc_state \<Rightarrow> rpc_state" where
  "at_MethodStatus u name f s =
     (case GetMethodStatus u name s of
        (st, s) \<Rightarrow>
          s\<lparr>methodStatistics := map_put (Key u)
              (map_put name (f st)
                (case map_of (methodStatistics s) (Key u) of None \<Rightarrow> [] | Some m \<Rightarrow> m))
              (methodStatistics s)\<rparr>)"

definition BeginCount :: "url \<Rightarrow> string \<Rightarrow> rpc_state \<Rightarrow> rpc_state" where
  "BeginCount u name s = at_MethodStatus u name beginCount0 (at_URLStatus u beginCount0 s)"

definition EndCount :: "int \<Rightarrow> url \<Rightarrow> string \<Rightarrow> int \<Rightarrow> bool \<Rightarrow> rpc_state \<Rightarrow> rpc_state" where
  "EndCount now u name elapsed succeeded s =
     at_MethodStatus u name (endCount0 now elapsed succeeded)
       (at_URLStatus u (endCount0 now elapsed succeeded) s)"

definition CleanAllStatus :: "rpc_state \<Rightarrow> rpc_state" where
  "CleanAllStatus s =
     s\<lparr>methodStatistics := fold (\<lambda>e m. map_del (fst e) m) (methodStatistics s) (methodStatistics s),
       serviceStatistic := fold (\<lambda>e m. map_del (fst e) m) (serviceStatistic s) (serviceStatistic s),
       invokerBlackList := fold (\<lambda>e m. map_del (fst e) m) (invokerBlackList s) (invokerBlackList s)\<rparr>"

section \<open>The blacklist\<close>

definition GetInvokerHealthyStatus :: "invoker \<Rightarrow> rpc_state \<Rightarrow> bool" where
  "GetInvokerHealthyStatus ivk s \<longleftrightarrow>
     map_of (invokerBlackList s) (GetCacheInvokerMapKey (GetURL ivk)) = None"

definition SetInvokerUnhealthyStatus :: "invoker \<Rightarrow> rpc_state \<Rightarrow> rpc_state" where
  "SetInvokerUnhealthyStatus ivk s =
     s\<lparr>invokerBlackList := map_put (GetCacheInvokerMapKey (GetURL ivk)) ivk (invokerBlackList s),
       blackListCacheDirty := True\<rparr>"

definition RemoveInvokerUnhealthyStatus :: "invoker \<Rightarrow> rpc_state \<Rightarrow> rpc_state" where
  "RemoveInvokerUnhealthyStatus ivk s =
     s\<lparr>invokerBlackList := map_del (GetCacheInvokerMapKey (GetURL ivk)) (invokerBlackList s),
       blackListCacheDirty := True\<rparr>"

definition GetBlackListInvokers :: "int \<Rightarrow> rpc_state \<Rightarrow> invoker list go" where
  "GetBlackListInvokers blockSize s =
     (let resultIvks = map snd (invokerBlackList s)
      in if blockSize > int (length resultIvks) then Inr resultIvks
         else if blockSize < 0 then Inl IndexOutOfRange
         else Inr (take (nat blockSize) resultIvks))"

definition RemoveUrlKeyUnhealthyStatus :: "string \<Rightarrow> rpc_state \<Rightarrow> rpc_state" where
  "RemoveUrlKeyUnhealthyStatus key s =
     s\<lparr>invokerBlackList := map_del key (invokerBlackList s), blackListCacheDirty := True\<rparr>"

definition GetAndRefreshState :: "rpc_state \<Rightarrow> bool \<times> rpc_state" where
  "GetAndRefreshState s = (blackListCacheDirty s, s\<lparr>blackListCacheDirty := False\<rparr>)"

text \<open>
  One of the three goroutines of \<^verbatim>\<open>TryRefreshBlackList\<close>: it walks the block and checks the
  positions congruent to its number modulo three.
\<close>

fun refresh_worker :: "(invoker \<Rightarrow> bool) \<Rightarrow> nat \<Rightarrow> nat \<Rightarrow> invoker list \<Rightarrow> rpc_state \<Rightarrow> rpc_state" where
  "refresh_worker IsAvailable i j [] s = s"
| "refresh_worker IsAvailable i j (ivk # ivks) s =
     refresh_worker IsAvailable i (Suc j) ivks
       (if int (j mod 3) - int i = 0 \<and> IsAvailable ivk
        then RemoveInvokerUnhealthyStatus ivk s else s)"

abbreviation DefaultBlackListRecoverBlock :: int where "DefaultBlackListRecoverBlock \<equiv> 16"

definition TryRefreshBlackList :: "(invoker \<Rightarrow> bool) \<Rightarrow> rpc_state \<Rightarrow> rpc_state" where
  "TryRefreshBlackList IsAvailable s =
     (if blackListRefreshing s = 0
      then (let s = s\<lparr>blackListRefreshing := 1\<rparr>
            in case GetBlackListInvokers DefaultBlackListRecoverBlock s of
                 Inl _ \<Rightarrow> s\<lparr>blackListRefreshing := 0\<rparr>
               | Inr ivks \<Rightarrow>
                   (let s = fold (\<lambda>i s. refresh_worker IsAvailable i 0 ivks s) [0, 1, 2] s
                    in s\<lparr>blackListRefreshing := 0\<rparr>))
      else s)"

section \<open>Counters are counts\<close>

text \<open>
  A history of the calls that bracket an RPC.  Each \<^verbatim>\<open>BeginCount\<close> and \<^verbatim>\<open>EndCount\<close> only does
  commuting atomic additions on the counters below, so a history is any interleaving of them.
\<close>

datatype call_event =
    BeginCall url string
  | EndCall int url string int bool

fun count_step :: "call_event \<Rightarrow> rpc_state \<Rightarrow> rpc_state" where
  "count_step (BeginCall u name) s = BeginCount u name s"
| "count_step (EndCall now u name elapsed succeeded) s = EndCount now u name elapsed succeeded s"

fun status_step :: "call_event \<Rightarrow> RPCStatus \<Rightarrow> RPCStatus" where
  "status_step (BeginCall u name) st = beginCount0 st"
| "status_step (EndCall now u name elapsed succeeded) st = endCount0 now elapsed succeeded st"

fun event_of :: "url \<Rightarrow> call_event \<Rightarrow> bool" where
  "event_of u (BeginCall v name) \<longleftrightarrow> Key v = Key u"
| "event_of u (EndCall now v name elapsed succeeded) \<longleftrightarrow> Key v = Key u"

fun event_method :: "call_event \<Rightarrow> string" where
  "event_method (BeginCall u name) = name"
| "event_method (EndCall now u name elapsed succeeded) = name"

fun is_begin :: "call_event \<Rightarrow> bool" where
  "is_begin (BeginCall u name) \<longleftrightarrow> True"
| "is_begin (EndCall now u name elapsed succeeded) \<longleftrightarrow> False"

fun is_failure :: "call_event \<Rightarrow> bool" where
  "is_failure (BeginCall u name) \<longleftrightarrow> False"
| "is_failure (EndCall now u name elapsed succeeded) \<longleftrightarrow> \<not> succeeded"

definition count_ev :: "('a \<Rightarrow> bool) \<Rightarrow> 'a list \<Rightarrow> int" where
  "count_ev P es = int (length (filter P es))"

lemma count_ev_simps [simp]:
  "count_ev P [] = 0"
  "count_ev P (e # es) = (if P e then 1 else 0) + count_ev P es"
  "count_ev P (es @ es') = count_ev P es + count_ev P es'"
  by (simp_all add: count_ev_def)

lemma fst_LoadOrStore: "fst (LoadOrStore k v m) = (case map_of m k of None \<Rightarrow> v | Some v' \<Rightarrow> v')"
  and map_of_LoadOrStore: "map_of (snd (LoadOrStore k v m)) = (map_of m)(k \<mapsto> fst (LoadOrStore k v m))"
  by (auto simp: LoadOrStore_def split: option.splits)

lemma fst_GetURLStatus:
  "fst (GetURLStatus u s) = fst (LoadOrStore (Key u) zero_status (serviceStatistic s))"
  by (simp add: GetURLStatus_def split: prod.split)

lemma fst_GetMethodStatus:
  "fst (GetMethodStatus u name s) =
     fst (LoadOrStore name zero_status (fst (LoadOrStore (Key u) [] (methodStatistics s))))"
  by (simp add: GetMethodStatus_def Let_def split: prod.split)

lemma at_URLStatus_maps:
  "map_of (serviceStatistic (at_URLStatus u f s)) =
     (map_of (serviceStatistic s))(Key u \<mapsto> f (fst (GetURLStatus u s)))"
  "methodStatistics (at_URLStatus u f s) = methodStatistics s"
  by (auto simp: at_URLStatus_def GetURLStatus_def map_of_LoadOrStore split: prod.split)
     (metis fun_upd_upd map_of_LoadOrStore snd_conv)

lemma at_MethodStatus_maps:
  "map_of (methodStatistics (at_MethodStatus u name f s)) =
     (map_of (methodStatistics s))(Key u \<mapsto> map_put name (f (fst (GetMethodStatus u name s)))
       (snd (LoadOrStore name zero_status (fst (LoadOrStore (Key u) [] (methodStatistics s))))))"
  "serviceStatistic (at_MethodStatus u name f s) = serviceStatistic s"
  by (auto simp: at_MethodStatus_def GetMethodStatus_def Let_def split: prod.split)
     (metis fun_upd_upd map_of_LoadOrStore snd_conv)

lemma url_status_at [simp]:
  "fst (GetURLStatus v (at_URLStatus u f s)) =
     (if Key v = Key u then f (fst (GetURLStatus v s)) else fst (GetURLStatus v s))"
  "fst (GetURLStatus v (at_MethodStatus u name f s)) = fst (GetURLStatus v s)"
  by (simp_all add: fst_GetURLStatus fst_LoadOrStore at_URLStatus_maps at_MethodStatus_maps)

lemma method_status_at [simp]:
  "fst (GetMethodStatus v name' (at_URLStatus u f s)) = fst (GetMethodStatus v name' s)"
  "fst (GetMethodStatus v name' (at_MethodStatus u name f s)) =
     (if Key v = Key u \<and> name' = name then f (fst (GetMethodStatus v name' s))
      else fst (GetMethodStatus v name' s))"
  by (simp_all add: fst_GetMethodStatus fst_LoadOrStore [of "Key v"] fst_LoadOrStore [of name']
      fst_LoadOrStore [of name] fst_LoadOrStore [of "Key u"] map_of_LoadOrStore
      at_URLStatus_maps at_MethodStatus_maps)

lemma url_status_fold:
  "fst (GetURLStatus u (fold count_step es s)) =
     fold status_step (filter (event_of u) es) (fst (GetURLStatus u s))"
proof (induction es arbitrary: s)
  case (Cons e es)
  have "fst (GetURLStatus u (count_step e s)) =
          (if event_of u e then status_step e (fst (GetURLStatus u s)) else fst (GetURLStatus u s))"
    by (cases e) (simp_all only: count_step.simps BeginCount_def EndCount_def url_status_at
        event_of.simps status_step.simps eq_commute)
  then show ?case by (simp only: fold_simps filter.simps Cons.IH split: if_split) simp
qed simp

lemma method_status_fold:
  "fst (GetMethodStatus u name (fold count_step es s)) =
     fold status_step (filter (\<lambda>e. event_of u e \<and> event_method e = name) es)
       (fst (GetMethodStatus u name s))"
proof (induction es arbitrary: s)
  case (Cons e es)
  show ?case by (cases e) (auto simp add: Cons BeginCount_def EndCount_def)
qed simp

lemma wrap32_wrap32_diff [simp]: "wrap32 (wrap32 x - y) = wrap32 (x - y)"
  using wrap32_wrap32_add [of x "- y"] by simp

lemma endCount0_counters [simp]:
  "active (endCount0 now el ok st) = wrap32 (active st - 1)"
  "total (endCount0 now el ok st) = wrap32 (total st + 1)"
  "failed (endCount0 now el ok st) = (if ok then failed st else wrap32 (failed st + 1))"
  "successiveRequestFailureCount (endCount0 now el ok st) =
     (if ok then 0 else wrap32 (successiveRequestFailureCount st + 1))"
  "maxElapsed (endCount0 now el ok st) = max (maxElapsed st) el"
  "succeededMaxElapsed (endCount0 now el ok st) =
     (if ok then max (succeededMaxElapsed st) el else succeededMaxElapsed st)"
  "failedMaxElapsed (endCount0 now el ok st) =
     (if ok then failedMaxElapsed st else max (failedMaxElapsed st) el)"
  by (cases ok; simp add: endCount0_def Let_def max_def)+

lemma beginCount0_counters [simp]:
  "active (beginCount0 st) = wrap32 (active st + 1)"
  "total (beginCount0 st) = total st"
  "failed (beginCount0 st) = failed st"
  "successiveRequestFailureCount (beginCount0 st) = successiveRequestFailureCount st"
  "maxElapsed (beginCount0 st) = maxElapsed st"
  by (simp_all add: beginCount0_def)

definition has_counts :: "int \<Rightarrow> int \<Rightarrow> int \<Rightarrow> RPCStatus \<Rightarrow> bool" where
  "has_counts a t f st \<longleftrightarrow> active st = wrap32 a \<and> total st = wrap32 t \<and> failed st = wrap32 f"

lemma has_counts_step:
  assumes "has_counts a t f st"
  shows "has_counts (if is_begin e then a + 1 else a - 1) (if is_begin e then t else t + 1)
           (if is_failure e then f + 1 else f) (status_step e st)"
  using assms by (cases e) (simp_all add: has_counts_def)

lemma status_fold_counters:
  assumes "has_counts a t f st"
  shows "has_counts (a + count_ev is_begin es - count_ev (Not \<circ> is_begin) es)
           (t + count_ev (Not \<circ> is_begin) es) (f + count_ev is_failure es) (fold status_step es st)"
  using assms
proof (induction es arbitrary: st a t f)
  case (Cons e es)
  from Cons.IH [OF has_counts_step [OF Cons.prems, of e]] show ?case
    by (cases "is_begin e"; cases "is_failure e") (simp_all add: algebra_simps)
qed simp

lemma zero_status_counters [simp]:
  "active zero_status = 0" "total zero_status = 0" "failed zero_status = 0"
  "successiveRequestFailureCount zero_status = 0" "maxElapsed zero_status = 0"
  by (simp_all add: zero_status_def)

lemma init_status [simp]:
  "fst (GetURLStatus u init_rpc_state) = zero_status"
  "fst (GetMethodStatus u name init_rpc_state) = zero_status"
  by (simp_all add: GetURLStatus_def GetMethodStatus_def LoadOrStore_def init_rpc_state_def)

lemma wrap32_0: "wrap32 0 = 0"
  by (simp add: wrap32_def)

text \<open>
  C35.  The statistics are exact at every point of every history: for a method, the active
  counter is the number of calls begun minus the number ended, the total counts the ended ones
  and failed the failures, each modulo the 32-bit width; the service-wide counters do the same
  over all methods of the service key, and no other key's calls count.
\<close>

theorem counters_count_calls:
  fixes es :: "call_event list" and u :: url and name :: string
  defines "s \<equiv> fold count_step es init_rpc_state"
  defines "mine \<equiv> filter (\<lambda>e. event_of u e \<and> event_method e = name) es"
  defines "service \<equiv> filter (event_of u) es"
  shows "GetActive (fst (GetMethodStatus u name s)) =
           wrap32 (count_ev is_begin mine - count_ev (Not \<circ> is_begin) mine) \<and>
         total (fst (GetMethodStatus u name s)) = wrap32 (count_ev (Not \<circ> is_begin) mine) \<and>
         failed (fst (GetMethodStatus u name s)) = wrap32 (count_ev is_failure mine) \<and>
         GetActive (fst (GetURLStatus u s)) =
           wrap32 (count_ev is_begin service - count_ev (Not \<circ> is_begin) service) \<and>
         total (fst (GetURLStatus u s)) = wrap32 (count_ev (Not \<circ> is_begin) service) \<and>
         failed (fst (GetURLStatus u s)) = wrap32 (count_ev is_failure service)"
  using status_fold_counters [of 0 0 0 zero_status mine] status_fold_counters [of 0 0 0 zero_status service]
  by (simp add: s_def mine_def service_def method_status_fold url_status_fold GetActive_def has_counts_def wrap32_0)

section \<open>The blacklist\<close>

definition blacklist_ok :: "rpc_state \<Rightarrow> bool" where
  "blacklist_ok s \<longleftrightarrow> map_ok (invokerBlackList s) \<and>
     (\<forall>e \<in> set (invokerBlackList s). fst e = GetCacheInvokerMapKey (GetURL (snd e)))"

lemma blacklist_map_put:
  "e \<in> set (map_put k v m) \<Longrightarrow> e = (k, v) \<or> e \<in> set m"
  by (induction m) (auto split: if_splits)

lemma blacklist_ok_Set: "blacklist_ok s \<Longrightarrow> blacklist_ok (SetInvokerUnhealthyStatus ivk s)"
  by (auto simp: blacklist_ok_def SetInvokerUnhealthyStatus_def dest!: blacklist_map_put)

lemma blacklist_ok_filter:
  "blacklist_ok s \<Longrightarrow> invokerBlackList s' = filter P (invokerBlackList s) \<Longrightarrow> blacklist_ok s'"
  by (auto simp: blacklist_ok_def map_ok_filter)

lemma blacklist_ok_Remove:
  "blacklist_ok s \<Longrightarrow> blacklist_ok (RemoveInvokerUnhealthyStatus ivk s)"
  "blacklist_ok s \<Longrightarrow> blacklist_ok (RemoveUrlKeyUnhealthyStatus key s)"
  by (erule blacklist_ok_filter,
      simp add: RemoveInvokerUnhealthyStatus_def RemoveUrlKeyUnhealthyStatus_def map_del_def)+

lemma fold_Remove:
  "invokerBlackList (fold RemoveInvokerUnhealthyStatus rs s) =
     filter (\<lambda>e. fst e \<notin> (\<lambda>v. GetCacheInvokerMapKey (GetURL v)) ` set rs) (invokerBlackList s)"
  "blackListRefreshing (fold RemoveInvokerUnhealthyStatus rs s) = blackListRefreshing s"
  "methodStatistics (fold RemoveInvokerUnhealthyStatus rs s) = methodStatistics s"
  "serviceStatistic (fold RemoveInvokerUnhealthyStatus rs s) = serviceStatistic s"
  by (induction rs arbitrary: s)
     (simp_all add: RemoveInvokerUnhealthyStatus_def map_del_def)

text \<open>The invokers one goroutine removes, in its order.\<close>

fun worker_removals :: "(invoker \<Rightarrow> bool) \<Rightarrow> nat \<Rightarrow> nat \<Rightarrow> invoker list \<Rightarrow> invoker list" where
  "worker_removals IsAvailable i j [] = []"
| "worker_removals IsAvailable i j (ivk # ivks) =
     (if j mod 3 = i \<and> IsAvailable ivk then [ivk] else []) @ worker_removals IsAvailable i (Suc j) ivks"

lemma refresh_worker_eq:
  "refresh_worker IsAvailable i j ivks s =
     fold RemoveInvokerUnhealthyStatus (worker_removals IsAvailable i j ivks) s"
  by (induction ivks arbitrary: j s) auto

lemma workers_cover:
  "set (worker_removals A 0 j ivks) \<union> set (worker_removals A 1 j ivks) \<union>
   set (worker_removals A 2 j ivks) = {ivk \<in> set ivks. A ivk}"
proof (induction ivks arbitrary: j)
  case (Cons ivk ivks)
  define E where "E i = (if j mod 3 = i \<and> A ivk then {ivk} else {})" for i
  define W where "W i = set (worker_removals A i (Suc j) ivks)" for i
  have "j mod 3 < 3" by simp
  then consider "j mod 3 = 0" | "j mod 3 = 1" | "j mod 3 = 2" by linarith
  then have E: "E 0 \<union> E 1 \<union> E 2 = (if A ivk then {ivk} else {})"
    by cases (simp_all add: E_def)
  have "set (worker_removals A i j (ivk # ivks)) = E i \<union> W i" for i
    unfolding E_def W_def worker_removals.simps set_append by (simp only: if_distrib [of set] list.set)
  moreover have "(E 0 \<union> W 0) \<union> (E 1 \<union> W 1) \<union> (E 2 \<union> W 2) = (E 0 \<union> E 1 \<union> E 2) \<union> (W 0 \<union> W 1 \<union> W 2)"
    by (simp only: Un_ac)
  moreover have "W 0 \<union> W 1 \<union> W 2 = {ivk \<in> set ivks. A ivk}"
    unfolding W_def by (rule Cons.IH)
  ultimately show ?case unfolding E by auto
qed simp

lemma GetBlackListInvokers_block:
  "GetBlackListInvokers DefaultBlackListRecoverBlock s = Inr (take 16 (map snd (invokerBlackList s)))"
  by (auto simp: GetBlackListInvokers_def Let_def)

lemma blacklist_recovered:
  assumes "blacklist_ok s" and "set rs = {ivk \<in> set (take 16 (map snd (invokerBlackList s))). A ivk}"
  shows "invokerBlackList (fold RemoveInvokerUnhealthyStatus rs s) =
           filter (\<lambda>e. \<not> A (snd e)) (take 16 (invokerBlackList s)) @ drop 16 (invokerBlackList s)"
proof -
  let ?key = "\<lambda>v. GetCacheInvokerMapKey (GetURL v)"
  let ?m = "invokerBlackList s" and ?P = "\<lambda>e. fst e \<notin> ?key ` set rs"
  have ok: "map_ok ?m" "\<And>e. e \<in> set ?m \<Longrightarrow> fst e = ?key (snd e)"
    using assms(1) by (auto simp: blacklist_ok_def)
  have dis: "e = e'" if "e \<in> set ?m" "e' \<in> set ?m" "fst e = fst e'" for e e'
    using that ok(1) by (metis eq_key_imp_eq_value prod.collapse)
  have rs: "set rs = snd ` {e \<in> set (take 16 ?m). A (snd e)}"
    using assms(2) by (auto simp: take_map)
  have "?key ` set rs = fst ` {e \<in> set (take 16 ?m). A (snd e)}"
    unfolding rs image_image by (intro image_cong refl) (metis (no_types, lifting) in_set_takeD mem_Collect_eq ok(2))
  then have key: "?P e \<longleftrightarrow> (\<forall>e' \<in> set (take 16 ?m). A (snd e') \<longrightarrow> fst e \<noteq> fst e')" for e
    by auto
  have "filter ?P (take 16 ?m) = filter (\<lambda>e. \<not> A (snd e)) (take 16 ?m)"
  proof (rule filter_cong)
    fix e assume "e \<in> set (take 16 ?m)"
    then show "?P e \<longleftrightarrow> \<not> A (snd e)" unfolding key using dis by (metis in_set_takeD)
  qed simp
  moreover have "filter ?P (drop 16 ?m) = drop 16 ?m"
  proof (rule filter_True, rule ballI)
    fix e assume e: "e \<in> set (drop 16 ?m)"
    have "fst ` set (take 16 ?m) \<inter> fst ` set (drop 16 ?m) = {}"
      using ok(1) by (metis append_take_drop_id distinct_append map_append set_map)
    with e show "?P e" unfolding key by (metis disjoint_iff imageI)
  qed
  ultimately show ?thesis by (metis (no_types, lifting) append_take_drop_id filter_append fold_Remove(1))
qed

text \<open>
  A refresh that wins the compare-and-swap removes from the blacklist exactly the available
  invokers among the first sixteen entries, keeps every other entry in place, leaves the
  statistics alone and releases the refresh flag; and the result does not depend on how the
  three checking goroutines interleave, since any sequence of the same removals gives the same
  blacklist.  A refresh that loses the compare-and-swap changes nothing.
\<close>

lemma TryRefreshBlackList_recovers:
  assumes "blacklist_ok s"
  shows "(if blackListRefreshing s \<noteq> 0 then TryRefreshBlackList IsAvailable s = s
          else let s' = TryRefreshBlackList IsAvailable s in
            invokerBlackList s' =
              filter (\<lambda>e. \<not> IsAvailable (snd e)) (take 16 (invokerBlackList s)) @
              drop 16 (invokerBlackList s) \<and>
            blackListRefreshing s' = 0 \<and> blacklist_ok s' \<and>
            methodStatistics s' = methodStatistics s \<and> serviceStatistic s' = serviceStatistic s \<and>
            (\<forall>rs. set rs = {ivk \<in> set (take 16 (map snd (invokerBlackList s))). IsAvailable ivk} \<longrightarrow>
               invokerBlackList (fold RemoveInvokerUnhealthyStatus rs s) = invokerBlackList s'))"
proof (cases "blackListRefreshing s = 0")
  case True
  let ?ivks = "take 16 (map snd (invokerBlackList s))"
  let ?rs = "worker_removals IsAvailable 0 0 ?ivks @ worker_removals IsAvailable 1 0 ?ivks @
             worker_removals IsAvailable 2 0 ?ivks"
  let ?s = "s\<lparr>blackListRefreshing := 1\<rparr>"
  have ok: "blacklist_ok ?s" using assms by (simp add: blacklist_ok_def)
  have rs: "set ?rs = {ivk \<in> set ?ivks. IsAvailable ivk}"
    using workers_cover [of IsAvailable 0 ?ivks] by (simp add: Un_assoc)
  have eq: "TryRefreshBlackList IsAvailable s =
              (fold RemoveInvokerUnhealthyStatus ?rs ?s)\<lparr>blackListRefreshing := 0\<rparr>"
    using True GetBlackListInvokers_block [of ?s]
    by (simp add: TryRefreshBlackList_def Let_def refresh_worker_eq)
  have bl: "invokerBlackList (TryRefreshBlackList IsAvailable s) =
              filter (\<lambda>e. \<not> IsAvailable (snd e)) (take 16 (invokerBlackList s)) @
              drop 16 (invokerBlackList s)"
    using blacklist_recovered [OF ok, of ?rs IsAvailable] rs by (simp add: eq)
  have "blacklist_ok (TryRefreshBlackList IsAvailable s)"
    by (rule blacklist_ok_filter [OF ok]) (simp add: eq fold_Remove)
  with bl show ?thesis using True blacklist_recovered [OF assms, of _ IsAvailable]
    by (simp add: Let_def eq fold_Remove)
qed (simp add: TryRefreshBlackList_def)

definition sample_invoker :: "nat \<Rightarrow> invoker" where
  "sample_invoker n = \<lparr>ivk_id = n, GetURL = sample_provider\<rparr>"

lemma blacklist_ok_init: "blacklist_ok init_rpc_state"
  by (simp add: blacklist_ok_def init_rpc_state_def)

end
