(* ===== verification/Load_Balance.thy ===== *)
theory Load_Balance
  imports Go_Float Rpc_Status
begin

text \<open>
  \<^verbatim>\<open>cluster/loadbalance\<close>: the weight of an invoker, the interface every strategy implements, and
  the Random strategy.  Random numbers are arguments: \<open>r\<close> is
  what the generator produced and \<^const>\<open>Intn\<close> reduces it as \<^verbatim>\<open>rand.Intn\<close> does.
\<close>

abbreviation DefaultWeight :: int where "DefaultWeight \<equiv> 100"
abbreviation DefaultWarmup :: int where "DefaultWarmup \<equiv> 600"
abbreviation RegistryKey :: string where "RegistryKey \<equiv> ''registry''"
abbreviation RegistryLabelKey :: string where "RegistryLabelKey \<equiv> ''label''"
abbreviation WarmupKey :: string where "WarmupKey \<equiv> ''warmup''"

section \<open>Weights\<close>

definition configured_weight :: "url \<Rightarrow> string \<Rightarrow> int" where
  "configured_weight u name =
     (let weight = GetMethodParamInt64 u name WeightKey (-1);
          weight = (if weight < 0 \<and> GetParamBool u (RegistryKey @ ''.'' @ RegistryLabelKey) False
                    then GetParamInt u (RegistryKey @ ''.'' @ WeightKey) DefaultWeight else weight)
      in if weight < 0 then DefaultWeight else weight)"

definition warmed_weight :: "int \<Rightarrow> int \<Rightarrow> int \<Rightarrow> int" where
  "warmed_weight weight uptime warm =
     (let calc = fdiv (fmul (float_of_int uptime) (float_of_int weight)) (float_of_int warm)
      in if calc < 1 then 1
         else if int_of_float calc \<le> weight then int_of_float calc else weight)"

definition GetWeightAt :: "invoker \<Rightarrow> RPCInvocation \<Rightarrow> int \<Rightarrow> int" where
  "GetWeightAt ivk invocation now =
     (let u = GetURL ivk;
          weight = configured_weight u (MethodName invocation);
          weight = (if weight > 0
                    then (let ts = GetParamInt u RemoteTimestampKey now;
                              uptime = wrap64 (now - ts)
                          in if uptime > 0
                             then (let warm = GetParamInt u WarmupKey DefaultWarmup
                                   in if uptime < warm then warmed_weight weight uptime warm
                                      else weight)
                             else weight)
                    else weight)
      in if weight < 0 then 0 else weight)"

section \<open>Random\<close>

text \<open>The first loop: running total, same-weight flag and the array of cumulative weights.\<close>

fun random_scan ::
  "RPCInvocation \<Rightarrow> int \<Rightarrow> invoker list \<Rightarrow> int \<Rightarrow> int \<Rightarrow> bool \<Rightarrow> int list \<Rightarrow> int \<times> bool \<times> int list" where
  "random_scan invocation now [] i totalWeight sameWeight weights = (totalWeight, sameWeight, weights)"
| "random_scan invocation now (ivk # invokers) i totalWeight sameWeight weights =
     (let weight = GetWeightAt ivk invocation now;
          totalWeight = wrap64 (totalWeight + weight);
          weights = weights @ [totalWeight];
          sameWeight = (if sameWeight \<and> totalWeight \<noteq> wrap64 (weight * (i + 1)) then False
                        else sameWeight)
      in random_scan invocation now invokers (i + 1) totalWeight sameWeight weights)"

text \<open>The second loop: the first index whose cumulative weight exceeds the offset.\<close>

fun first_above :: "int \<Rightarrow> int \<Rightarrow> int list \<Rightarrow> int option" where
  "first_above offset i [] = None"
| "first_above offset i (w # ws) = (if offset < w then Some i else first_above offset (i + 1) ws)"

text \<open>\<open>r\<close> is the draw of \<^verbatim>\<open>rand.Int63n\<close> and \<open>r'\<close> the one of \<^verbatim>\<open>rand.Intn\<close>.\<close>

definition Random_Select ::
  "int \<Rightarrow> nat \<Rightarrow> nat \<Rightarrow> RPCInvocation \<Rightarrow> invoker list \<Rightarrow> invoker option go" where
  "Random_Select now r r' invocation invokers =
     (if length invokers = 1 then go_elem invokers 0
      else case random_scan invocation now invokers 0 0 True [] of (totalWeight, sameWeight, weights) \<Rightarrow>
        go_bind (if totalWeight > 0 \<and> \<not> sameWeight
                 then go_bind (Intn r totalWeight) (\<lambda>offset. Inr (first_above offset 0 weights))
                 else Inr None)
          (\<lambda>hit. case hit of
             Some i \<Rightarrow> go_elem invokers i
           | None \<Rightarrow> go_bind (Intn r' (int (length invokers))) (go_elem invokers)))"

section \<open>Weights of invokers\<close>

lemma configured_weight_nonneg: "0 \<le> configured_weight u name"
  by (simp add: configured_weight_def Let_def)

lemma configured_weight_bound: "configured_weight u name \<le> MaxInt64"
  using GetMethodParamInt64_bounds [of "-1" u name WeightKey]
    GetParamInt_bounds [of DefaultWeight u "RegistryKey @ ''.'' @ WeightKey"]
  by (auto simp: configured_weight_def Let_def in_int64_def)

lemma warmed_weight_le: "0 < weight \<Longrightarrow> warmed_weight weight uptime warm \<le> weight"
  by (simp add: warmed_weight_def Let_def)

lemma warmed_weight_exact:
  assumes w: "0 < weight" and t: "0 < uptime" "uptime < warm"
    and fits: "uptime * weight < 2 ^ 53" "warm < 2 ^ 53"
  shows "warmed_weight weight uptime warm = max 1 (uptime * weight div warm)"
proof -
  have "uptime * 1 \<le> uptime * weight" "1 * weight \<le> uptime * weight"
    using w t by (intro mult_mono; simp)+
  with fits have small: "uptime < 2 ^ 53" "weight < 2 ^ 53" by linarith+
  let ?calc = "fl64 (of_int (uptime * weight) / of_int warm)"
  have calc: "fdiv (fmul (float_of_int uptime) (float_of_int weight)) (float_of_int warm) = ?calc"
    using w t fits small fl64_of_int [of uptime] fl64_of_int [of weight] fl64_of_int [of warm]
      fl64_of_int [of "uptime * weight"]
    by (simp add: fdiv_def fmul_def float_of_int_def)
  have floor: "\<lfloor>?calc\<rfloor> = uptime * weight div warm"
    using w t fits by (intro floor_fl64_div) auto
  have nonneg: "0 \<le> ?calc" using w t by (intro fl64_nonneg) auto
  have "uptime * weight \<le> warm * weight" using w t by (intro mult_right_mono) auto
  then have "uptime * weight div warm \<le> warm * weight div warm" using t by (intro zdiv_mono1) auto
  then have le: "uptime * weight div warm \<le> weight" using t by simp
  have "0 \<le> uptime * weight div warm" using w t by (simp add: pos_imp_zdiv_nonneg_iff)
  then have int: "int_of_float ?calc = uptime * weight div warm"
    using nonneg floor le small by (simp add: int_of_float_def in_int64_def)
  show ?thesis
  proof (cases "?calc < 1")
    case True
    then have "\<lfloor>?calc\<rfloor> < 1" by linarith
    with True show ?thesis unfolding floor by (simp add: warmed_weight_def calc)
  next
    case False
    then have "1 \<le> \<lfloor>?calc\<rfloor>" by linarith
    with False le show ?thesis unfolding floor warmed_weight_def calc Let_def int by simp
  qed
qed

lemma GetWeightAt_nonneg: "0 \<le> GetWeightAt ivk invocation now"
  by (simp add: GetWeightAt_def Let_def)

lemma GetWeightAt_le: "GetWeightAt ivk call now \<le> configured_weight (GetURL ivk) (MethodName call)"
  using warmed_weight_le configured_weight_nonneg by (simp add: GetWeightAt_def Let_def)

lemma GetWeightAt_int64: "in_int64 (GetWeightAt ivk call now)"
  using GetWeightAt_nonneg [of ivk call now] GetWeightAt_le [of ivk call now]
    configured_weight_bound [of "GetURL ivk" "MethodName call"]
  by (simp add: in_int64_def)

text \<open>
  C36.  An invoker's weight lies between zero and its configured weight.  It is the configured
  weight whenever the invoker has no remote timestamp or is not inside its warm-up period, and
  inside that period, as long as the products stay within the 53 bits a \<^verbatim>\<open>float64\<close> represents
  exactly, the floating-point code computes the integer ramp \<open>uptime * weight div warmup\<close>, at
  least one.
\<close>

theorem GetWeightAt_warmup:
  fixes ivk invocation now
  defines "u \<equiv> GetURL ivk"
  defines "weight \<equiv> configured_weight u (MethodName invocation)"
  defines "uptime \<equiv> wrap64 (now - GetParamInt u RemoteTimestampKey now)"
  defines "warm \<equiv> GetParamInt u WarmupKey DefaultWarmup"
  shows "0 \<le> GetWeightAt ivk invocation now \<and> GetWeightAt ivk invocation now \<le> weight \<and>
    (GetParam u RemoteTimestampKey '''' = '''' \<longrightarrow> GetWeightAt ivk invocation now = weight) \<and>
    (\<not> (0 < uptime \<and> uptime < warm) \<longrightarrow> GetWeightAt ivk invocation now = weight) \<and>
    (0 < uptime \<and> uptime < warm \<and> 0 < weight \<and> uptime * weight < 2 ^ 53 \<and> warm < 2 ^ 53 \<longrightarrow>
       GetWeightAt ivk invocation now = max 1 (uptime * weight div warm))"
proof -
  have w: "0 \<le> weight" by (simp add: weight_def configured_weight_nonneg)
  have eq: "GetWeightAt ivk invocation now =
      (let w' = (if 0 < weight \<and> 0 < uptime \<and> uptime < warm then warmed_weight weight uptime warm
                 else weight) in if w' < 0 then 0 else w')"
    by (simp add: GetWeightAt_def Let_def weight_def uptime_def warm_def u_def)
  have no_ts: "uptime = 0" if "GetParam u RemoteTimestampKey '''' = ''''"
    using that by (simp add: uptime_def GetParamInt_def ParseInt_Nil wrap64_def)
  show ?thesis
    using w warmed_weight_le [of weight uptime warm] warmed_weight_exact [of weight uptime warm] no_ts
    by (auto simp: eq Let_def)
qed

definition sample_peer :: "nat \<Rightarrow> string \<Rightarrow> string \<Rightarrow> string \<Rightarrow> invoker" where
  "sample_peer n ip weight started =
     \<lparr>ivk_id = n, GetURL = NewURLWithOptions [WithProtocol ''tri'', WithIp ip, WithPort ''20000'',
        WithParamsValue WeightKey weight, WithParamsValue RemoteTimestampKey started]\<rparr>"

definition sample_call :: RPCInvocation where
  "sample_call = NewRPCInvocation ''Greet'' (Some []) None"

lemmas lb_eval = sample_peer_def sample_call_def NewRPCInvocation_def MethodName_def url_eval
  GetParamInt_def GetParamBool_def GetMethodParamInt64_def GetMethodParamInt_def methods_key_def
  GetParam_def Values_Get_def configured_weight_def ParseInt_def ParseUint10_def is_digit_def
  of_char_def Let_def

theorem GetWeightAt_warmup_witness:
  "GetWeightAt (sample_peer 1 ''10.0.0.1'' ''100'' ''1000'') sample_call 1060 = 10 \<and>
   GetWeightAt (sample_peer 1 ''10.0.0.1'' ''100'' ''1000'') sample_call 2000 = 100"
  using GetWeightAt_warmup [of "sample_peer 1 ''10.0.0.1'' ''100'' ''1000''" sample_call 1060]
    GetWeightAt_warmup [of "sample_peer 1 ''10.0.0.1'' ''100'' ''1000''" sample_call 2000]
  by (simp add: lb_eval wrap64_def)

section \<open>The strategy interface\<close>

text \<open>
  What a cluster invoker relies on: \<^verbatim>\<open>Select\<close> returns one of the candidates or nil, and most
  strategies return a candidate whenever there is one.  \<open>'e\<close> is everything a strategy reads
  besides its arguments: the clock, random draws, statistics, its own state.
\<close>

locale load_balance =
  fixes sel :: "'e \<Rightarrow> RPCInvocation \<Rightarrow> invoker list \<Rightarrow> invoker option go"
  assumes sel_member: "sel e call ivks = Inr (Some ivk) \<Longrightarrow> ivk \<in> set ivks"

locale total_load_balance = load_balance +
  assumes sel_total: "ivks \<noteq> [] \<Longrightarrow> \<exists>ivk. sel e call ivks = Inr (Some ivk)"
begin

lemma selects_candidate: "ivks \<noteq> [] \<Longrightarrow> \<exists>ivk \<in> set ivks. sel e call ivks = Inr (Some ivk)"
  using sel_total sel_member by blast

lemma selects_only: "sel e call [ivk] = Inr (Some ivk)"
  using selects_candidate [of "[ivk]" e call] by simp

end

text \<open>
  The same contract for a strategy that threads its state \<open>'l\<close> through the calls.  A strategy
  whose inputs are drawn afresh for each call is one whose state holds the draws to come.
\<close>

type_synonym 'l balancer = "RPCInvocation \<Rightarrow> invoker list \<Rightarrow> 'l \<Rightarrow> invoker option go \<times> 'l"

locale balancer =
  fixes lb :: "'l balancer"
  assumes picks_member: "lb call ivks l = (Inr (Some ivk), l') \<Longrightarrow> ivk \<in> set ivks"
    and picks_one: "ivks \<noteq> [] \<Longrightarrow> \<exists>ivk l'. lb call ivks l = (Inr (Some ivk), l')"

definition with_draws ::
  "('e \<Rightarrow> RPCInvocation \<Rightarrow> invoker list \<Rightarrow> invoker option go) \<Rightarrow> ('s \<times> (nat \<Rightarrow> 'e) \<times> nat) balancer" where
  "with_draws sel call ivks l = (case l of (s, draws, n) \<Rightarrow> (sel (draws n) call ivks, (s, draws, Suc n)))"

sublocale total_load_balance \<subseteq> drawn: balancer "with_draws sel"
proof unfold_locales
  show "ivk \<in> set ivks" if "with_draws sel call ivks l = (Inr (Some ivk), l')" for call ivks l ivk l'
    using that sel_member by (auto simp: with_draws_def split: prod.split_asm)
  show "\<exists>ivk l'. with_draws sel call ivks l = (Inr (Some ivk), l')" if "ivks \<noteq> []" for call ivks l
    using sel_total [OF that] by (auto simp: with_draws_def split: prod.split)
qed

section \<open>Random picks in proportion to the weights\<close>

fun psums :: "int \<Rightarrow> int list \<Rightarrow> int list" where
  "psums T [] = []"
| "psums T (w # ws) = (T + w) # psums (T + w) ws"

lemma length_random_scan:
  "length (snd (snd (random_scan call now ivks i T same ws))) = length ws + length ivks"
  by (induction ivks arbitrary: i T same ws) (auto simp: Let_def)

lemma first_above_range:
  "first_above offset i ws = Some k \<Longrightarrow> i \<le> k \<and> k < i + int (length ws)"
  by (induction ws arbitrary: i) (fastforce split: if_splits)+

lemma nth_Intn_mem [simp]: "xs \<noteq> [] \<Longrightarrow> xs ! nat (int r mod int (length xs)) \<in> set xs"
  by (intro nth_mem) (simp add: nat_less_iff)

lemma Random_Select_total:
  assumes "invokers \<noteq> []"
  shows "\<exists>ivk \<in> set invokers. Random_Select now r r' call invokers = Inr (Some ivk)"
proof -
  obtain T same ws where scan: "random_scan call now invokers 0 0 True [] = (T, same, ws)"
    by (cases "random_scan call now invokers 0 0 True []") auto
  have len: "length ws = length invokers"
    using length_random_scan [of call now invokers 0 0 True "[]"] scan by simp
  have uniform: "0 \<le> int r' mod int (length invokers)" "int r' mod int (length invokers) < int (length invokers)"
    using assms by auto
  show ?thesis
  proof (cases "T > 0 \<and> \<not> same")
    case True
    then show ?thesis
    proof (cases "first_above (int r mod T) 0 ws")
      case (Some k)
      with first_above_range [OF Some] len True show ?thesis
        using assms by (auto simp: Random_Select_def scan)
    qed (use True uniform assms in \<open>auto simp: Random_Select_def scan\<close>)
  qed (use uniform assms in \<open>auto simp: Random_Select_def scan\<close>)
qed

lemma Random_Select_member:
  "Random_Select now r r' call invokers = Inr (Some ivk) \<Longrightarrow> ivk \<in> set invokers"
  using Random_Select_total [of invokers now r r' call]
  by (cases invokers) (auto simp: Random_Select_def Intn_def)

interpretation random_lb: total_load_balance "\<lambda>(now, r, r'). Random_Select now r r'"
  by unfold_locales (auto dest: Random_Select_member, meson Random_Select_total)

lemma first_above_psums:
  assumes "\<forall>w \<in> set ws. 0 \<le> w" "T \<le> offset"
  shows "first_above offset i (psums T ws) = Some (i + int j) \<longleftrightarrow>
           j < length ws \<and> T + sum_list (take j ws) \<le> offset \<and> offset < T + sum_list (take (Suc j) ws)"
  using assms
proof (induction ws arbitrary: i T j)
  case (Cons w ws)
  show ?case
  proof (cases "offset < T + w")
    case True
    have "0 \<le> sum_list (take k ws)" for k
      using Cons.prems(1) by (auto intro!: sum_list_nonneg dest: in_set_takeD)
    with True Cons.prems show ?thesis by (cases j) (auto simp: algebra_simps, smt)
  next
    case False
    with Cons.prems have IH: "first_above offset (i + 1) (psums (T + w) ws) = Some (i + 1 + int k) \<longleftrightarrow>
        k < length ws \<and> T + w + sum_list (take k ws) \<le> offset \<and>
        offset < T + w + sum_list (take (Suc k) ws)" for k
      by (intro Cons.IH) auto
    show ?thesis
    proof (cases j)
      case 0
      then show ?thesis using False first_above_range [of offset "i + 1" "psums (T + w) ws" i] by auto
    next
      case (Suc k)
      then show ?thesis using False IH [of k] by (simp add: algebra_simps)
    qed
  qed
qed simp

fun same_so_far :: "int \<Rightarrow> int \<Rightarrow> int list \<Rightarrow> bool" where
  "same_so_far i T [] \<longleftrightarrow> True"
| "same_so_far i T (w # ws) \<longleftrightarrow> T + w = w * (i + 1) \<and> same_so_far (i + 1) (T + w) ws"

lemma same_so_far_const: "0 < i \<Longrightarrow> same_so_far i (c * i) ws \<longleftrightarrow> (\<forall>w \<in> set ws. w = c)"
proof (induction ws arbitrary: i)
  case (Cons w ws)
  have "c * i + w = w * (i + 1) \<longleftrightarrow> w = c" using Cons.prems by (auto simp: algebra_simps)
  moreover have "c * i + c = c * (i + 1)" by (simp add: algebra_simps)
  ultimately show ?case using Cons by auto
qed simp

lemma same_so_far_iff: "same_so_far 0 0 ws \<longleftrightarrow> (\<forall>v \<in> set ws. \<forall>w \<in> set ws. v = w)"
  using same_so_far_const [of 1 "hd ws" "tl ws"] by (cases ws) auto

lemma random_scan_exact:
  assumes "0 \<le> T" "0 \<le> i" "T + sum_list (map (\<lambda>ivk. GetWeightAt ivk call now) ivks) < 2 ^ 63"
    and "\<forall>ivk \<in> set ivks. GetWeightAt ivk call now * (i + int (length ivks)) < 2 ^ 63"
  shows "random_scan call now ivks i T same acc =
    (let ws = map (\<lambda>ivk. GetWeightAt ivk call now) ivks
     in (T + sum_list ws, same \<and> same_so_far i T ws, acc @ psums T ws))"
  using assms
proof (induction ivks arbitrary: i T same acc)
  case (Cons ivk ivks)
  let ?w = "GetWeightAt ivk call now" and ?ws = "map (\<lambda>ivk. GetWeightAt ivk call now) ivks"
  have nonneg: "0 \<le> GetWeightAt v call now" for v using GetWeightAt_nonneg by blast
  have "0 \<le> sum_list ?ws" by (intro sum_list_nonneg) (auto simp: nonneg)
  then have T': "wrap64 (T + ?w) = T + ?w"
    using Cons.prems nonneg [of ivk] by (simp add: in_int64_def)
  have "?w * (i + 1) \<le> ?w * (i + int (length (ivk # ivks)))"
    using nonneg [of ivk] by (intro mult_left_mono) auto
  with Cons.prems have "?w * (i + 1) < 2 ^ 63" by simp
  moreover have "0 \<le> ?w * (i + 1)" using nonneg [of ivk] Cons.prems(2) by (intro mult_nonneg_nonneg) auto
  ultimately have m: "wrap64 (?w * (i + 1)) = ?w * (i + 1)"
    by (intro wrap64_id) (simp add: in_int64_def)
  have "random_scan call now ivks (i + 1) (T + ?w) b a =
      (T + ?w + sum_list ?ws, b \<and> same_so_far (i + 1) (T + ?w) ?ws, a @ psums (T + ?w) ?ws)" for a b
    using Cons.IH [of "T + ?w" "i + 1" b a] Cons.prems nonneg [of ivk]
    by (simp add: Let_def algebra_simps)
  then show ?case by (cases same) (simp_all add: Let_def T' m)
qed simp

lemma card_nat_interval:
  "0 \<le> a \<Longrightarrow> card {r :: nat. a \<le> int r \<and> int r < b} = nat (b - a)"
proof -
  assume a: "0 \<le> a"
  have "{r :: nat. a \<le> int r \<and> int r < b} = {nat a ..< nat b}" using a by (auto simp: nat_le_iff zless_nat_eq_int_zless)
  then show ?thesis using a by (simp add: nat_diff_distrib')
qed

lemma sum_list_take_mono:
  "\<forall>w \<in> set ws. (0::int) \<le> w \<Longrightarrow> sum_list (take k ws) \<le> sum_list ws"
proof -
  assume "\<forall>w \<in> set ws. (0::int) \<le> w"
  then have "0 \<le> sum_list (drop k ws)" by (auto intro!: sum_list_nonneg dest: in_set_dropD)
  moreover have "sum_list ws = sum_list (take k ws) + sum_list (drop k ws)"
    by (metis append_take_drop_id sum_list_append)
  ultimately show ?thesis by simp
qed

lemma sum_list_le_length:
  "\<forall>w \<in> set ws. w \<le> (c::int) \<Longrightarrow> sum_list ws \<le> c * int (length ws)"
  by (induction ws) (auto simp: algebra_simps)

lemma weights_total_fits:
  assumes "\<forall>ivk \<in> set ivks. GetWeightAt ivk call now * int (length ivks) < 2 ^ 63"
  shows "sum_list (map (\<lambda>ivk. GetWeightAt ivk call now) ivks) < 2 ^ 63"
proof (cases "ivks = []")
  case False
  let ?ws = "map (\<lambda>ivk. GetWeightAt ivk call now) ivks"
  have "Max (set ?ws) \<in> set ?ws" using False by (intro Max_in) auto
  then have "Max (set ?ws) * int (length ivks) < 2 ^ 63" using assms by auto
  moreover have "sum_list ?ws \<le> Max (set ?ws) * int (length ?ws)"
    by (intro sum_list_le_length ballI Max_ge) auto
  ultimately show ?thesis by (simp del: set_map)
qed simp

text \<open>The scan of all candidates, and which index each offset of the weighted draw selects.\<close>

lemma random_weighted_index:
  assumes "\<forall>ivk \<in> set ivks. GetWeightAt ivk call now * int (length ivks) < 2 ^ 63"
  defines "ws \<equiv> map (\<lambda>ivk. GetWeightAt ivk call now) ivks"
  shows "random_scan call now ivks 0 0 True [] =
           (sum_list ws, same_so_far 0 0 ws, psums 0 ws)"
    and "0 \<le> offset \<Longrightarrow> first_above offset 0 (psums 0 ws) = Some (int j) \<longleftrightarrow>
           j < length ws \<and> sum_list (take j ws) \<le> offset \<and> offset < sum_list (take j ws) + ws ! j"
proof -
  show "random_scan call now ivks 0 0 True [] =
           (sum_list ws, same_so_far 0 0 ws, psums 0 ws)"
    using random_scan_exact [of 0 0 call now ivks True "[]"] assms weights_total_fits [OF assms(1)]
    by (simp add: Let_def)
  show "first_above offset 0 (psums 0 ws) = Some (int j) \<longleftrightarrow>
           j < length ws \<and> sum_list (take j ws) \<le> offset \<and> offset < sum_list (take j ws) + ws ! j"
    if "0 \<le> offset"
    using first_above_psums [of ws 0 offset 0 j] that
    by (auto simp: ws_def GetWeightAt_nonneg take_Suc_conv_app_nth)
qed

lemma first_above_psums_hit:
  "offset < T + sum_list ws \<Longrightarrow> T \<le> offset \<Longrightarrow>
   \<exists>j < length ws. first_above offset i (psums T ws) = Some (i + int j)"
proof (induction ws arbitrary: i T)
  case (Cons w ws)
  show ?case
  proof (cases "offset < T + w")
    case False
    with Cons.prems Cons.IH [of "T + w" "i + 1"] obtain j where
      "j < length ws" "first_above offset (i + 1) (psums (T + w) ws) = Some (i + 1 + int j)" by auto
    with False show ?thesis by (intro exI [of _ "Suc j"]) simp
  qed (intro exI [of _ 0], simp)
qed simp

lemma Random_Select_weighted:
  assumes "\<forall>ivk \<in> set ivks. GetWeightAt ivk call now * int (length ivks) < 2 ^ 63"
    and "2 \<le> length ivks" "v \<in> set ivks" "w \<in> set ivks" "GetWeightAt v call now \<noteq> GetWeightAt w call now"
  defines "ws \<equiv> map (\<lambda>ivk. GetWeightAt ivk call now) ivks"
  assumes r: "int r < sum_list ws"
  shows "\<exists>j < length ivks. first_above (int r) 0 (psums 0 ws) = Some (int j) \<and>
           Random_Select now r r' call ivks = Inr (Some (ivks ! j))"
proof -
  obtain j where j: "j < length ivks" "first_above (int r) 0 (psums 0 ws) = Some (int j)"
    using first_above_psums_hit [of "int r" 0 ws 0] r by (auto simp: ws_def)
  have "\<not> same_so_far 0 0 ws" using assms(3-5) by (auto simp: ws_def same_so_far_iff)
  then have scan: "random_scan call now ivks 0 0 True [] = (sum_list ws, False, psums 0 ws)"
    using random_weighted_index(1) [OF assms(1)] by (simp add: ws_def)
  show ?thesis using j assms(2) r by (intro exI [of _ j]) (simp add: Random_Select_def scan)
qed

text \<open>
  C18.  Random load balancing picks in proportion to the weights: when the candidates are distinct
  and do not all weigh the same, exactly \<open>w\<close> of the \<open>total\<close> equally likely values of the
  generator select a candidate of weight \<open>w\<close>; when they all weigh the same the pick is the
  uniform draw.  Weights times the number of candidates must fit 63 bits.
\<close>

theorem Random_Select_proportional:
  assumes fits: "\<forall>ivk \<in> set ivks. GetWeightAt ivk call now * int (length ivks) < 2 ^ 63"
    and "distinct ivks" "i < length ivks" "2 \<le> length ivks"
  shows "if \<forall>v \<in> set ivks. \<forall>w \<in> set ivks. GetWeightAt v call now = GetWeightAt w call now
         then Random_Select now r r' call ivks = Inr (Some (ivks ! nat (int r' mod int (length ivks))))
         else card {r. int r < sum_list (map (\<lambda>ivk. GetWeightAt ivk call now) ivks) \<and>
                       Random_Select now r r' call ivks = Inr (Some (ivks ! i))} =
              nat (GetWeightAt (ivks ! i) call now)"
proof (cases "\<forall>v \<in> set ivks. \<forall>w \<in> set ivks. GetWeightAt v call now = GetWeightAt w call now")
  case True
  let ?ws = "map (\<lambda>ivk. GetWeightAt ivk call now) ivks"
  have "same_so_far 0 0 ?ws" using True unfolding same_so_far_iff set_map by blast
  then have scan: "random_scan call now ivks 0 0 True [] = (sum_list ?ws, True, psums 0 ?ws)"
    using random_weighted_index(1) [OF fits] by simp
  have "0 < int (length ivks)" using assms(3) by linarith
  with assms(4) have "Random_Select now r r' call ivks =
      Inr (Some (ivks ! nat (int r' mod int (length ivks))))"
    by (simp add: Random_Select_def scan)
  then show ?thesis unfolding if_P [OF True] .
next
  case False
  let ?ws = "map (\<lambda>ivk. GetWeightAt ivk call now) ivks"
  let ?S = "sum_list (take i ?ws)"
  have nonneg: "\<forall>w \<in> set ?ws. 0 \<le> w" by (simp add: GetWeightAt_nonneg)
  have S: "0 \<le> ?S" using nonneg by (auto intro!: sum_list_nonneg dest!: in_set_takeD)
  have up: "?S + ?ws ! i \<le> sum_list ?ws"
    using sum_list_take_mono [OF nonneg, of "Suc i"] assms(3) by (simp add: take_Suc_conv_app_nth)
  have pick: "Random_Select now r r' call ivks = Inr (Some (ivks ! i)) \<longleftrightarrow>
      ?S \<le> int r \<and> int r < ?S + ?ws ! i" if r: "int r < sum_list ?ws" for r
  proof -
    obtain j where "j < length ivks" "first_above (int r) 0 (psums 0 ?ws) = Some (int j)"
      "Random_Select now r r' call ivks = Inr (Some (ivks ! j))"
      using False Random_Select_weighted [OF fits assms(4) _ _ _ r] by blast
    with random_weighted_index(2) [OF fits, of "int r" i] assms show ?thesis
      by (auto simp: nth_eq_iff_index_eq)
  qed
  have "{r. int r < sum_list ?ws \<and> Random_Select now r r' call ivks = Inr (Some (ivks ! i))} =
        {r. ?S \<le> int r \<and> int r < ?S + ?ws ! i}"
    using up pick by fastforce
  then show ?thesis unfolding if_not_P [OF False]
    using card_nat_interval [OF S, of "?S + ?ws ! i"] assms(3) by simp
qed

lemma sample_peer_weight:
  assumes "ParseInt weight 64 = Some k" "0 \<le> k"
  shows "GetWeightAt (sample_peer n ip weight []) sample_call now = k"
proof -
  let ?u = "GetURL (sample_peer n ip weight [])"
  have w: "weight \<noteq> []" using assms by auto
  have "GetParam ?u WeightKey [] = weight" "GetParam ?u RemoteTimestampKey [] = []"
    "GetParam ?u (methods_key ''Greet'' WeightKey) [] = []"
    using w by (simp_all add: sample_peer_def url_eval GetParam_def Values_Get_def methods_key_def)
  then have "configured_weight ?u ''Greet'' = k"
    using assms by (simp add: configured_weight_def GetMethodParamInt64_def GetMethodParamInt_def
        GetParamInt_def Let_def)
  with \<open>GetParam ?u RemoteTimestampKey [] = []\<close> show ?thesis
    using assms by (simp add: GetWeightAt_def GetParamInt_def Let_def sample_call_def
        NewRPCInvocation_def MethodName_def wrap64_def)
qed

lemma sample_weights [simp]:
  "GetWeightAt (sample_peer n ip ''1'' []) sample_call now = 1"
  "GetWeightAt (sample_peer n ip ''2'' []) sample_call now = 2"
  "GetWeightAt (sample_peer n ip ''3'' []) sample_call now = 3"
  by (intro sample_peer_weight; simp add: ParseInt_def ParseUint10_def is_digit_def of_char_def)+

theorem Random_Select_proportional_witness:
  "card {r. int r < 4 \<and>
     Random_Select 0 r 0 sample_call [sample_peer 1 ''10.0.0.1'' ''1'' [], sample_peer 2 ''10.0.0.2'' ''3'' []]
       = Inr (Some (sample_peer 2 ''10.0.0.2'' ''3'' []))} = 3"
proof -
  let ?ivks = "[sample_peer 1 ''10.0.0.1'' ''1'' [], sample_peer 2 ''10.0.0.2'' ''3'' []]"
  have "distinct ?ivks" by (simp add: sample_peer_def)
  then show ?thesis
    using Random_Select_proportional [of ?ivks sample_call 0 1 0 0] by simp
qed

end
