(* ===== verification/Least_Active.thy ===== *)
theory Least_Active
  imports Load_Balance
begin

text \<open>
  \<^verbatim>\<open>cluster/loadbalance/leastactive\<close>: the strategy that picks among the candidates with the fewest
  calls in flight, weighted when their weights differ.
\<close>

section \<open>The strategy\<close>

text \<open>
  The scan over the candidates; \<open>leastIndexes\<close> is the used prefix of the array, so its length is
  the source's \<^verbatim>\<open>leastCount\<close>.  \<^verbatim>\<open>GetMethodStatus\<close> may create status entries, so the statistics
  are threaded through.
\<close>

record least_scan =
  leastActive :: int
  totalWeight :: int
  firstWeight :: int
  leastIndexes :: "int list"
  sameWeight :: bool
  weights :: "int list"

definition least_init :: least_scan where
  "least_init =
     \<lparr>leastActive = -1, totalWeight = 0, firstWeight = 0, leastIndexes = [], sameWeight = True,
      weights = []\<rparr>"

definition least_step :: "int \<Rightarrow> int \<Rightarrow> int \<Rightarrow> least_scan \<Rightarrow> least_scan" where
  "least_step i act afterWarmup st =
     (let st = st\<lparr>weights := weights st @ [afterWarmup]\<rparr>
      in if leastActive st = -1 \<or> act < leastActive st
         then st\<lparr>leastActive := act, leastIndexes := [i], totalWeight := afterWarmup,
                 firstWeight := afterWarmup, sameWeight := True\<rparr>
         else if act = leastActive st
         then st\<lparr>leastIndexes := leastIndexes st @ [i],
                 totalWeight := wrap64 (totalWeight st + afterWarmup),
                 sameWeight := (if sameWeight st \<and> afterWarmup \<noteq> firstWeight st then False
                                else sameWeight st)\<rparr>
         else st)"

fun least_loop ::
  "RPCInvocation \<Rightarrow> int \<Rightarrow> invoker list \<Rightarrow> int \<Rightarrow> least_scan \<Rightarrow> rpc_state \<Rightarrow> least_scan \<times> rpc_state" where
  "least_loop invocation now [] i st s = (st, s)"
| "least_loop invocation now (ivk # invokers) i st s =
     (let (status, s) = GetMethodStatus (GetURL ivk) (MethodName invocation) s;
          afterWarmup = GetWeightAt ivk invocation now
      in least_loop invocation now invokers (i + 1) (least_step i (GetActive status) afterWarmup st) s)"

text \<open>The weighted pick among the least active; \<^const>\<open>None\<close> when the loop runs to its end.\<close>

fun weighted_least :: "int list \<Rightarrow> int \<Rightarrow> int list \<Rightarrow> int option go" where
  "weighted_least ws offsetWeight [] = Inr None"
| "weighted_least ws offsetWeight (leastIndex # rest) =
     go_bind (go_nth ws leastIndex) (\<lambda>w.
       let offsetWeight = wrap64 (offsetWeight - w)
       in if offsetWeight < 0 then Inr (Some leastIndex) else weighted_least ws offsetWeight rest)"

definition LeastActive_Select ::
  "int \<Rightarrow> nat \<Rightarrow> nat \<Rightarrow> rpc_state \<Rightarrow> RPCInvocation \<Rightarrow> invoker list \<Rightarrow> invoker option go \<times> rpc_state" where
  "LeastActive_Select now r r' s invocation invokers =
     (if length invokers = 0 then (Inr None, s)
      else if length invokers = 1 then (go_elem invokers 0, s)
      else case least_loop invocation now invokers 0 least_init s of (st, s) \<Rightarrow>
        (if length (leastIndexes st) = 1
         then go_bind (go_nth (leastIndexes st) 0) (go_elem invokers)
         else go_bind (if \<not> sameWeight st \<and> totalWeight st > 0
                       then go_bind (Intn r (totalWeight st)) (\<lambda>k.
                              weighted_least (weights st) (wrap64 (k + 1)) (leastIndexes st))
                       else Inr None)
                (\<lambda>hit. case hit of
                   Some i \<Rightarrow> go_elem invokers i
                 | None \<Rightarrow> go_bind (Intn r' (int (length (leastIndexes st))))
                             (\<lambda>k. go_bind (go_nth (leastIndexes st) k) (go_elem invokers))), s))"

section \<open>The scan\<close>

fun least_run :: "int \<Rightarrow> (int \<times> int) list \<Rightarrow> least_scan \<Rightarrow> least_scan" where
  "least_run i [] st = st"
| "least_run i ((act, w) # xs) st = least_run (i + 1) xs (least_step i act w st)"

lemma GetMethodStatus_stable:
  "fst (GetMethodStatus v name' (snd (GetMethodStatus u name s))) = fst (GetMethodStatus v name' s)"
proof -
  have "map_of (methodStatistics (snd (GetMethodStatus u name s))) =
      (map_of (methodStatistics s))(Key u \<mapsto>
        snd (LoadOrStore name zero_status (fst (LoadOrStore (Key u) [] (methodStatistics s)))))"
    by (auto simp: GetMethodStatus_def Let_def split: prod.split)
       (metis fun_upd_upd map_of_LoadOrStore snd_conv)
  then show ?thesis
    by (simp add: fst_GetMethodStatus fst_LoadOrStore [of "Key v"] fst_LoadOrStore [of name']
        fst_LoadOrStore [of name] fst_LoadOrStore [of "Key u"] map_of_LoadOrStore)
qed

definition active_of :: "rpc_state \<Rightarrow> RPCInvocation \<Rightarrow> invoker \<Rightarrow> int" where
  "active_of s call ivk = GetActive (fst (GetMethodStatus (GetURL ivk) (MethodName call) s))"

lemma least_loop_run:
  "fst (least_loop call now ivks i st s) =
     least_run i (map (\<lambda>ivk. (active_of s call ivk, GetWeightAt ivk call now)) ivks) st"
proof (induction ivks arbitrary: i st s)
  case (Cons ivk ivks)
  obtain status s' where g: "GetMethodStatus (GetURL ivk) (MethodName call) s = (status, s')"
    by (cases "GetMethodStatus (GetURL ivk) (MethodName call) s")
  have "active_of s' call = active_of s call"
    using GetMethodStatus_stable [of _ _ "GetURL ivk" "MethodName call" s] g
    by (intro ext) (simp add: active_of_def)
  moreover have "active_of s call ivk = GetActive status" by (simp add: active_of_def g)
  ultimately show ?case using g Cons by simp
qed simp

definition least_set :: "(int \<times> int) list \<Rightarrow> nat list" where
  "least_set xs = filter (\<lambda>k. fst (xs ! k) = Min (set (map fst xs))) [0..<length xs]"

definition all_weigh :: "int \<Rightarrow> (int \<times> int) list \<Rightarrow> nat list \<Rightarrow> bool" where
  "all_weigh f xs ks \<longleftrightarrow> (\<forall>k \<in> set ks. snd (xs ! k) = f)"

lemma all_weigh_append [simp]:
  "all_weigh f xs (ks @ ks') \<longleftrightarrow> all_weigh f xs ks \<and> all_weigh f xs ks'"
  "all_weigh f xs [k] \<longleftrightarrow> snd (xs ! k) = f"
  "all_weigh f xs [] \<longleftrightarrow> True"
  by (auto simp: all_weigh_def)

definition least_inv :: "(int \<times> int) list \<Rightarrow> least_scan \<Rightarrow> bool" where
  "least_inv xs st \<longleftrightarrow>
     weights st = map snd xs \<and> leastIndexes st = map int (least_set xs) \<and>
     leastActive st = (if xs = [] then -1 else Min (set (map fst xs))) \<and>
     totalWeight st = wrap64 (\<Sum>k\<leftarrow>least_set xs. snd (xs ! k)) \<and>
     (xs \<noteq> [] \<longrightarrow> firstWeight st = snd (xs ! hd (least_set xs)) \<and>
        (sameWeight st \<longleftrightarrow> all_weigh (firstWeight st) xs (least_set xs)))"

lemma least_set_append:
  assumes "xs \<noteq> []"
  shows "least_set (xs @ [(a, w)]) =
    (if a < Min (set (map fst xs)) then [length xs]
     else if a = Min (set (map fst xs)) then least_set xs @ [length xs] else least_set xs)"
proof -
  have fin: "finite (set (map fst xs))" "set (map fst xs) \<noteq> {}" using assms by auto
  have m: "Min (set (map fst (xs @ [(a, w)]))) = min a (Min (set (map fst xs)))"
    using fin by (simp add: Un_commute)
  have le: "\<not> fst (xs ! k) < Min (fst ` set xs)" if "k < length xs" for k
    using that by (simp add: not_less Min_le)
  show ?thesis unfolding least_set_def m
    by (auto simp: nth_append min_def le intro!: filter_cong filter_False)
qed

lemma least_set_props:
  assumes "xs \<noteq> []"
  shows "least_set xs \<noteq> []" and "k \<in> set (least_set xs) \<Longrightarrow> k < length xs"
    and "k \<in> set (least_set xs) \<Longrightarrow> j < length xs \<Longrightarrow> fst (xs ! k) \<le> fst (xs ! j)"
proof -
  have fin: "finite (set (map fst xs))" "set (map fst xs) \<noteq> {}" using assms by auto
  from Min_in [OF this] obtain k where "k < length xs" "fst (xs ! k) = Min (set (map fst xs))"
    by (metis (no_types, lifting) in_set_conv_nth length_map nth_map)
  then show "least_set xs \<noteq> []" by (auto simp: least_set_def filter_empty_conv)
  show "k < length xs" if "k \<in> set (least_set xs)" for k using that by (simp add: least_set_def)
  show "fst (xs ! k) \<le> fst (xs ! j)" if "k \<in> set (least_set xs)" "j < length xs" for k j
    using that fin by (auto simp: least_set_def)
qed

lemma least_step_inv:
  assumes "least_inv xs st" and "\<forall>x \<in> set xs. 0 \<le> fst x" and "0 \<le> a"
    and "in_int64 w"
  shows "least_inv (xs @ [(a, w)]) (least_step (int (length xs)) a w st)"
proof (cases "xs = []")
  case True
  with assms show ?thesis by (simp add: least_inv_def least_step_def least_set_def Let_def)
next
  case False
  let ?m = "Min (fst ` set xs)"
  have nonneg: "0 \<le> ?m" using False assms(2) by auto
  have nth: "snd ((xs @ [(a, w)]) ! k) = snd (xs ! k)" if "k \<in> set (least_set xs)" for k
    using least_set_props(2) [OF False that] by (simp add: nth_append)
  have ne: "least_set xs \<noteq> []" using least_set_props(1) [OF False] .
  then have hd: "snd ((xs @ [(a, w)]) ! hd (least_set xs)) = snd (xs ! hd (least_set xs))"
    by (intro nth) simp
  have m: "Min (set (map fst (xs @ [(a, w)]))) = min a ?m"
    using False by (simp add: Un_commute)
  have sum: "(\<Sum>k\<leftarrow>least_set xs. snd ((xs @ [(a, w)]) ! k)) = (\<Sum>k\<leftarrow>least_set xs. snd (xs ! k))"
    by (intro arg_cong [where f = sum_list] map_cong refl nth)
  have same: "all_weigh f (xs @ [(a, w)]) (least_set xs) \<longleftrightarrow> all_weigh f xs (least_set xs)" for f
    unfolding all_weigh_def by (intro ball_cong refl) (simp add: nth)
  note st = assms(1) [unfolded least_inv_def] and ls = least_set_append [OF False, of a w]
  consider "a < ?m" | "?m = a" | "?m < a" by linarith
  then show ?thesis
  proof cases
    case 1
    then show ?thesis unfolding least_inv_def ls m using st False assms(4)
      by (simp add: least_step_def Let_def)
  next
    case 2
    then show ?thesis unfolding least_inv_def ls m using st False ne nonneg
      by (simp add: least_step_def Let_def sum hd same) blast
  next
    case 3
    have "leastActive st = ?m" using st False by simp
    then have "leastActive st \<noteq> -1" "\<not> a < leastActive st" "a \<noteq> leastActive st"
      using 3 nonneg by linarith+
    then have "least_step (int (length xs)) a w st = st\<lparr>weights := weights st @ [w]\<rparr>"
      by (simp add: least_step_def)
    moreover have "min a ?m = ?m" using 3 by linarith
    moreover have "least_set (xs @ [(a, w)]) = least_set xs"
      using 3 unfolding ls set_map by (metis less_asym less_irrefl)
    ultimately show ?thesis unfolding least_inv_def m using st False ne
      by (simp add: sum hd same)
  qed
qed

lemma least_run_inv:
  assumes "least_inv xs st" "\<forall>x \<in> set (xs @ ys). 0 \<le> fst x" "\<forall>x \<in> set ys. in_int64 (snd x)"
  shows "least_inv (xs @ ys) (least_run (int (length xs)) ys st)"
  using assms
proof (induction ys arbitrary: xs st)
  case (Cons y ys)
  obtain a w where y: "y = (a, w)" by (cases y)
  have "least_inv (xs @ [y]) (least_step (int (length xs)) a w st)"
    unfolding y using Cons.prems y by (intro least_step_inv) auto
  from Cons.IH [OF this] Cons.prems show ?case by (simp add: y add.commute)
qed simp

lemma least_init_inv: "least_inv [] least_init"
  by (simp add: least_inv_def least_init_def least_set_def wrap64_def)

abbreviation actives_weights :: "rpc_state \<Rightarrow> RPCInvocation \<Rightarrow> int \<Rightarrow> invoker list \<Rightarrow> (int \<times> int) list" where
  "actives_weights s call now ivks \<equiv> map (\<lambda>ivk. (active_of s call ivk, GetWeightAt ivk call now)) ivks"

lemma least_loop_inv:
  assumes "\<forall>ivk \<in> set ivks. 0 \<le> active_of s call ivk"
  shows "least_inv (actives_weights s call now ivks) (fst (least_loop call now ivks 0 least_init s))"
  using least_run_inv [OF least_init_inv, of "actives_weights s call now ivks"] assms
  by (simp add: least_loop_run GetWeightAt_int64)

text \<open>The weighted pick is the first cumulative weight above the offset.\<close>

lemma weighted_least_first_above:
  assumes "\<forall>k \<in> set ks. k < length ws" "\<forall>w \<in> set ws. 0 \<le> w \<and> w < 2 ^ 63" "0 \<le> T" "T \<le> offset"
    "offset < 2 ^ 63"
  shows "weighted_least ws (offset - T) (map int ks) =
           Inr (map_option (\<lambda>j. int (ks ! nat (j - i))) (first_above offset i (psums T (map ((!) ws) ks))))"
  using assms
proof (induction ks arbitrary: T i)
  case (Cons k ks)
  have w: "0 \<le> ws ! k" "ws ! k < 2 ^ 63" using Cons.prems by simp_all
  have "- (2 ^ 63) \<le> offset - T - ws ! k" "offset - T - ws ! k < 2 ^ 63"
    using w Cons.prems(3-5) by linarith+
  then have "in_int64 (offset - T - ws ! k)" by (simp add: in_int64_def)
  then have w64: "wrap64 (offset - T - ws ! k) = offset - (T + ws ! k)" by simp
  show ?case
  proof (cases "offset < T + ws ! k")
    case True
    then show ?thesis using Cons.prems by (simp add: w64)
  next
    case False
    then have IH: "weighted_least ws (offset - (T + ws ! k)) (map int ks) =
        Inr (map_option (\<lambda>j. int (ks ! nat (j - (i + 1))))
          (first_above offset (i + 1) (psums (T + ws ! k) (map ((!) ws) ks))))"
      using Cons.prems w by (intro Cons.IH) auto
    have shift: "ks ! nat (j - (i + 1)) = (k # ks) ! nat (j - i)"
      if "first_above offset (i + 1) (psums (T + ws ! k) (map ((!) ws) ks)) = Some j" for j
    proof -
      have "nat (j - i) = Suc (nat (j - (i + 1)))" using first_above_range [OF that] by linarith
      then show ?thesis by simp
    qed
    show ?thesis using False Cons.prems(1)
      by (simp add: w64 IH shift cong: option.map_cong_simp)
  qed
qed simp

section \<open>What least active selects\<close>

lemma psums_length [simp]: "length (psums T ws) = length ws"
  by (induction ws arbitrary: T) auto

lemma weighted_least_range:
  assumes "weighted_least ws offset ks = Inr (Some k)"
  shows "k \<in> set ks"
  using assms by (induction ks arbitrary: offset) (auto simp: go_bind_Inr_iff Let_def split: if_splits)

lemma weighted_least_Inr:
  "\<forall>k \<in> set ks. 0 \<le> k \<and> k < int (length ws) \<Longrightarrow> \<exists>hit. weighted_least ws offset ks = Inr hit"
  by (induction ks arbitrary: offset) (auto simp: Let_def)

definition least_ok :: "int \<Rightarrow> least_scan \<Rightarrow> bool" where
  "least_ok i st \<longleftrightarrow> int (length (weights st)) = i \<and> (\<forall>k \<in> set (leastIndexes st). 0 \<le> k \<and> k < i) \<and>
     (if i = 0 then leastActive st = -1 else leastIndexes st \<noteq> [])"

lemma least_ok_loop:
  "least_ok i st \<Longrightarrow> 0 \<le> i \<Longrightarrow>
   least_ok (i + int (length ivks)) (fst (least_loop call now ivks i st s))"
proof (induction ivks arbitrary: i st s)
  case (Cons ivk ivks)
  have "least_ok (i + 1) (least_step i a w st)" for a w
    using Cons.prems by (auto simp: least_ok_def least_step_def Let_def split: if_splits)
  from Cons.IH [OF this] Cons.prems show ?case
    by (simp add: Let_def split: prod.split) (metis add.assoc)
qed simp

text \<open>Any outcome of the two draws is one of the indexes the scan collected.\<close>

lemma LeastActive_pick:
  fixes s call now
  assumes "2 \<le> length ivks"
  defines "st \<equiv> fst (least_loop call now ivks 0 least_init s)"
  shows "\<exists>k \<in> set (leastIndexes st). 0 \<le> k \<and> k < int (length ivks) \<and>
           fst (LeastActive_Select now r r' s call ivks) = Inr (Some (ivks ! nat k))"
proof -
  have "least_ok 0 least_init" by (simp add: least_ok_def least_init_def)
  from least_ok_loop [OF this, of ivks call now s] assms(1)
  have ok: "length (weights st) = length ivks" "\<forall>k \<in> set (leastIndexes st). 0 \<le> k \<and> k < int (length ivks)"
    and ne: "leastIndexes st \<noteq> []"
    by (auto simp: least_ok_def st_def split: if_splits)
  define hit where "hit = (if \<not> sameWeight st \<and> totalWeight st > 0
      then go_bind (Intn r (totalWeight st)) (\<lambda>k. weighted_least (weights st) (wrap64 (k + 1)) (leastIndexes st))
      else Inr None)"
  let ?u = "\<lambda>k. go_bind (go_nth (leastIndexes st) k) (go_elem ivks)"
  have len: "length ivks \<noteq> 0" "length ivks \<noteq> 1" using assms(1) by auto
  have sel: "fst (LeastActive_Select now r r' s call ivks) =
      (if length (leastIndexes st) = 1 then ?u 0
       else go_bind hit (\<lambda>hit. case hit of Some i \<Rightarrow> go_elem ivks i
              | None \<Rightarrow> go_bind (Intn r' (int (length (leastIndexes st)))) ?u))"
    using len unfolding LeastActive_Select_def hit_def st_def case_prod_beta by simp
  have uniform: "?u (int j) = Inr (Some (ivks ! nat (leastIndexes st ! j)))"
    if "j < length (leastIndexes st)" for j
    using that ok(2) by simp
  define j where "j = nat (int r' mod int (length (leastIndexes st)))"
  have j: "j < length (leastIndexes st)" using ne by (simp add: j_def nat_less_iff)
  have u: "go_bind (Intn r' (int (length (leastIndexes st)))) ?u = Inr (Some (ivks ! nat (leastIndexes st ! j)))"
    using uniform [OF j] ne by (simp add: j_def)
  obtain h where h: "hit = Inr h" using ok weighted_least_Inr [of "leastIndexes st" "weights st"]
    by (cases "\<not> sameWeight st \<and> totalWeight st > 0") (auto simp: hit_def)
  have hit: "k \<in> set (leastIndexes st)" if "h = Some k" for k
    using that h by (auto simp: hit_def go_bind_Inr_iff split: if_splits dest!: weighted_least_range)
  have "\<exists>k \<in> set (leastIndexes st). fst (LeastActive_Select now r r' s call ivks) = Inr (Some (ivks ! nat k))"
  proof (cases "length (leastIndexes st) = 1")
    case True
    then show ?thesis unfolding sel using uniform [of 0] nth_mem [of 0 "leastIndexes st"] by auto
  next
    case False
    show ?thesis
    proof (cases h)
      case None
      then show ?thesis unfolding sel h using u False nth_mem [OF j] by auto
    next
      case (Some k)
      then show ?thesis unfolding sel h using hit ok False by auto
    qed
  qed
  then show ?thesis using ok(2) by blast
qed

lemma LeastActive_Select_total:
  assumes "ivks \<noteq> []"
  shows "\<exists>ivk \<in> set ivks. fst (LeastActive_Select now r r' s call ivks) = Inr (Some ivk)"
proof (cases "length ivks = 1")
  case True
  then show ?thesis by (cases ivks) (auto simp: LeastActive_Select_def)
next
  case False
  moreover have "length ivks \<noteq> 0" using assms by simp
  ultimately have "2 \<le> length ivks" by linarith
  from LeastActive_pick [OF this, where now = now and r = r and r' = r' and s = s and call = call] show ?thesis by (auto simp: nat_less_iff)
qed

interpretation leastactive_lb: total_load_balance
  "\<lambda>(now, r, r', s) call ivks. fst (LeastActive_Select now r r' s call ivks)"
proof unfold_locales
  fix e :: "int \<times> nat \<times> nat \<times> rpc_state" and call ivks
  obtain now r r' s where e: "e = (now, r, r', s)" by (cases e)
  show "\<exists>ivk. (case e of (now, r, r', s) \<Rightarrow> \<lambda>call ivks. fst (LeastActive_Select now r r' s call ivks))
          call ivks = Inr (Some ivk)" if "ivks \<noteq> []"
    using LeastActive_Select_total [OF that, of now r r' s call] by (auto simp: e)
  show "ivk \<in> set ivks" if "(case e of (now, r, r', s) \<Rightarrow> \<lambda>call ivks. fst (LeastActive_Select now r r' s call ivks))
          call ivks = Inr (Some ivk)" for ivk
    using that LeastActive_Select_total [of ivks now r r' s call]
    by (cases ivks) (auto simp: e LeastActive_Select_def)
qed

text \<open>
  C29.  Least-active load balancing selects a candidate, and none of the candidates has fewer
  calls of the method in flight than the selected one, whatever the two random draws.
\<close>

theorem LeastActive_Select_minimal:
  assumes "ivks \<noteq> []" "\<forall>ivk \<in> set ivks. 0 \<le> active_of s call ivk"
  shows "\<exists>ivk \<in> set ivks. fst (LeastActive_Select now r r' s call ivks) = Inr (Some ivk) \<and>
           (\<forall>other \<in> set ivks. active_of s call ivk \<le> active_of s call other)"
proof (cases "length ivks = 1")
  case True
  then show ?thesis by (cases ivks) (auto simp: LeastActive_Select_def)
next
  case False
  moreover have "length ivks \<noteq> 0" using assms(1) by simp
  ultimately have "2 \<le> length ivks" by linarith
  let ?xs = "actives_weights s call now ivks"
  have ne: "?xs \<noteq> []" using assms(1) by simp
  from LeastActive_pick [OF \<open>2 \<le> length ivks\<close>, where now = now and r = r and r' = r' and s = s and call = call] least_loop_inv [OF assms(2), of now]
  obtain k where k: "k \<in> set (least_set ?xs)" "k < length ivks"
    "fst (LeastActive_Select now r r' s call ivks) = Inr (Some (ivks ! k))"
    by (auto simp: least_inv_def)
  have "active_of s call (ivks ! k) \<le> active_of s call (ivks ! j)" if "j < length ivks" for j
    using least_set_props(3) [OF ne k(1), of j] that k(2) by simp
  then show ?thesis using k(2,3) by (auto simp: in_set_conv_nth)
qed

lemma active_of_init: "active_of init_rpc_state call ivk = 0"
  by (simp add: active_of_def GetActive_def)

lemma active_of_Begin:
  "active_of (BeginCount u name s) call ivk =
     (if Key (GetURL ivk) = Key u \<and> MethodName call = name then wrap32 (active_of s call ivk + 1)
      else active_of s call ivk)"
  by (simp add: active_of_def GetActive_def BeginCount_def)

theorem LeastActive_Select_minimal_witness:
  "let busy = sample_peer 1 ''10.0.0.1'' ''1'' []; idle = sample_peer 2 ''10.0.0.2'' ''3'' []
   in fst (LeastActive_Select 0 0 0 (BeginCount (GetURL busy) ''Greet'' init_rpc_state)
        sample_call [busy, idle]) = Inr (Some idle)"
proof -
  let ?busy = "sample_peer 1 ''10.0.0.1'' ''1'' []" and ?idle = "sample_peer 2 ''10.0.0.2'' ''3'' []"
  let ?s = "BeginCount (GetURL ?busy) ''Greet'' init_rpc_state"
  have key: "Key (GetURL ?idle) \<noteq> Key (GetURL ?busy)"
    by (simp add: Key_def sample_peer_def url_eval Let_def)
  have name: "MethodName sample_call = ''Greet''"
    by (simp add: sample_call_def NewRPCInvocation_def MethodName_def)
  have "active_of ?s sample_call ?busy = 1" "active_of ?s sample_call ?idle = 0"
    using key name by (simp_all add: active_of_Begin active_of_init)
  then show ?thesis
    using LeastActive_Select_minimal [of "[?busy, ?idle]" ?s sample_call 0 0 0] by (simp add: Let_def)
qed

section \<open>How the weighted draw is distributed\<close>

lemma least_set_all:
  assumes "\<forall>x \<in> set xs. fst x = a"
  shows "least_set xs = [0..<length xs]"
proof -
  have "fst (xs ! k) = Min (set (map fst xs))" if "k < length xs" for k
  proof -
    have "set (map fst xs) = {a}" using assms that by (cases xs) (auto simp: image_constant_conv)
    with assms that show ?thesis by simp
  qed
  then show ?thesis by (simp add: least_set_def)
qed

text \<open>With equally busy candidates of different weights, the index the first draw selects.\<close>

lemma LeastActive_weighted:
  fixes s call now ivks
  defines "ws \<equiv> map (\<lambda>ivk. GetWeightAt ivk call now) ivks"
  assumes "2 \<le> length ivks" "\<forall>ivk \<in> set ivks. active_of s call ivk = a" "0 \<le> a"
    and "\<exists>w \<in> set ws. w \<noteq> hd ws" "sum_list ws < 2 ^ 63 - 1" "int r < sum_list ws"
  shows "fst (LeastActive_Select now r r' s call ivks) =
           (case first_above (int r + 1) 0 (psums 0 ws) of
              Some j \<Rightarrow> go_elem ivks j
            | None \<Rightarrow> Inr (Some (ivks ! nat (int r' mod int (length ivks)))))"
proof -
  let ?xs = "actives_weights s call now ivks"
  define st where "st = fst (least_loop call now ivks 0 least_init s)"
  have inv: "least_inv ?xs st" unfolding st_def using assms(3,4) by (intro least_loop_inv) auto
  have ls: "least_set ?xs = [0..<length ivks]" using least_set_all [of ?xs a] assms(3) by simp
  have ne: "ivks \<noteq> []" using assms(2) by auto
  have nonneg: "\<forall>w \<in> set ws. 0 \<le> w \<and> w < 2 ^ 63"
    using GetWeightAt_nonneg GetWeightAt_int64 by (auto simp: ws_def in_int64_def)
  have lw: "length ws = length ivks" by (simp add: ws_def)
  have snds: "map (\<lambda>k. snd (?xs ! k)) [0..<length ivks] = ws"
    by (rule nth_equalityI) (simp_all add: ws_def)
  have "0 \<le> sum_list ws" using nonneg by (intro sum_list_nonneg) auto
  then have tot: "totalWeight st = sum_list ws"
    using inv assms(6) by (simp add: least_inv_def ls snds in_int64_def)
  have first: "firstWeight st = ws ! 0"
    using inv ne by (simp add: least_inv_def ls upt_conv_Cons ws_def)
  obtain k where k: "k < length ivks" "ws ! k \<noteq> ws ! 0"
    using assms(5) ne lw by (metis hd_conv_nth in_set_conv_nth length_0_conv)
  have "snd (?xs ! k) = ws ! k" using k(1) by (simp add: ws_def)
  with k first have "\<not> all_weigh (firstWeight st) ?xs [0..<length ivks]"
    unfolding all_weigh_def by (metis atLeast0LessThan lessThan_iff set_upt)
  then have same: "\<not> sameWeight st" using inv ne by (simp add: least_inv_def ls)
  have wl: "weighted_least (weights st) (wrap64 (int r + 1)) (leastIndexes st) =
      Inr (first_above (int r + 1) 0 (psums 0 ws))"
  proof -
    have "map_option (\<lambda>j. int ([0..<length ivks] ! nat (j - 0))) (first_above (int r + 1) 0 (psums 0 ws)) =
        first_above (int r + 1) 0 (psums 0 ws)"
    proof (cases "first_above (int r + 1) 0 (psums 0 ws)")
      case (Some j)
      then show ?thesis using first_above_range [OF Some] lw by (simp add: nat_less_iff)
    qed simp
    moreover have "weights st = ws" "leastIndexes st = map int [0..<length ivks]"
      using inv by (simp_all add: least_inv_def ls ws_def comp_def)
    moreover have "map ((!) ws) [0..<length ivks] = ws"
      using map_nth [of ws] lw by simp
    moreover have "wrap64 (int r + 1) = int r + 1" using assms(6,7) by (simp add: in_int64_def)
    ultimately show ?thesis
      using weighted_least_first_above [of "[0..<length ivks]" ws 0 "int r + 1" 0] nonneg assms(6,7) lw
      by simp
  qed
  have len: "length ivks \<noteq> 0" "length ivks \<noteq> 1" "length (leastIndexes st) = length ivks"
    using assms(2) inv by (auto simp: least_inv_def ls)
  have "go_bind (go_nth (leastIndexes st) (int k)) (go_elem ivks) = Inr (Some (ivks ! k))"
    if "k < length ivks" for k using that inv by (simp add: least_inv_def ls)
  from this [of "nat (int r' mod int (length ivks))"]
  have u: "go_bind (Intn r' (int (length ivks))) (\<lambda>k. go_bind (go_nth (leastIndexes st) k) (go_elem ivks)) =
      Inr (Some (ivks ! nat (int r' mod int (length ivks))))"
    using ne by (simp add: nat_less_iff)
  show ?thesis
    using len assms(7) same tot wl u unfolding LeastActive_Select_def case_prod_beta st_def [symmetric]
    by (simp split: option.split)
qed

text \<open>
  The weighted draw of the least-active strategy is off by one.  For equally busy, distinct
  candidates of positive and not all equal weights, the first candidate is selected by one value
  of the generator fewer than its weight (so a first candidate of weight one is never selected
  by weight), every other candidate by exactly its weight, and the largest value of the
  generator selects nobody and falls through to the uniform draw.
\<close>

lemma LeastActive_weighted_off_by_one:
  fixes s call now ivks
  defines "ws \<equiv> map (\<lambda>ivk. GetWeightAt ivk call now) ivks"
  assumes "distinct ivks" "\<forall>ivk \<in> set ivks. active_of s call ivk = a" "0 \<le> a"
    and "\<forall>w \<in> set ws. 1 \<le> w" "\<exists>w \<in> set ws. w \<noteq> hd ws" "sum_list ws < 2 ^ 63 - 1" "i < length ivks"
  shows "card {r. int r + 1 < sum_list ws \<and>
                  fst (LeastActive_Select now r r' s call ivks) = Inr (Some (ivks ! i))} =
           (if i = 0 then nat (ws ! i) - 1 else nat (ws ! i)) \<and>
         fst (LeastActive_Select now (nat (sum_list ws - 1)) r' s call ivks) =
           Inr (Some (ivks ! nat (int r' mod int (length ivks))))"
proof
  let ?S = "sum_list (take i ws)"
  have lw: "length ws = length ivks" by (simp add: ws_def)
  have nonneg: "\<forall>w \<in> set ws. 0 \<le> w" using assms(5) by fastforce
  have two: "2 \<le> length ivks"
  proof (rule ccontr)
    assume "\<not> 2 \<le> length ivks"
    with assms(8) have "length ws = 1" using lw by linarith
    with assms(6) show False by (cases ws) auto
  qed
  note sel = LeastActive_weighted [OF two assms(3,4) assms(6,7) [unfolded ws_def], folded ws_def]
  have S: "0 \<le> ?S" using nonneg by (auto intro!: sum_list_nonneg dest!: in_set_takeD)
  have up: "?S + ws ! i \<le> sum_list ws"
    using sum_list_take_mono [OF nonneg, of "Suc i"] assms(8) lw by (simp add: take_Suc_conv_app_nth)
  have pick: "fst (LeastActive_Select now r r' s call ivks) = Inr (Some (ivks ! i)) \<longleftrightarrow>
      ?S \<le> int r + 1 \<and> int r + 1 < ?S + ws ! i" if r: "int r + 1 < sum_list ws" for r
  proof -
    obtain j where j: "j < length ivks" "first_above (int r + 1) 0 (psums 0 ws) = Some (int j)"
      using first_above_psums_hit [of "int r + 1" 0 ws 0] r lw by auto
    have "fst (LeastActive_Select now r r' s call ivks) = Inr (Some (ivks ! j))"
      using sel [of r r'] j r by simp
    with j first_above_psums [OF nonneg, of 0 "int r + 1" 0 i] assms(2,8) lw show ?thesis
      by (auto simp: nth_eq_iff_index_eq take_Suc_conv_app_nth)
  qed
  have "{r. int r + 1 < sum_list ws \<and>
            fst (LeastActive_Select now r r' s call ivks) = Inr (Some (ivks ! i))} =
        {r. max 0 (?S - 1) \<le> int r \<and> int r < ?S + ws ! i - 1}"
    using up pick by fastforce
  then have card: "card {r. int r + 1 < sum_list ws \<and>
      fst (LeastActive_Select now r r' s call ivks) = Inr (Some (ivks ! i))} =
      nat (?S + ws ! i - 1 - max 0 (?S - 1))"
    using card_nat_interval [of "max 0 (?S - 1)" "?S + ws ! i - 1"] by simp
  have pos: "1 \<le> ?S" if "0 < i"
  proof -
    have "ws ! 0 \<le> ?S" using that lw assms(8) nonneg
      by (cases ws; cases i) (auto intro!: sum_list_nonneg dest!: in_set_takeD)
    moreover have "1 \<le> ws ! 0" using assms(5,8) lw by (metis gr_zeroI less_nat_zero_code nth_mem)
    ultimately show ?thesis by simp
  qed
  show "card {r. int r + 1 < sum_list ws \<and>
      fst (LeastActive_Select now r r' s call ivks) = Inr (Some (ivks ! i))} =
      (if i = 0 then nat (ws ! i) - 1 else nat (ws ! i))"
    unfolding card using pos by (cases "i = 0") (auto simp: nat_diff_distrib')
  have "1 \<le> sum_list ws" using up S assms(5,8) lw by (metis (no_types) add_increasing nth_mem order_trans)
  moreover have "first_above (sum_list ws) 0 (psums 0 ws) = None"
  proof (rule ccontr)
    assume "first_above (sum_list ws) 0 (psums 0 ws) \<noteq> None"
    then obtain k where k: "first_above (sum_list ws) 0 (psums 0 ws) = Some k" by auto
    with first_above_range [OF k] have "first_above (sum_list ws) 0 (psums 0 ws) = Some (0 + int (nat k))" by simp
    then show False
      using first_above_psums [OF nonneg, of 0 "sum_list ws" 0 "nat k"]
        sum_list_take_mono [OF nonneg, of "Suc (nat k)"] S up by (simp add: sum_list_nonneg nonneg)
  qed
  ultimately show "fst (LeastActive_Select now (nat (sum_list ws - 1)) r' s call ivks) =
      Inr (Some (ivks ! nat (int r' mod int (length ivks))))"
    using sel [of "nat (sum_list ws - 1)" r'] by simp
qed

end
