(* ===== verification/P2C.thy ===== *)
theory P2C
  imports Load_Balance
begin

text \<open>
  \<^verbatim>\<open>cluster/loadbalance/p2c\<close> and the local method metrics of \<^verbatim>\<open>cluster/metrics\<close> it reads: of two
  randomly picked candidates, take the one with more remaining capacity.
\<close>

section \<open>Power of two choices\<close>

text \<open>\<^verbatim>\<open>cluster/metrics\<close>: the local method metrics.\<close>

datatype metrics_error = ErrMetricsNotFound | OtherMetricsError

abbreviation HillClimbing :: string where "HillClimbing \<equiv> ''hill-climbing''"

type_synonym local_metrics = "(string \<times> go_any) list"

definition getInvokerKey :: "url \<Rightarrow> string" where
  "getInvokerKey u = Path u"

definition getInstanceKey :: "url \<Rightarrow> string" where
  "getInstanceKey u = Ip u @ '':'' @ Port u"

definition metricsKey :: "url \<Rightarrow> string \<Rightarrow> string \<Rightarrow> string" where
  "metricsKey u name key =
     getInstanceKey u @ ''.'' @ getInvokerKey u @ ''.'' @ name @ ''.'' @ key"

definition GetMethodMetrics :: "local_metrics \<Rightarrow> url \<Rightarrow> string \<Rightarrow> string \<Rightarrow> metrics_error + go_any" where
  "GetMethodMetrics m u name key =
     (case map_of m (metricsKey u name key) of
        Some v \<Rightarrow> Inr v | None \<Rightarrow> Inl ErrMetricsNotFound)"

definition SetMethodMetrics :: "local_metrics \<Rightarrow> url \<Rightarrow> string \<Rightarrow> string \<Rightarrow> go_any \<Rightarrow> local_metrics" where
  "SetMethodMetrics m u name key v = map_put (metricsKey u name key) v m"

text \<open>
  \<^verbatim>\<open>defaultRnd\<close> draws until the second index differs from the first; \<open>rs\<close> lists the draws, and
  the result is \<^const>\<open>None\<close> while the loop has not ended with them.
\<close>

fun redraw :: "int \<Rightarrow> int \<Rightarrow> int \<Rightarrow> nat list \<Rightarrow> (int \<times> int) option" where
  "redraw n i j [] = (if i \<noteq> j then Some (i, j) else None)"
| "redraw n i j (r # rs) = (if i \<noteq> j then Some (i, j) else redraw n i (int r mod n) rs)"

definition defaultRnd :: "nat \<Rightarrow> nat \<Rightarrow> nat list \<Rightarrow> int \<Rightarrow> (int \<times> int) option" where
  "defaultRnd r1 r2 rs n =
     (if n \<le> 1 then Some (0, 0)
      else if n = 2 then Some (0, 1)
      else redraw n (int r1 mod n) (int r2 mod n) rs)"

text \<open>The comparison of the two metrics values once both are present.\<close>

definition p2c_compare :: "invoker list \<Rightarrow> int \<Rightarrow> int \<Rightarrow> go_any \<Rightarrow> go_any \<Rightarrow> invoker option go" where
  "p2c_compare invokers i j remainingI remainingJ =
     (case remainingI of
        GUint64 ri \<Rightarrow>
          (case remainingJ of
             GUint64 rj \<Rightarrow> if ri > rj then go_elem invokers i else go_elem invokers j
           | _ \<Rightarrow> go_elem invokers j)
      | _ \<Rightarrow> go_elem invokers i)"

definition P2C_Select ::
  "(int \<Rightarrow> int \<times> int) \<Rightarrow> (url \<Rightarrow> string \<Rightarrow> string \<Rightarrow> metrics_error + go_any) \<Rightarrow>
   RPCInvocation \<Rightarrow> invoker list \<Rightarrow> invoker option go" where
  "P2C_Select randomPicker m invocation invokers =
     (if length invokers = 0 then Inr None
      else if length invokers = 1 then go_elem invokers 0
      else case randomPicker (int (length invokers)) of (i, j) \<Rightarrow>
        let name = ActualMethodName invocation
        in go_bind (go_nth invokers i) (\<lambda>ivk_i.
           case m (GetURL ivk_i) name HillClimbing of
             Inl err \<Rightarrow> if err = ErrMetricsNotFound then go_elem invokers i else Inr None
           | Inr remainingI \<Rightarrow>
               if remainingI = GNil then go_elem invokers i
               else go_bind (go_nth invokers j) (\<lambda>ivk_j.
                 case m (GetURL ivk_j) name HillClimbing of
                   Inl err \<Rightarrow> if err = ErrMetricsNotFound then go_elem invokers j else Inr None
                 | Inr remainingJ \<Rightarrow>
                     if remainingJ = GNil then go_elem invokers j
                     else p2c_compare invokers i j remainingI remainingJ)))"

section \<open>The two indices\<close>

lemma redraw_Some:
  "redraw n i j rs = Some (i', j') \<Longrightarrow> 0 < n \<Longrightarrow> 0 \<le> j \<Longrightarrow> j < n \<Longrightarrow> i' = i \<and> j' \<noteq> i \<and> 0 \<le> j' \<and> j' < n"
  by (induction rs arbitrary: j) (auto split: if_splits)

lemma redraw_ends: "redraw n i j rs \<noteq> None \<longleftrightarrow> j \<noteq> i \<or> (\<exists>r \<in> set rs. int r mod n \<noteq> i)"
proof (induction rs arbitrary: j)
  case (Cons r rs)
  show ?case using Cons.IH [of "int r mod n"] by (cases "j = i") (simp_all del: not_None_eq)
qed simp

lemma defaultRnd_range:
  assumes "defaultRnd r1 r2 rs n = Some (i, j)" "2 \<le> n"
  shows "0 \<le> i \<and> i < n \<and> 0 \<le> j \<and> j < n \<and> i \<noteq> j"
proof (cases "n = 2")
  case False
  with assms have n: "2 < n" and "redraw n (int r1 mod n) (int r2 mod n) rs = Some (i, j)"
    by (auto simp: defaultRnd_def)
  from redraw_Some [OF this(2)] n show ?thesis by auto
qed (use assms in \<open>auto simp: defaultRnd_def\<close>)

text \<open>
  C31.  The picker of two indices ends as soon as the generator produces an index different from
  the first one, not before, and then returns two different indices in range; with three or more
  candidates it runs forever only on a generator that keeps repeating the first index.
\<close>

theorem defaultRnd_terminates:
  assumes "2 < n"
  shows "(defaultRnd r1 r2 rs n \<noteq> None \<longleftrightarrow> (\<exists>r \<in> set (r2 # rs). int r mod n \<noteq> int r1 mod n)) \<and>
         (\<forall>i j. defaultRnd r1 r2 rs n = Some (i, j) \<longrightarrow>
            i \<noteq> j \<and> 0 \<le> i \<and> i < n \<and> 0 \<le> j \<and> j < n)"
proof -
  have "defaultRnd r1 r2 rs n = redraw n (int r1 mod n) (int r2 mod n) rs"
    using assms by (simp add: defaultRnd_def)
  then have "defaultRnd r1 r2 rs n \<noteq> None \<longleftrightarrow> (\<exists>r \<in> set (r2 # rs). int r mod n \<noteq> int r1 mod n)"
    unfolding redraw_ends by (metis list.set_intros set_ConsD redraw_ends)
  then show ?thesis using defaultRnd_range [of r1 r2 rs n] assms by (metis less_imp_le)
qed

theorem defaultRnd_terminates_witness:
  "defaultRnd 4 7 [1, 2] 3 = Some (1, 2) \<and> defaultRnd 4 7 [1] 3 = None"
  using defaultRnd_terminates [of 3 4 7 "[1, 2]"] defaultRnd_terminates [of 3 4 7 "[1]"]
  by (simp add: defaultRnd_def)

section \<open>The choice\<close>

lemma p2c_compare_member:
  "p2c_compare ivks i j a b = Inr (Some ivk) \<Longrightarrow> ivk \<in> set ivks"
  by (auto simp: p2c_compare_def dest: go_elem_member split: if_split_asm go_any.split_asm)

lemma P2C_Select_member:
  "P2C_Select picker m call ivks = Inr (Some ivk) \<Longrightarrow> ivk \<in> set ivks"
  by (auto simp: P2C_Select_def Let_def elim!: go_bindE
      dest!: go_elem_member p2c_compare_member split: if_split_asm prod.split_asm sum.split_asm)

interpretation p2c_lb: load_balance "\<lambda>(picker, m). P2C_Select picker m"
  by unfold_locales (auto dest: P2C_Select_member)

definition remaining :: "local_metrics \<Rightarrow> RPCInvocation \<Rightarrow> invoker \<Rightarrow> 64 word option" where
  "remaining ms call ivk =
     (case GetMethodMetrics ms (GetURL ivk) (ActualMethodName call) HillClimbing of
        Inr (GUint64 w) \<Rightarrow> Some w | _ \<Rightarrow> None)"

lemma GetMethodMetrics_Set:
  "GetMethodMetrics (SetMethodMetrics ms u name key v) u' name' key' =
     (if metricsKey u' name' key' = metricsKey u name key then Inr v
      else GetMethodMetrics ms u' name' key')"
  by (simp add: GetMethodMetrics_def SetMethodMetrics_def)

lemma GetMethodMetrics_error: "GetMethodMetrics ms u name key = Inl e \<Longrightarrow> e = ErrMetricsNotFound"
  by (simp add: GetMethodMetrics_def split: option.split_asm)

text \<open>
  C30.  On the local metrics, P2C always returns one of the two candidates its picker drew: the
  first one if its remaining capacity is unknown and the second one's is known, the second one
  in the converse case, and the one with strictly more remaining capacity, the second on a tie,
  when both are known.  It never returns nil.
\<close>

theorem P2C_Select_prefers_capacity:
  assumes "2 \<le> length ivks" "defaultRnd r1 r2 rs (int (length ivks)) = Some (i, j)"
  defines "I \<equiv> ivks ! nat i" and "J \<equiv> ivks ! nat j"
  shows "(P2C_Select (\<lambda>_. (i, j)) (GetMethodMetrics ms) call ivks = Inr (Some I) \<or>
          P2C_Select (\<lambda>_. (i, j)) (GetMethodMetrics ms) call ivks = Inr (Some J)) \<and>
    (case (remaining ms call I, remaining ms call J) of
       (Some ri, Some rj) \<Rightarrow> P2C_Select (\<lambda>_. (i, j)) (GetMethodMetrics ms) call ivks =
                              Inr (Some (if rj < ri then I else J))
     | (None, Some rj) \<Rightarrow> P2C_Select (\<lambda>_. (i, j)) (GetMethodMetrics ms) call ivks = Inr (Some I)
     | (Some ri, None) \<Rightarrow> P2C_Select (\<lambda>_. (i, j)) (GetMethodMetrics ms) call ivks = Inr (Some J)
     | (None, None) \<Rightarrow> True)"
proof -
  have r: "0 \<le> i" "i < int (length ivks)" "0 \<le> j" "j < int (length ivks)"
    using defaultRnd_range [OF assms(2)] assms(1) by auto
  have len: "length ivks \<noteq> 0" "length ivks \<noteq> 1" using assms(1) by auto
  show ?thesis
    using r len unfolding I_def J_def
    by (auto dest!: GetMethodMetrics_error simp: P2C_Select_def p2c_compare_def Let_def remaining_def
        split: sum.split metrics_error.split go_any.split option.split)
qed

theorem P2C_Select_prefers_capacity_witness:
  "let a = sample_peer 1 ''10.0.0.1'' ''1'' []; b = sample_peer 2 ''10.0.0.2'' ''1'' [];
       ms = SetMethodMetrics (SetMethodMetrics [] (GetURL a) ''Greet'' HillClimbing (GUint64 7))
              (GetURL b) ''Greet'' HillClimbing (GUint64 9)
   in P2C_Select (\<lambda>_. (0, 1)) (GetMethodMetrics ms) sample_call [a, b] = Inr (Some b)"
proof -
  let ?a = "sample_peer 1 ''10.0.0.1'' ''1'' []" and ?b = "sample_peer 2 ''10.0.0.2'' ''1'' []"
  let ?ms = "SetMethodMetrics (SetMethodMetrics [] (GetURL ?a) ''Greet'' HillClimbing (GUint64 7))
              (GetURL ?b) ''Greet'' HillClimbing (GUint64 9)"
  have name: "ActualMethodName sample_call = ''Greet''"
    by (simp add: ActualMethodName_def IsGenericInvocation_def sample_call_def NewRPCInvocation_def MethodName_def)
  have "metricsKey (GetURL ?a) ''Greet'' HillClimbing \<noteq> metricsKey (GetURL ?b) ''Greet'' HillClimbing"
    by (simp add: metricsKey_def getInstanceKey_def getInvokerKey_def sample_peer_def url_eval)
  then have "remaining ?ms sample_call ?a = Some 7" "remaining ?ms sample_call ?b = Some 9"
    by (simp_all add: remaining_def name GetMethodMetrics_Set)
  moreover have "defaultRnd 0 0 [] 2 = Some (0, 1)" by (simp add: defaultRnd_def)
  ultimately show ?thesis
    using P2C_Select_prefers_capacity [of "[?a, ?b]" 0 0 "[]" 0 1 ?ms sample_call] by simp
qed

end
