(* ===== verification/Round_Robin.thy ===== *)
theory Round_Robin
  imports Load_Balance
begin

text \<open>
  \<^verbatim>\<open>cluster/loadbalance/roundrobin\<close>: smooth weighted round robin.  The package's \<^verbatim>\<open>methodWeightMap\<close>
  keeps, per path and method, a \<^verbatim>\<open>weightedRoundRobin\<close> for every invoker key; times are Unix
  nanoseconds.  The strategy is shown to refine the abstract smooth weighted round robin on a
  list of current weights, whose fairness over a full period is then transferred to it.
\<close>

section \<open>The strategy\<close>

record weightedRoundRobin =
  wr_weight :: int
  wr_current :: int
  wr_lastUpdate :: int

type_synonym cachedInvokers = "(string \<times> weightedRoundRobin) list"

record rr_state =
  methodWeightMap :: "(string \<times> cachedInvokers) list"
  rr_updating :: bool

definition init_rr_state :: rr_state where
  "init_rr_state = \<lparr>methodWeightMap = [], rr_updating = False\<rparr>"

abbreviation recyclePeriod :: int where "recyclePeriod \<equiv> 60 * 1000000000"

definition setWeight :: "int \<Rightarrow> weightedRoundRobin \<Rightarrow> weightedRoundRobin" where
  "setWeight weight wr = wr\<lparr>wr_weight := weight, wr_current := 0\<rparr>"

definition setLastUpdate :: "int \<Rightarrow> weightedRoundRobin \<Rightarrow> weightedRoundRobin" where
  "setLastUpdate now wr = wr\<lparr>wr_lastUpdate := now\<rparr>"

definition increaseCurrent :: "weightedRoundRobin \<Rightarrow> weightedRoundRobin" where
  "increaseCurrent wr = wr\<lparr>wr_current := wrap64 (wr_current wr + wr_weight wr)\<rparr>"

definition Current :: "int \<Rightarrow> weightedRoundRobin \<Rightarrow> weightedRoundRobin" where
  "Current delta wr = wr\<lparr>wr_current := wrap64 (wr_current wr + wrap64 (-1 * delta))\<rparr>"

text \<open>\<^verbatim>\<open>now.Sub(last).Nanoseconds()\<close> saturates at the ends of the 64-bit range.\<close>

definition time_Sub :: "int \<Rightarrow> int \<Rightarrow> int" where
  "time_Sub now u = max MinInt64 (min MaxInt64 (now - u))"

definition cleanIfRequired :: "bool \<Rightarrow> int \<Rightarrow> bool \<Rightarrow> cachedInvokers \<Rightarrow> cachedInvokers" where
  "cleanIfRequired clean now updating invokers =
     (if clean \<and> \<not> updating
      then fold (\<lambda>e m. if time_Sub now (wr_lastUpdate (snd e)) > recyclePeriod then map_del (fst e) m else m)
             invokers invokers
      else invokers)"

record rr_scan =
  rs_clean :: bool
  rs_total :: int
  rs_max :: int
  rs_selected :: "(invoker \<times> string) option"
  rs_cache :: cachedInvokers

definition rr_visit :: "RPCInvocation \<Rightarrow> int \<Rightarrow> invoker \<Rightarrow> rr_scan \<Rightarrow> rr_scan" where
  "rr_visit call now ivk st =
     (let weight = max (GetWeightAt ivk call (now div 1000000000)) 0;
          identifier = Key (GetURL ivk);
          found = (map_of (rs_cache st) identifier \<noteq> None);
          weightRobin = fst (LoadOrStore identifier
             \<lparr>wr_weight = weight, wr_current = 0, wr_lastUpdate = now\<rparr> (rs_cache st));
          weightRobin = (if found then setLastUpdate now weightRobin else weightRobin);
          weightRobin = (if wr_weight weightRobin \<noteq> weight then setWeight weight weightRobin
                         else weightRobin);
          weightRobin = increaseCurrent weightRobin;
          better = (wr_current weightRobin > rs_max st)
      in \<lparr>rs_clean = (rs_clean st \<or> \<not> found),
          rs_total = wrap64 (rs_total st + weight),
          rs_max = (if better then wr_current weightRobin else rs_max st),
          rs_selected = (if better then Some (ivk, identifier) else rs_selected st),
          rs_cache = map_put identifier weightRobin (rs_cache st)\<rparr>)"

definition rr_key :: "RPCInvocation \<Rightarrow> invoker list \<Rightarrow> string" where
  "rr_key call invokers = Path (GetURL (hd invokers)) @ ''.'' @ MethodName call"

definition RoundRobin_Select ::
  "int \<Rightarrow> RPCInvocation \<Rightarrow> invoker list \<Rightarrow> rr_state \<Rightarrow> invoker option go \<times> rr_state" where
  "RoundRobin_Select now call invokers s =
     (if length invokers = 0 then (Inr None, s)
      else if length invokers = 1 then (go_elem invokers 0, s)
      else let key = rr_key call invokers;
               cache = fst (LoadOrStore key [] (methodWeightMap s));
               st = fold (rr_visit call now) invokers
                      \<lparr>rs_clean = False, rs_total = 0, rs_max = MinInt64, rs_selected = None,
                       rs_cache = cache\<rparr>;
               cache = cleanIfRequired (rs_clean st) now (rr_updating s) (rs_cache st)
           in case rs_selected st of
                Some (ivk, identifier) \<Rightarrow>
                  (let cache = (case map_of cache identifier of
                                  Some wr \<Rightarrow> map_put identifier (Current (rs_total st) wr) cache
                                | None \<Rightarrow> cache)
                   in (Inr (Some ivk), s\<lparr>methodWeightMap := map_put key cache (methodWeightMap s)\<rparr>))
              | None \<Rightarrow>
                  (go_elem invokers 0, s\<lparr>methodWeightMap := map_put key cache (methodWeightMap s)\<rparr>))"

section \<open>Abstract smooth weighted round robin\<close>

text \<open>
  The specification: every current weight grows by its weight, the first largest one is picked
  and pays the total.
\<close>

fun argmax :: "int list \<Rightarrow> nat" where
  "argmax [] = 0"
| "argmax [c] = 0"
| "argmax (c # d # cs) = (let j = argmax (d # cs) in if (d # cs) ! j > c then Suc j else 0)"

definition swrr_step :: "int list \<Rightarrow> int list \<Rightarrow> nat \<times> int list" where
  "swrr_step ws cs =
     (let ds = map2 (+) cs ws; i = argmax ds in (i, ds[i := ds ! i - sum_list ws]))"

fun swrr_run :: "nat \<Rightarrow> int list \<Rightarrow> int list \<Rightarrow> nat list \<times> int list" where
  "swrr_run 0 ws cs = ([], cs)"
| "swrr_run (Suc n) ws cs =
     (let (i, cs) = swrr_step ws cs; (is, cs) = swrr_run n ws cs in (i # is, cs))"

lemma argmax_props:
  "cs \<noteq> [] \<Longrightarrow> argmax cs < length cs \<and> (\<forall>c \<in> set cs. c \<le> cs ! argmax cs)"
  by (induction cs rule: argmax.induct) (auto simp: Let_def)

lemma sum_list_map2_add:
  "length cs = length ws \<Longrightarrow> sum_list (map2 (+) cs ws) = sum_list cs + sum_list (ws :: int list)"
  by (induction cs ws rule: list_induct2) auto

lemma sum_list_update_int: "i < length xs \<Longrightarrow> sum_list (xs[i := x]) = sum_list xs - xs ! i + (x :: int)"
  by (induction xs arbitrary: i) (auto split: nat.split)

lemma argmax_sum_pos:
  assumes "0 < sum_list ds"
  shows "0 < ds ! argmax ds"
proof (rule ccontr)
  assume "\<not> 0 < ds ! argmax ds"
  moreover have "ds \<noteq> []" using assms by auto
  ultimately have "\<forall>d \<in> set ds. d \<le> 0" using argmax_props by force
  then have "sum_list ds \<le> 0" by (simp add: sum_list_nonpos)
  with assms show False by simp
qed

text \<open>What every state between two picks satisfies.\<close>

definition swrr_ok :: "int list \<Rightarrow> int list \<Rightarrow> bool" where
  "swrr_ok ws cs \<longleftrightarrow> length cs = length ws \<and> sum_list cs = 0 \<and> (\<forall>c \<in> set cs. - sum_list ws < c)"

lemma swrr_step_ok:
  assumes ok: "swrr_ok ws cs" and ws: "\<forall>w \<in> set ws. 0 \<le> w" "0 < sum_list ws"
    and step: "swrr_step ws cs = (i, cs')"
  shows "swrr_ok ws cs'" "i < length ws"
    "k < length ws \<Longrightarrow> cs' ! k = cs ! k + ws ! k - (if k = i then sum_list ws else 0)"
proof -
  define ds where "ds = map2 (+) cs ws"
  have len: "length cs = length ws" "length ds = length ws" using ok by (simp_all add: swrr_ok_def ds_def)
  have sum: "sum_list ds = sum_list ws" using ok len by (simp add: ds_def sum_list_map2_add swrr_ok_def)
  then have ne: "ds \<noteq> []" using ws(2) by auto
  have i: "i = argmax ds" and cs': "cs' = ds[i := ds ! i - sum_list ws]"
    using step by (auto simp: swrr_step_def ds_def Let_def)
  show il: "i < length ws" using argmax_props [OF ne] i len by simp
  have nth: "ds ! k = cs ! k + ws ! k" if "k < length ws" for k using that len by (simp add: ds_def)
  show val: "cs' ! k = cs ! k + ws ! k - (if k = i then sum_list ws else 0)" if "k < length ws" for k
    using that nth len by (simp add: cs')
  have "sum_list cs' = sum_list ds - ds ! i + (ds ! i - sum_list ws)"
    using il len by (simp add: cs' sum_list_update_int)
  moreover have "- sum_list ws < c" if "c \<in> set cs'" for c
  proof -
    obtain k where k: "k < length ws" "c = cs' ! k" using \<open>c \<in> set cs'\<close> len by (auto simp: cs' in_set_conv_nth)
    have "- sum_list ws < cs ! k" "0 \<le> ws ! k" using ok ws(1) k(1) len by (auto simp: swrr_ok_def)
    moreover have "0 < ds ! i" using argmax_sum_pos sum ws(2) i by simp
    ultimately show ?thesis using val [OF k(1)] nth [OF k(1)] k(2) by (cases "k = i") auto
  qed
  ultimately show "swrr_ok ws cs'" using sum len by (simp add: swrr_ok_def cs')
qed

lemma swrr_run_invariant:
  assumes "swrr_ok ws cs" "\<forall>w \<in> set ws. 0 \<le> w" "0 < sum_list ws" "swrr_run n ws cs = (is, cs')"
  shows "swrr_ok ws cs' \<and> length is = n \<and> set is \<subseteq> {..<length ws} \<and>
    (\<forall>k < length ws. cs' ! k = cs ! k + int n * ws ! k - sum_list ws * int (count_list is k))"
  using assms(1,4)
proof (induction n arbitrary: cs "is")
  case (Suc n)
  obtain i cs1 where step: "swrr_step ws cs = (i, cs1)" by (cases "swrr_step ws cs")
  obtain js where run: "swrr_run n ws cs1 = (js, cs')" "is = i # js"
    using Suc.prems step by (auto split: prod.splits)
  note one = swrr_step_ok [OF Suc.prems(1) assms(2,3) step]
  from Suc.IH [OF one(1) run(1)] one(2,3) show ?case
    by (auto simp: run(2) algebra_simps)
qed simp
text \<open>A full period picks every index as often as its weight and ends where it started.\<close>

lemma swrr_period:
  assumes ws: "\<forall>w \<in> set ws. 0 \<le> w" "0 < sum_list ws"
    and run: "swrr_run (nat (sum_list ws)) ws (replicate (length ws) 0) = (is, cs')"
  shows "k < length ws \<Longrightarrow> int (count_list is k) = ws ! k" "cs' = replicate (length ws) 0"
proof -
  let ?T = "sum_list ws" and ?z = "replicate (length ws) (0::int)"
  have "swrr_ok ws ?z" using ws(2) by (simp add: swrr_ok_def sum_list_replicate)
  note fin = swrr_run_invariant [OF this ws run]
  then have ok: "swrr_ok ws cs'" by blast
  have val: "cs' ! k = ?T * (ws ! k - int (count_list is k))" if "k < length ws" for k
    using fin that ws(2) by (simp add: algebra_simps)
  have le: "int (count_list is k) \<le> ws ! k" if "k < length ws" for k
  proof -
    have "- ?T < cs' ! k" using ok that nth_mem [of k cs'] by (simp add: swrr_ok_def)
    then have "?T * (-1) < ?T * (ws ! k - int (count_list is k))" using val [OF that] by simp
    then have "-1 < ws ! k - int (count_list is k)" using ws(2) by (simp only: mult_less_cancel_left_pos)
    then show ?thesis by simp
  qed
  have len: "length cs' = length ws" "sum_list cs' = 0" using ok by (simp_all add: swrr_ok_def)
  have "\<forall>c \<in> set cs'. 0 \<le> c" using val le ws(2) len(1) by (auto simp: in_set_conv_nth)
  then have zero: "\<forall>c \<in> set cs'. c = 0" using len(2) by (simp add: sum_list_nonneg_eq_0_iff)
  then show "cs' = replicate (length ws) 0" using len(1) by (metis replicate_eqI)
  show "int (count_list is k) = ws ! k" if "k < length ws"
  proof -
    have "cs' ! k = 0" using zero that len(1) by simp
    then have "?T * (ws ! k - int (count_list is k)) = 0" using val [OF that] by simp
    then show ?thesis using ws(2) by simp
  qed
qed

section \<open>The scan refines the specification\<close>

text \<open>The current weight an invoker enters a selection with.\<close>

definition entry_current :: "cachedInvokers \<Rightarrow> int \<Rightarrow> string \<Rightarrow> int" where
  "entry_current cache weight identifier =
     (case map_of cache identifier of
        Some wr \<Rightarrow> if wr_weight wr = weight then wr_current wr else 0
      | None \<Rightarrow> 0)"

abbreviation rr_weight :: "RPCInvocation \<Rightarrow> int \<Rightarrow> invoker \<Rightarrow> int" where
  "rr_weight call now ivk \<equiv> GetWeightAt ivk call (now div 1000000000)"

abbreviation ivk_key :: "invoker \<Rightarrow> string" where
  "ivk_key ivk \<equiv> Key (GetURL ivk)"

definition rr_raised :: "RPCInvocation \<Rightarrow> int \<Rightarrow> cachedInvokers \<Rightarrow> invoker \<Rightarrow> int" where
  "rr_raised call now cache ivk =
     wrap64 (entry_current cache (rr_weight call now ivk) (ivk_key ivk) + rr_weight call now ivk)"

lemma rr_visit_eq:
  "rr_visit call now ivk st =
     \<lparr>rs_clean = (rs_clean st \<or> map_of (rs_cache st) (ivk_key ivk) = None),
      rs_total = wrap64 (rs_total st + rr_weight call now ivk),
      rs_max = (if rr_raised call now (rs_cache st) ivk > rs_max st
                then rr_raised call now (rs_cache st) ivk else rs_max st),
      rs_selected = (if rr_raised call now (rs_cache st) ivk > rs_max st
                     then Some (ivk, ivk_key ivk) else rs_selected st),
      rs_cache = map_put (ivk_key ivk)
        \<lparr>wr_weight = rr_weight call now ivk, wr_current = rr_raised call now (rs_cache st) ivk,
         wr_lastUpdate = now\<rparr> (rs_cache st)\<rparr>"
proof -
  have w: "max (rr_weight call now ivk) 0 = rr_weight call now ivk"
    using GetWeightAt_nonneg by (rule max_absorb1)
  show ?thesis
  proof (cases "map_of (rs_cache st) (ivk_key ivk)")
    case None
    then show ?thesis
      by (simp add: rr_visit_def Let_def w LoadOrStore_def rr_raised_def entry_current_def increaseCurrent_def)
  next
    case (Some wr)
    then show ?thesis
      by (cases wr) (simp add: rr_visit_def Let_def w LoadOrStore_def rr_raised_def entry_current_def
          setLastUpdate_def setWeight_def increaseCurrent_def)
  qed
qed

lemma rr_visit_sel [simp]:
  "rs_total (rr_visit call now ivk st) = wrap64 (rs_total st + rr_weight call now ivk)"
  "rs_max (rr_visit call now ivk st) = (if rr_raised call now (rs_cache st) ivk > rs_max st
     then rr_raised call now (rs_cache st) ivk else rs_max st)"
  "rs_selected (rr_visit call now ivk st) = (if rr_raised call now (rs_cache st) ivk > rs_max st
     then Some (ivk, ivk_key ivk) else rs_selected st)"
  "rs_cache (rr_visit call now ivk st) = map_put (ivk_key ivk)
     \<lparr>wr_weight = rr_weight call now ivk, wr_current = rr_raised call now (rs_cache st) ivk,
      wr_lastUpdate = now\<rparr> (rs_cache st)"
  by (simp_all add: rr_visit_eq)

fun pick_max :: "int \<Rightarrow> 'a option \<Rightarrow> (int \<times> 'a) list \<Rightarrow> 'a option" where
  "pick_max m sel [] = sel"
| "pick_max m sel ((c, x) # rest) = (if c > m then pick_max c (Some x) rest else pick_max m sel rest)"

lemma argmax_Cons:
  "ds \<noteq> [] \<Longrightarrow> argmax (d # ds) = (if \<exists>e \<in> set ds. e > d then Suc (argmax ds) else 0)"
proof -
  assume ne: "ds \<noteq> []"
  have "(\<exists>e \<in> set ds. e > d) \<longleftrightarrow> ds ! argmax ds > d"
    using argmax_props [OF ne] by (meson less_le_trans nth_mem)
  with ne show ?thesis by (cases ds) (simp_all add: Let_def)
qed

lemma pick_max_argmax:
  "length ds = length xs \<Longrightarrow>
   pick_max m sel (zip ds xs) = (if \<exists>d \<in> set ds. d > m then Some (xs ! argmax ds) else sel)"
proof (induction ds xs arbitrary: m sel rule: list_induct2)
  case (Cons d ds x xs)
  show ?case
  proof (cases "ds = []")
    case False
    then show ?thesis using Cons by (auto simp: argmax_Cons)
  qed (use Cons in auto)
qed simp

lemma rr_raised_visit:
  assumes "distinct (map ivk_key (ivk # ivks))" "v \<in> set ivks"
  shows "rr_raised call now (rs_cache (rr_visit call now ivk st)) v = rr_raised call now (rs_cache st) v"
proof -
  have "ivk_key v \<in> set (map ivk_key ivks)" using assms(2) by simp
  then have "ivk_key v \<noteq> ivk_key ivk" using assms(1) by (metis distinct.simps(2) list.simps(9))
  then show ?thesis by (simp add: rr_raised_def entry_current_def)
qed

lemma rr_scan_total:
  "rs_total (fold (rr_visit call now) ivks st) =
     fold (\<lambda>ivk t. wrap64 (t + rr_weight call now ivk)) ivks (rs_total st)"
  by (induction ivks arbitrary: st) simp_all

lemma rr_scan_map_ok:
  "map_ok (rs_cache st) \<Longrightarrow> map_ok (rs_cache (fold (rr_visit call now) ivks st))"
  by (induction ivks arbitrary: st) simp_all

lemma rr_scan_selected:
  "distinct (map ivk_key ivks) \<Longrightarrow>
   rs_selected (fold (rr_visit call now) ivks st) = pick_max (rs_max st) (rs_selected st)
     (map (\<lambda>ivk. (rr_raised call now (rs_cache st) ivk, (ivk, ivk_key ivk))) ivks)"
proof (induction ivks arbitrary: st)
  case (Cons ivk ivks)
  let ?st = "rr_visit call now ivk st"
  have eq: "map (\<lambda>v. (rr_raised call now (rs_cache ?st) v, (v, ivk_key v))) ivks =
      map (\<lambda>v. (rr_raised call now (rs_cache st) v, (v, ivk_key v))) ivks"
    by (intro map_cong refl) (simp only: rr_raised_visit [OF Cons.prems])
  have "distinct (map ivk_key ivks)" using Cons.prems by simp
  note Cons.IH [OF this, of ?st, unfolded eq]
  then show ?case by simp
qed simp

lemma rr_scan_cache:
  "distinct (map ivk_key ivks) \<Longrightarrow>
   map_of (rs_cache (fold (rr_visit call now) ivks st)) k =
     (case find (\<lambda>ivk. ivk_key ivk = k) ivks of
        Some ivk \<Rightarrow> Some \<lparr>wr_weight = rr_weight call now ivk,
                     wr_current = rr_raised call now (rs_cache st) ivk, wr_lastUpdate = now\<rparr>
      | None \<Rightarrow> map_of (rs_cache st) k)"
proof (induction ivks arbitrary: st)
  case (Cons ivk ivks)
  note IH = Cons.IH [of "rr_visit call now ivk st"]
  show ?case
  proof (cases "find (\<lambda>v. ivk_key v = k) ivks")
    case None
    then show ?thesis using IH Cons.prems by simp
  next
    case (Some v)
    then have v: "v \<in> set ivks" "ivk_key v = k" by (auto simp: find_Some_iff)
    then have "ivk_key ivk \<noteq> k" using Cons.prems by auto
    then have "find (\<lambda>v. ivk_key v = k) (ivk # ivks) = Some v" using Some by simp
    then show ?thesis using IH Cons.prems rr_raised_visit [OF Cons.prems v(1), of call now st] Some
      by simp
  qed
qed simp

text \<open>Entries touched by the scan survive the cleaning.\<close>

lemma fold_del_filter:
  "fold (\<lambda>e m. if P e then map_del (fst e) m else m) es m =
     filter (\<lambda>x. \<forall>e \<in> set es. P e \<longrightarrow> fst x \<noteq> fst e) m"
  by (induction es arbitrary: m) (auto simp: map_del_def intro!: filter_cong)

lemma map_of_cleanIfRequired:
  assumes "map_ok cache" "map_of cache k = Some wr" "wr_lastUpdate wr = now"
  shows "map_of (cleanIfRequired clean now busy cache) k = Some wr"
proof -
  have "map_of (filter (\<lambda>x. \<forall>e \<in> set cache. time_Sub now (wr_lastUpdate (snd e)) > recyclePeriod \<longrightarrow>
      fst x \<noteq> fst e) cache) k = Some wr"
  proof (rule map_of_is_SomeI)
    show "(k, wr) \<in> set (filter (\<lambda>x. \<forall>e \<in> set cache.
        time_Sub now (wr_lastUpdate (snd e)) > recyclePeriod \<longrightarrow> fst x \<noteq> fst e) cache)"
      using assms(3) map_of_SomeD [OF assms(2)]
      by (auto simp: time_Sub_def dest!: eq_key_imp_eq_value [OF assms(1) map_of_SomeD [OF assms(2)]])
  qed (simp add: assms(1) map_ok_filter)
  then show ?thesis using assms(2) by (simp add: cleanIfRequired_def fold_del_filter)
qed

section \<open>One selection\<close>

definition rr_cache :: "RPCInvocation \<Rightarrow> invoker list \<Rightarrow> rr_state \<Rightarrow> cachedInvokers" where
  "rr_cache call ivks s = fst (LoadOrStore (rr_key call ivks) [] (methodWeightMap s))"

text \<open>The abstraction: the current weights the candidates enter the next selection with.\<close>

definition rr_currents :: "RPCInvocation \<Rightarrow> int \<Rightarrow> invoker list \<Rightarrow> rr_state \<Rightarrow> int list" where
  "rr_currents call now ivks s =
     map (\<lambda>ivk. entry_current (rr_cache call ivks s) (rr_weight call now ivk) (ivk_key ivk)) ivks"

definition rr_ok :: "rr_state \<Rightarrow> bool" where
  "rr_ok s \<longleftrightarrow> (\<forall>e \<in> set (methodWeightMap s). map_ok (snd e))"

lemma rr_ok_cache: "rr_ok s \<Longrightarrow> map_ok (rr_cache call ivks s)"
  by (auto simp: rr_ok_def rr_cache_def fst_LoadOrStore split: option.split dest!: map_of_SomeD)

lemma rr_ok_put: "rr_ok s \<Longrightarrow> map_ok m \<Longrightarrow> rr_ok (s\<lparr>methodWeightMap := map_put k m (methodWeightMap s)\<rparr>)"
  by (auto simp: rr_ok_def dest!: blacklist_map_put)

lemma map_ok_cleanIfRequired: "map_ok m \<Longrightarrow> map_ok (cleanIfRequired clean now busy m)"
  by (simp add: cleanIfRequired_def fold_del_filter map_ok_filter)

lemma find_key:
  assumes "distinct (map ivk_key ivks)" "k < length ivks"
  shows "find (\<lambda>v. ivk_key v = ivk_key (ivks ! k)) ivks = Some (ivks ! k)"
proof -
  have "\<not> ivk_key (ivks ! j) = ivk_key (ivks ! k)" if "j < k" for j
    using nth_eq_iff_index_eq [OF assms(1), of j k] assms(2) that by simp
  then show ?thesis using assms(2) by (auto simp: find_Some_iff)
qed

lemma fold_total:
  assumes "\<forall>ivk \<in> set ivks. 0 \<le> w ivk" "0 \<le> t" "t + sum_list (map w ivks) < 2 ^ 63"
  shows "fold (\<lambda>ivk t. wrap64 (t + w ivk)) ivks t = t + sum_list (map w ivks)"
  using assms
proof (induction ivks arbitrary: t)
  case (Cons ivk ivks)
  have "0 \<le> sum_list (map w ivks)" using Cons.prems(1) by (auto intro!: sum_list_nonneg)
  then have "wrap64 (t + w ivk) = t + w ivk" using Cons.prems by (simp add: in_int64_def)
  then show ?case using Cons by simp
qed simp

definition rr_bounded :: "int list \<Rightarrow> int list \<Rightarrow> bool" where
  "rr_bounded ws cs \<longleftrightarrow> sum_list ws < 2 ^ 62 \<and> (\<forall>c \<in> set cs. - (2 ^ 62) < c \<and> c < 2 ^ 62)"

lemma member_le_sum: "\<forall>w \<in> set ws. 0 \<le> w \<Longrightarrow> w \<in> set ws \<Longrightarrow> w \<le> sum_list (ws :: int list)"
proof (induction ws)
  case (Cons v ws)
  have "0 \<le> sum_list ws" using Cons.prems(1) by (simp add: sum_list_nonneg)
  with Cons show ?case by fastforce
qed simp

text \<open>What the scan leaves: the raised weights, in the abstract and in the cache.\<close>

lemma rr_scan_result:
  fixes call now ivks s
  defines "ws \<equiv> map (rr_weight call now) ivks" and "cs \<equiv> rr_currents call now ivks s"
  defines "st \<equiv> fold (rr_visit call now) ivks \<lparr>rs_clean = False, rs_total = 0, rs_max = MinInt64,
                  rs_selected = None, rs_cache = rr_cache call ivks s\<rparr>"
  defines "ds \<equiv> map2 (+) cs ws"
  assumes "ivks \<noteq> []" "distinct (map ivk_key ivks)" "rr_ok s" "rr_bounded ws cs"
  shows "rs_total st = sum_list ws"
    and "rs_selected st = Some (ivks ! argmax ds, ivk_key (ivks ! argmax ds))"
    and "k < length ivks \<Longrightarrow> map_of (rs_cache st) (ivk_key (ivks ! k)) =
           Some \<lparr>wr_weight = ws ! k, wr_current = ds ! k, wr_lastUpdate = now\<rparr>"
    and "map_ok (rs_cache st)"
    and "k < length ivks \<Longrightarrow> - (2 ^ 62) < ds ! k \<and> ds ! k < 2 ^ 63"
proof -
  have nonneg: "\<forall>w \<in> set ws. 0 \<le> w" by (auto simp: ws_def GetWeightAt_nonneg)
  have lens: "length cs = length ivks" "length ws = length ivks" by (simp_all add: cs_def rr_currents_def ws_def)
  show range: "- (2 ^ 62) < ds ! k \<and> ds ! k < 2 ^ 63" if "k < length ivks" for k
  proof -
    have "- (2 ^ 62) < cs ! k" "cs ! k < 2 ^ 62" using assms(8) that lens by (auto simp: rr_bounded_def)
    moreover have "0 \<le> ws ! k" "ws ! k \<le> sum_list ws" using nonneg that lens member_le_sum [OF nonneg, of "ws ! k"] by auto
    moreover have "ds ! k = cs ! k + ws ! k" using that lens by (simp add: ds_def)
    ultimately show ?thesis using assms(8) by (simp add: rr_bounded_def)
  qed
  have raised: "rr_raised call now (rr_cache call ivks s) (ivks ! k) = ds ! k" if "k < length ivks" for k
    using range [OF that] that by (simp add: rr_raised_def ds_def cs_def ws_def rr_currents_def in_int64_def)
  have "sum_list ws < 2 ^ 63" using assms(8) by (simp add: rr_bounded_def)
  then show "rs_total st = sum_list ws"
    using fold_total [of ivks "rr_weight call now" 0] by (simp add: st_def rr_scan_total ws_def GetWeightAt_nonneg)
  have zip: "map (\<lambda>ivk. (rr_raised call now (rr_cache call ivks s) ivk, (ivk, ivk_key ivk))) ivks =
      zip ds (map (\<lambda>ivk. (ivk, ivk_key ivk)) ivks)"
    by (rule nth_equalityI) (simp_all add: raised lens ds_def)
  have ld: "length ds = length ivks" using lens by (simp add: ds_def)
  then have ne: "ds \<noteq> []" using assms(5) by auto
  have "ds ! 0 \<in> set ds" using ne by (simp add: nth_mem)
  moreover have "MinInt64 < ds ! 0" using range [of 0] assms(5) by simp
  ultimately have "\<exists>d \<in> set ds. MinInt64 < d" by blast
  then show "rs_selected st = Some (ivks ! argmax ds, ivk_key (ivks ! argmax ds))"
    using argmax_props [OF ne] ld by (simp add: st_def rr_scan_selected [OF assms(6)] zip pick_max_argmax)
  show "map_of (rs_cache st) (ivk_key (ivks ! k)) =
      Some \<lparr>wr_weight = ws ! k, wr_current = ds ! k, wr_lastUpdate = now\<rparr>" if "k < length ivks" for k
    using that raised by (simp add: st_def rr_scan_cache [OF assms(6)] find_key [OF assms(6) that] ws_def)
  show "map_ok (rs_cache st)" unfolding st_def by (intro rr_scan_map_ok) (simp add: rr_ok_cache assms(7))
qed

lemma entry_current_some:
  "map_of cache k = Some wr \<Longrightarrow> wr_weight wr = w \<Longrightarrow> entry_current cache w k = wr_current wr"
  by (simp add: entry_current_def)

lemma RoundRobin_step:
  fixes call now ivks s
  defines "ws \<equiv> map (rr_weight call now) ivks" and "cs \<equiv> rr_currents call now ivks s"
  assumes "2 \<le> length ivks" "distinct (map ivk_key ivks)" "rr_ok s" "rr_bounded ws cs"
  shows "case (RoundRobin_Select now call ivks s, swrr_step ws cs) of
           ((r, s'), (i, cs')) \<Rightarrow>
             r = Inr (Some (ivks ! i)) \<and> rr_ok s' \<and> rr_updating s' = rr_updating s \<and>
             (map (rr_weight call now') ivks = ws \<longrightarrow> rr_currents call now' ivks s' = cs')"
proof -
  define ds where "ds = map2 (+) cs ws"
  define st where "st = fold (rr_visit call now) ivks \<lparr>rs_clean = False, rs_total = 0, rs_max = MinInt64,
                  rs_selected = None, rs_cache = rr_cache call ivks s\<rparr>"
  define i where "i = argmax ds"
  define cache where "cache = cleanIfRequired (rs_clean st) now (rr_updating s) (rs_cache st)"
  define wr where "wr k = \<lparr>wr_weight = ws ! k, wr_current = ds ! k, wr_lastUpdate = now\<rparr>" for k
  have len: "ivks \<noteq> []" "length ivks \<noteq> 0" "length ivks \<noteq> 1" using assms(3) by auto
  have lens: "length cs = length ivks" "length ws = length ivks" "length ds = length ivks"
    by (simp_all add: cs_def rr_currents_def ws_def ds_def)
  note scan = rr_scan_result [OF len(1) assms(4,5) assms(6) [unfolded ws_def cs_def], folded ws_def cs_def,
      folded ds_def st_def, folded i_def]
  have "ds \<noteq> []" using lens len(1) by (metis length_0_conv)
  then have i: "i < length ivks" using argmax_props [of ds] lens by (simp add: i_def)
  have cache_k: "map_of cache (ivk_key (ivks ! k)) = Some (wr k)" if "k < length ivks" for k
    unfolding cache_def wr_def
    by (rule map_of_cleanIfRequired [OF scan(4) scan(3) [OF that]]) simp
  define cache' where "cache' = map_put (ivk_key (ivks ! i)) (Current (sum_list ws) (wr i)) cache"
  have sel: "RoundRobin_Select now call ivks s = (Inr (Some (ivks ! i)),
      s\<lparr>methodWeightMap := map_put (rr_key call ivks) cache' (methodWeightMap s)\<rparr>)"
    unfolding RoundRobin_Select_def Let_def rr_cache_def [symmetric] st_def [symmetric] cache_def [symmetric]
    using len scan(1,2) cache_k [OF i] by (simp add: cache'_def)
  have sums: "0 \<le> sum_list ws" "sum_list ws < 2 ^ 62"
    using assms(6) by (auto simp: ws_def GetWeightAt_nonneg rr_bounded_def intro!: sum_list_nonneg)
  have pay: "wrap64 (ds ! i + wrap64 (- sum_list ws)) = ds ! i - sum_list ws"
    using scan(5) [OF i] sums by (simp add: in_int64_def)
  have "entry_current cache' (ws ! k) (ivk_key (ivks ! k)) = (ds[i := ds ! i - sum_list ws]) ! k"
    if k: "k < length ivks" for k
  proof (cases "k = i")
    case True
    then show ?thesis using pay i lens by (simp add: cache'_def entry_current_def Current_def wr_def)
  next
    case False
    then have "ivk_key (ivks ! k) \<noteq> ivk_key (ivks ! i)"
      using nth_eq_iff_index_eq [OF assms(4), of k i] k i by simp
    then show ?thesis using cache_k [OF k] False lens by (simp add: cache'_def entry_current_def wr_def)
  qed
  then have "rr_currents call now' ivks (snd (RoundRobin_Select now call ivks s)) = ds[i := ds ! i - sum_list ws]"
    if "map (rr_weight call now') ivks = ws"
    using that lens by (intro nth_equalityI)
      (auto simp: rr_currents_def sel rr_cache_def fst_LoadOrStore)
  moreover have "map_ok cache'" using scan(4) by (simp add: cache'_def cache_def map_ok_cleanIfRequired)
  ultimately show ?thesis
    using assms(5) by (simp add: sel swrr_step_def Let_def ds_def [symmetric] i_def [symmetric] rr_ok_put)
qed

text \<open>
  C16.  A round-robin selection among candidates with distinct keys refines one step of smooth
  weighted round robin: it returns the candidate whose raised current weight is the first
  largest, and the current weights it leaves behind, as a later call with the same weights sees
  them, are the abstract ones.  Times, the cleaning of stale entries and other cached candidates
  do not matter; current weights and the total must fit 62 bits so nothing wraps.
\<close>

theorem RoundRobin_refines_swrr:
  fixes call now ivks s
  defines "ws \<equiv> map (rr_weight call now) ivks" and "cs \<equiv> rr_currents call now ivks s"
  assumes "2 \<le> length ivks" "distinct (map ivk_key ivks)" "rr_ok s" "rr_bounded ws cs"
  shows "case (RoundRobin_Select now call ivks s, swrr_step ws cs) of
           ((r, s'), (i, cs')) \<Rightarrow>
             r = Inr (Some (ivks ! i)) \<and> rr_ok s' \<and> rr_updating s' = rr_updating s \<and>
             (map (rr_weight call now') ivks = ws \<longrightarrow> rr_currents call now' ivks s' = cs')"
  using RoundRobin_step [OF assms(3-5) assms(6) [unfolded ws_def cs_def], of now'] by (simp only: ws_def cs_def)

section \<open>A full period\<close>

fun rr_run :: "RPCInvocation \<Rightarrow> invoker list \<Rightarrow> int list \<Rightarrow> rr_state \<Rightarrow> invoker option go list \<times> rr_state" where
  "rr_run call ivks [] s = ([], s)"
| "rr_run call ivks (now # nows) s =
     (let (r, s) = RoundRobin_Select now call ivks s; (rs, s) = rr_run call ivks nows s in (r # rs, s))"

definition rr_abs :: "RPCInvocation \<Rightarrow> invoker list \<Rightarrow> int list \<Rightarrow> int list \<Rightarrow> rr_state \<Rightarrow> bool" where
  "rr_abs call ivks ws cs s \<longleftrightarrow> rr_ok s \<and>
     (\<forall>now. map (rr_weight call now) ivks = ws \<longrightarrow> rr_currents call now ivks s = cs)"

lemma swrr_ok_bounded:
  assumes "swrr_ok ws cs" "0 < sum_list ws" "int (length ws) * sum_list ws < 2 ^ 62"
  shows "rr_bounded ws cs"
proof -
  let ?T = "sum_list ws" and ?ds = "map (\<lambda>c. c + sum_list ws) cs"
  have ok: "length cs = length ws" "sum_list cs = 0" "\<forall>c \<in> set cs. - ?T < c" using assms(1) by (auto simp: swrr_ok_def)
  have "sum_list ?ds = int (length ws) * ?T"
    using ok(1,2) by (simp add: sum_list_addf sum_list_triv)
  moreover have "c + ?T \<le> sum_list ?ds" if "c \<in> set cs" for c
    using member_le_sum [of ?ds "c + ?T"] ok(3) that by fastforce
  ultimately have up: "c + ?T \<le> int (length ws) * ?T" if "c \<in> set cs" for c using that by simp
  have "1 \<le> int (length ws)" using assms(2) by (cases ws) auto
  then have "1 * ?T \<le> int (length ws) * ?T" using assms(2) by (intro mult_right_mono) auto
  then have T: "?T < 2 ^ 62" using assms(3) by simp
  then show ?thesis using up ok(3) assms(2,3) by (fastforce simp: rr_bounded_def)
qed

lemma rr_run_swrr:
  assumes "2 \<le> length ivks" "distinct (map ivk_key ivks)" "0 < sum_list ws"
    "int (length ws) * sum_list ws < 2 ^ 62" "\<forall>now \<in> set nows. map (rr_weight call now) ivks = ws"
    and "rr_abs call ivks ws cs s" "swrr_ok ws cs"
  shows "case (rr_run call ivks nows s, swrr_run (length nows) ws cs) of ((rs, s'), (is, cs')) \<Rightarrow>
           rs = map (\<lambda>i. Inr (Some (ivks ! i))) is \<and> rr_abs call ivks ws cs' s'"
  using assms(5-7)
proof (induction nows arbitrary: s cs)
  case (Cons now nows)
  have now: "map (rr_weight call now) ivks = ws" using Cons.prems(1) by simp
  then have cs: "rr_currents call now ivks s = cs" and ok: "rr_ok s" using Cons.prems(2) by (auto simp: rr_abs_def)
  obtain i cs1 where step: "swrr_step ws cs = (i, cs1)" by (cases "swrr_step ws cs")
  obtain r s1 where sel: "RoundRobin_Select now call ivks s = (r, s1)" by (cases "RoundRobin_Select now call ivks s")
  have nonneg: "\<forall>w \<in> set ws. 0 \<le> w" unfolding now [symmetric] by (auto simp: GetWeightAt_nonneg)
  have one: "r = Inr (Some (ivks ! i))" "rr_abs call ivks ws cs1 s1"
    using RoundRobin_step [OF assms(1,2) ok, of call now] swrr_ok_bounded [OF Cons.prems(3) assms(3,4)]
    unfolding now cs by (auto simp: sel step rr_abs_def)
  have "swrr_ok ws cs1" using swrr_step_ok(1) [OF Cons.prems(3) nonneg assms(3) step] .
  from Cons.IH [OF _ one(2) this] Cons.prems(1) show ?case
    by (auto simp: sel step one(1) split: prod.splits)
qed simp

lemma count_list_map_nth:
  "set is \<subseteq> {..<length xs} \<Longrightarrow> distinct xs \<Longrightarrow> k < length xs \<Longrightarrow>
   count_list (map (\<lambda>i. Inr (Some (xs ! i)) :: 'b + 'a option) is) (Inr (Some (xs ! k))) = count_list is k"
  by (induction "is") (auto simp: nth_eq_iff_index_eq)

text \<open>
  C17.  Round robin is fair: over a period of as many calls as the sum of the weights, starting
  from fresh current weights, every candidate is selected exactly as often as its weight, and
  the current weights are back at zero, so the next period behaves the same.  The candidates
  have distinct keys, keep their weights during the period, and the number of candidates times
  the total weight fits 62 bits.
\<close>

theorem RoundRobin_period_fair:
  assumes "2 \<le> length ivks" "distinct (map ivk_key ivks)" "0 < sum_list ws"
    "int (length ws) * sum_list ws < 2 ^ 62" "\<forall>now \<in> set nows. map (rr_weight call now) ivks = ws"
    and "length nows = nat (sum_list ws)" "rr_abs call ivks ws (replicate (length ivks) 0) s"
  shows "(\<forall>k < length ivks. int (count_list (fst (rr_run call ivks nows s)) (Inr (Some (ivks ! k)))) = ws ! k) \<and>
         rr_abs call ivks ws (replicate (length ivks) 0) (snd (rr_run call ivks nows s))"
proof -
  obtain now where "now \<in> set nows" using assms(3,6) by (cases nows) auto
  then have ws: "map (rr_weight call now) ivks = ws" using assms(5) by blast
  then have nonneg: "\<forall>w \<in> set ws. 0 \<le> w" and len: "length ws = length ivks"
    by (auto simp: GetWeightAt_nonneg)
  let ?z = "replicate (length ws) (0::int)"
  have ok: "swrr_ok ws ?z" using assms(3) by (simp add: swrr_ok_def sum_list_replicate)
  obtain "is" cs where run: "swrr_run (nat (sum_list ws)) ws ?z = (is, cs)" by (cases "swrr_run (nat (sum_list ws)) ws ?z")
  have "set is \<subseteq> {..<length ivks}" using swrr_run_invariant [OF ok nonneg assms(3) run] len by simp
  moreover have "distinct ivks" using assms(2) by (simp add: distinct_map)
  moreover note rr_run_swrr [OF assms(1-5) assms(7) [unfolded len [symmetric]] ok, unfolded assms(6) run]
  ultimately show ?thesis
    using swrr_period [OF nonneg assms(3) run] len by (auto simp: count_list_map_nth split: prod.splits)
qed

lemma rr_abs_init: "rr_abs call ivks ws (replicate (length ivks) 0) init_rr_state"
  by (simp add: rr_abs_def rr_ok_def init_rr_state_def rr_currents_def rr_cache_def LoadOrStore_def
      entry_current_def map_replicate_const)

section \<open>Interface\<close>

lemma rr_scan_selected_mem:
  "rs_selected (fold (rr_visit call now) ivks st) = Some (v, k) \<Longrightarrow>
   v \<in> set ivks \<or> rs_selected st = Some (v, k)"
  by (induction ivks arbitrary: st) (fastforce split: if_split_asm)+

lemma RoundRobin_Select_total:
  assumes "ivks \<noteq> []"
  shows "\<exists>ivk \<in> set ivks. fst (RoundRobin_Select now call ivks s) = Inr (Some ivk)"
proof -
  have "go_elem ivks 0 = Inr (Some (ivks ! 0))" "ivks ! 0 \<in> set ivks" using assms by simp_all
  then show ?thesis using assms
    by (auto simp: RoundRobin_Select_def Let_def split: option.split dest!: rr_scan_selected_mem)
qed

interpretation roundrobin_lb: total_load_balance
  "\<lambda>(now, s) call ivks. fst (RoundRobin_Select now call ivks s)"
proof unfold_locales
  fix e :: "int \<times> rr_state" and call ivks
  obtain now s where e: "e = (now, s)" by (cases e)
  show "\<exists>ivk. (case e of (now, s) \<Rightarrow> \<lambda>call ivks. fst (RoundRobin_Select now call ivks s)) call ivks = Inr (Some ivk)"
    if "ivks \<noteq> []"
    using RoundRobin_Select_total [OF that, of now call s] by (auto simp: e)
  show "ivk \<in> set ivks" if "(case e of (now, s) \<Rightarrow> \<lambda>call ivks. fst (RoundRobin_Select now call ivks s)) call ivks = Inr (Some ivk)" for ivk
    using that RoundRobin_Select_total [of ivks now call s] by (cases ivks) (auto simp: e RoundRobin_Select_def)
qed

section \<open>Sample candidates\<close>

definition rr_samples :: "invoker list" where
  "rr_samples = [sample_peer 1 ''10.0.0.1'' ''1'' [], sample_peer 2 ''10.0.0.2'' ''2'' []]"

lemma rr_samples_props:
  "length rr_samples = 2" "distinct (map ivk_key rr_samples)"
  "map (rr_weight sample_call now) rr_samples = [1, 2]"
  by (simp_all add: rr_samples_def) (simp add: Key_def sample_peer_def url_eval Let_def)

theorem RoundRobin_refines_swrr_witness:
  "fst (RoundRobin_Select 0 sample_call rr_samples init_rr_state) = Inr (Some (rr_samples ! 1))"
proof -
  have cs: "rr_currents sample_call 0 rr_samples init_rr_state = [0, 0]"
    using rr_abs_init [of sample_call rr_samples "[1, 2]"] rr_samples_props
    by (simp add: rr_abs_def numeral_2_eq_2)
  have "swrr_step [1, 2] [0, 0] = (1, [1, -1])" by (simp add: swrr_step_def Let_def)
  then show ?thesis
    using RoundRobin_refines_swrr [of rr_samples init_rr_state sample_call 0 0, unfolded rr_samples_props(3) cs]
      rr_samples_props(1,2)
    by (auto simp: rr_bounded_def rr_ok_def init_rr_state_def split: prod.splits)
qed

theorem RoundRobin_period_fair_witness:
  "let picks = fst (rr_run sample_call rr_samples [5, 6, 7] init_rr_state)
   in count_list picks (Inr (Some (rr_samples ! 0))) = 1 \<and> count_list picks (Inr (Some (rr_samples ! 1))) = 2"
  using RoundRobin_period_fair [of rr_samples "[1, 2]" "[5, 6, 7]" sample_call init_rr_state]
    rr_samples_props rr_abs_init [of sample_call rr_samples "[1, 2]"]
  by (simp add: Let_def numeral_2_eq_2 All_less_Suc)

end
