(* ===== verification/Iwrr.thy ===== *)
theory Iwrr
  imports Load_Balance "HOL-Library.Multiset"
begin

text \<open>
  \<^verbatim>\<open>cluster/loadbalance/iwrr\<close>: interleaved weighted round robin.  An \<^verbatim>\<open>iwrrQueue\<close> is a linked list
  with head and tail pointers; the model keeps the list of its entries, head first.
\<close>

section \<open>The queues and the scheduler\<close>

record iwrrEntry =
  ie_weight :: int
  ie_invoker :: invoker

type_synonym iwrrQueue = "iwrrEntry list"

definition iwrr_push :: "iwrrEntry \<Rightarrow> iwrrQueue \<Rightarrow> iwrrQueue" where
  "iwrr_push entry q = q @ [entry]"

definition iwrr_pop :: "iwrrQueue \<Rightarrow> (iwrrEntry \<times> iwrrQueue) go" where
  "iwrr_pop q = (case q of [] \<Rightarrow> Inl NilDereference | head # rest \<Rightarrow> Inr (head, rest))"

definition iwrr_empty :: "iwrrQueue \<Rightarrow> bool" where
  "iwrr_empty q \<longleftrightarrow> q = []"

record interleavedweightedRoundRobin =
  iw_current :: iwrrQueue
  iw_next :: iwrrQueue
  iw_step :: int

lemma go_mod_abs: "b \<noteq> 0 \<Longrightarrow> \<bar>go_mod a b\<bar> < \<bar>b\<bar>"
proof -
  assume b: "b \<noteq> 0"
  have "b * (sgn b * k) = \<bar>b\<bar> * k" for k by (simp add: mult.assoc [symmetric] abs_sgn)
  moreover have "a = sgn a * \<bar>a\<bar>" by (simp add: sgn_mult_abs)
  ultimately have "go_mod a b = sgn a * (\<bar>a\<bar> mod \<bar>b\<bar>)"
    unfolding go_mod_def go_div_def minus_mult_div_eq_mod [symmetric]
    by (metis (no_types, lifting) mult.assoc mult.left_commute right_diff_distrib)
  then show ?thesis using b by (cases "a = 0") (auto simp: abs_mult)
qed

function gcdInt :: "int \<Rightarrow> int \<Rightarrow> int" where
  "gcdInt a b = (if b = 0 then a else gcdInt b (go_mod a b))"
  by pat_completeness auto
termination
  by (relation "measure (\<lambda>(a, b). nat \<bar>b\<bar>)") (auto simp: go_mod_abs)

declare gcdInt.simps [simp del]

fun iwrr_fill :: "RPCInvocation \<Rightarrow> int \<Rightarrow> invoker list \<Rightarrow> int \<Rightarrow> iwrrQueue \<Rightarrow> int \<times> iwrrQueue" where
  "iwrr_fill call now [] step q = (step, q)"
| "iwrr_fill call now (ivk # ivks) step q =
     (let weight = GetWeightAt ivk call now
      in iwrr_fill call now ivks (gcdInt step weight)
           (iwrr_push \<lparr>ie_weight = weight, ie_invoker = ivk\<rparr> q))"

text \<open>
  \<open>r\<close> is the value of \<^verbatim>\<open>rand.Uint64()\<close>; the entries start at a random offset.  The modulus by the
  number of invokers panics on an empty list.
\<close>

definition NewInterleavedweightedRoundRobin ::
  "nat \<Rightarrow> int \<Rightarrow> RPCInvocation \<Rightarrow> invoker list \<Rightarrow> interleavedweightedRoundRobin go" where
  "NewInterleavedweightedRoundRobin r now call invokers =
     (let size = length invokers
      in if size = 0 then Inl DivideByZero
         else let offset = r mod size;
                  (step, q) = iwrr_fill call now (map (\<lambda>idx. invokers ! ((idx + offset) mod size)) [0..<size]) 0 []
              in Inr \<lparr>iw_current = q, iw_next = [], iw_step = step\<rparr>)"

definition iwrr_Pick ::
  "int \<Rightarrow> RPCInvocation \<Rightarrow> interleavedweightedRoundRobin \<Rightarrow> (invoker \<times> interleavedweightedRoundRobin) go" where
  "iwrr_Pick now call iwrr =
     (let iwrr = (if iwrr_empty (iw_current iwrr)
                  then iwrr\<lparr>iw_current := iw_next iwrr, iw_next := iw_current iwrr\<rparr> else iwrr)
      in go_bind (iwrr_pop (iw_current iwrr)) (\<lambda>(entry, rest).
           let entry = entry\<lparr>ie_weight := wrap64 (ie_weight entry - iw_step iwrr)\<rparr>
           in if ie_weight entry > 0
              then Inr (ie_invoker entry, iwrr\<lparr>iw_current := iwrr_push entry rest\<rparr>)
              else let weight = max (GetWeightAt (ie_invoker entry) call now) 0
                   in Inr (ie_invoker entry,
                        iwrr\<lparr>iw_current := rest, iw_next := iwrr_push (entry\<lparr>ie_weight := weight\<rparr>) (iw_next iwrr)\<rparr>)))"

definition Iwrr_Select ::
  "nat \<Rightarrow> int \<Rightarrow> int \<Rightarrow> RPCInvocation \<Rightarrow> invoker list \<Rightarrow> invoker option go" where
  "Iwrr_Select r now now' call invokers =
     (if length invokers = 0 then Inr None
      else if length invokers = 1 then go_elem invokers 0
      else go_bind (NewInterleavedweightedRoundRobin r now call invokers) (\<lambda>iwrrp.
             go_bind (iwrr_Pick now' call iwrrp) (\<lambda>(ivk, _). Inr (Some ivk))))"

section \<open>The step is the greatest common divisor\<close>

lemma gcdInt_gcd: "0 \<le> a \<Longrightarrow> 0 \<le> b \<Longrightarrow> gcdInt a b = gcd a b"
proof (induction a b rule: gcdInt.induct)
  case (1 a b)
  show ?case
  proof (cases "b = 0")
    case False
    then have "gcdInt b (a mod b) = gcd b (a mod b)"
      using 1 by (simp add: go_mod_nonneg)
    then show ?thesis using False 1 by (simp add: gcdInt.simps [of a] go_mod_nonneg gcd_red_int [symmetric])
  qed (use 1 in \<open>simp add: gcdInt.simps\<close>)
qed

lemma iwrr_fill_eq:
  assumes "0 \<le> step"
  shows "iwrr_fill call now ivks step q =
    (fold gcd (map (\<lambda>ivk. GetWeightAt ivk call now) ivks) step,
     q @ map (\<lambda>ivk. \<lparr>ie_weight = GetWeightAt ivk call now, ie_invoker = ivk\<rparr>) ivks)"
  using assms
  by (induction ivks arbitrary: step q)
     (simp_all add: gcdInt_gcd GetWeightAt_nonneg Let_def iwrr_push_def gcd.commute)

lemma fold_gcd_dvd: "(fold gcd ws (g :: int) dvd g) \<and> (\<forall>w \<in> set ws. fold gcd ws g dvd w)"
  by (induction ws arbitrary: g) (auto intro: dvd_trans)

lemma fold_gcd_nonneg: "0 \<le> g \<Longrightarrow> 0 \<le> fold gcd ws (g :: int)"
  by (induction ws arbitrary: g) auto

section \<open>A round\<close>

text \<open>How many times an entry is still picked before it moves to the next queue.\<close>

definition turns :: "int \<Rightarrow> iwrrEntry \<Rightarrow> nat" where
  "turns step e = (if ie_weight e \<le> 0 then 1 else nat (ie_weight e div step))"

definition queue_ok :: "int \<Rightarrow> iwrrQueue \<Rightarrow> bool" where
  "queue_ok step q \<longleftrightarrow> (\<forall>e \<in> set q. 0 \<le> ie_weight e \<and> ie_weight e < 2 ^ 63 \<and> step dvd ie_weight e)"

fun iwrr_picks :: "int list \<Rightarrow> RPCInvocation \<Rightarrow> interleavedweightedRoundRobin \<Rightarrow>
    (invoker list \<times> interleavedweightedRoundRobin) go" where
  "iwrr_picks [] call iwrr = Inr ([], iwrr)"
| "iwrr_picks (now # nows) call iwrr =
     go_bind (iwrr_Pick now call iwrr) (\<lambda>(ivk, iwrr).
       go_bind (iwrr_picks nows call iwrr) (\<lambda>(ivks, iwrr). Inr (ivk # ivks, iwrr)))"

definition reload :: "RPCInvocation \<Rightarrow> invoker \<Rightarrow> iwrrEntry" where
  "reload call ivk = \<lparr>ie_weight = GetWeightAt ivk call 0, ie_invoker = ivk\<rparr>"

text \<open>Weights that do not change with time, so not those of a candidate that is warming up.\<close>

definition steady :: "RPCInvocation \<Rightarrow> invoker \<Rightarrow> bool" where
  "steady call ivk \<longleftrightarrow> (\<forall>now. GetWeightAt ivk call now = GetWeightAt ivk call 0)"

lemma steadyD: "steady call ivk \<Longrightarrow> GetWeightAt ivk call now = GetWeightAt ivk call 0"
  by (simp add: steady_def)

lemma iwrr_Pick_step:
  assumes "iw_current iwrr = e # q" "0 < iw_step iwrr" "iw_step iwrr < 2 ^ 63" "queue_ok (iw_step iwrr) (e # q)"
    "steady call (ie_invoker e)"
  shows "iwrr_Pick now call iwrr = Inr (ie_invoker e,
    if turns (iw_step iwrr) e = 1
    then iwrr\<lparr>iw_current := q, iw_next := iw_next iwrr @ [reload call (ie_invoker e)]\<rparr>
    else iwrr\<lparr>iw_current := q @ [e\<lparr>ie_weight := ie_weight e - iw_step iwrr\<rparr>]\<rparr>)"
proof -
  define g where "g = iw_step iwrr"
  have e: "0 \<le> ie_weight e" "ie_weight e < 2 ^ 63" "g dvd ie_weight e" using assms(4) by (auto simp: queue_ok_def g_def)
  then obtain m where m: "ie_weight e = g * m" by (elim dvdE)
  have g: "0 < g" "g < 2 ^ 63" using assms(2,3) by (simp_all add: g_def)
  have wrap: "wrap64 (ie_weight e - g) = ie_weight e - g" using e(1,2) g by (simp add: in_int64_def)
  have "0 \<le> m" using e(1) g(1) m by (simp add: zero_le_mult_iff)
  have "ie_weight e - g = g * (m - 1)" by (simp add: m algebra_simps)
  then have pos: "ie_weight e - g > 0 \<longleftrightarrow> 1 < m" using g(1) by (simp add: zero_less_mult_iff)
  have "turns g e = (if m = 0 then 1 else nat m)"
    using g(1) \<open>0 \<le> m\<close> m by (auto simp: turns_def mult_le_0_iff)
  then have one: "turns g e = 1 \<longleftrightarrow> \<not> ie_weight e - g > 0" unfolding pos using \<open>0 \<le> m\<close> by auto
  have w: "max (GetWeightAt (ie_invoker e) call now) 0 = GetWeightAt (ie_invoker e) call 0"
    using steadyD [OF assms(5), of now] GetWeightAt_nonneg [of "ie_invoker e" call 0] by simp
  show ?thesis
    using one wrap w assms(1)
    by (simp add: iwrr_Pick_def iwrr_empty_def iwrr_pop_def iwrr_push_def reload_def g_def [symmetric] Let_def)
qed

lemma turns_pos: "queue_ok g q \<Longrightarrow> 0 < g \<Longrightarrow> e \<in> set q \<Longrightarrow> 1 \<le> turns g e"
proof -
  assume "queue_ok g q" "0 < g" "e \<in> set q"
  then have "g dvd ie_weight e" by (simp add: queue_ok_def)
  then show ?thesis using zdvd_imp_le [of g "ie_weight e"] \<open>0 < g\<close>
    by (cases "ie_weight e \<le> 0") (auto simp: turns_def int_one_le_iff_zero_less pos_imp_zdiv_pos_iff)
qed

lemma turns_dec:
  assumes "0 < g" "g dvd ie_weight e" "turns g e \<noteq> 1"
  shows "turns g (e\<lparr>ie_weight := ie_weight e - g\<rparr>) = turns g e - 1" "0 < ie_weight e - g"
proof -
  obtain m where m: "ie_weight e = g * m" using assms(2) by (elim dvdE)
  have m2: "2 \<le> m"
    using assms(1,3) m by (auto simp: turns_def mult_le_0_iff split: if_splits)
  have dec: "ie_weight e - g = g * (m - 1)" by (simp add: m algebra_simps)
  show "0 < ie_weight e - g" unfolding dec using assms(1) m2 by simp
  then show "turns g (e\<lparr>ie_weight := ie_weight e - g\<rparr>) = turns g e - 1"
    using assms(1) m2 m dec by (simp add: turns_def mult_le_0_iff)
qed

lemma iwrr_round:
  assumes "queue_ok (iw_step iwrr) (iw_current iwrr)" "0 < iw_step iwrr" "iw_step iwrr < 2 ^ 63"
    "\<forall>e \<in> set (iw_current iwrr). steady call (ie_invoker e)" "length nows = sum_list (map (turns (iw_step iwrr)) (iw_current iwrr))"
  shows "\<exists>picks iwrr'. iwrr_picks nows call iwrr = Inr (picks, iwrr') \<and>
    mset picks = (\<Sum>e\<leftarrow>iw_current iwrr. replicate_mset (turns (iw_step iwrr) e) (ie_invoker e)) \<and>
    iw_current iwrr' = [] \<and> iw_step iwrr' = iw_step iwrr \<and>
    mset (iw_next iwrr') = mset (iw_next iwrr) + image_mset (\<lambda>e. reload call (ie_invoker e)) (mset (iw_current iwrr))"
  using assms
proof (induction nows arbitrary: iwrr)
  case Nil
  have "iw_current iwrr = []"
  proof (rule ccontr)
    assume ne: "iw_current iwrr \<noteq> []"
    then have "turns (iw_step iwrr) (hd (iw_current iwrr)) = 0" using Nil.prems(5) by simp
    then show False using turns_pos [OF Nil.prems(1,2), of "hd (iw_current iwrr)"] ne by simp
  qed
  then show ?case by simp
next
  case (Cons now nows)
  let ?g = "iw_step iwrr"
  obtain e q where cur: "iw_current iwrr = e # q" using Cons.prems(5) by (cases "iw_current iwrr") auto
  note pick = iwrr_Pick_step [OF cur Cons.prems(2,3) Cons.prems(1) [unfolded cur], of call now]
  have stab: "steady call (ie_invoker e)" using Cons.prems(4) cur by simp
  show ?case
  proof (cases "turns ?g e = 1")
    case True
    let ?i = "iwrr\<lparr>iw_current := q, iw_next := iw_next iwrr @ [reload call (ie_invoker e)]\<rparr>"
    have "\<exists>picks iwrr'. iwrr_picks nows call ?i = Inr (picks, iwrr') \<and>
      mset picks = (\<Sum>e\<leftarrow>iw_current ?i. replicate_mset (turns (iw_step ?i) e) (ie_invoker e)) \<and>
      iw_current iwrr' = [] \<and> iw_step iwrr' = iw_step ?i \<and>
      mset (iw_next iwrr') = mset (iw_next ?i) + image_mset (\<lambda>e. reload call (ie_invoker e)) (mset (iw_current ?i))"
      using Cons.prems cur True by (intro Cons.IH) (auto simp: queue_ok_def)
    then show ?thesis using pick [OF stab] True cur by auto
  next
    case False
    let ?e = "e\<lparr>ie_weight := ie_weight e - ?g\<rparr>"
    let ?i = "iwrr\<lparr>iw_current := q @ [?e]\<rparr>"
    have dvd: "?g dvd ie_weight e" "ie_weight e < 2 ^ 63" using Cons.prems(1) cur by (auto simp: queue_ok_def)
    note dec = turns_dec [OF Cons.prems(2) dvd(1) False]
    have "1 < turns ?g e" using turns_pos [OF Cons.prems(1,2), of e] cur False by simp
    then obtain n where n: "turns ?g e = Suc n" by (cases "turns ?g e") auto
    have "\<exists>picks iwrr'. iwrr_picks nows call ?i = Inr (picks, iwrr') \<and>
      mset picks = (\<Sum>e\<leftarrow>iw_current ?i. replicate_mset (turns (iw_step ?i) e) (ie_invoker e)) \<and>
      iw_current iwrr' = [] \<and> iw_step iwrr' = iw_step ?i \<and>
      mset (iw_next iwrr') = mset (iw_next ?i) + image_mset (\<lambda>e. reload call (ie_invoker e)) (mset (iw_current ?i))"
      using Cons.prems cur dec dvd n by (intro Cons.IH) (auto simp: queue_ok_def)
    then show ?thesis using pick [OF stab] False cur dec(1) n by auto
  qed
qed

lemma fresh_queue_props:
  assumes "NewInterleavedweightedRoundRobin r now call ivks = Inr iwrr" "ivks \<noteq> []"
  shows "iw_next iwrr = []" "queue_ok (iw_step iwrr) (iw_current iwrr)" "0 \<le> iw_step iwrr"
    "iw_current iwrr = map (\<lambda>ivk. \<lparr>ie_weight = GetWeightAt ivk call now, ie_invoker = ivk\<rparr>)
       (rotate (r mod length ivks) ivks)"
    "iw_step iwrr = fold gcd (map (\<lambda>ivk. GetWeightAt ivk call now) (rotate (r mod length ivks) ivks)) 0"
proof -
  let ?o = "r mod length ivks"
  have rot: "map (\<lambda>idx. ivks ! ((idx + ?o) mod length ivks)) [0..<length ivks] = rotate ?o ivks"
    by (rule nth_equalityI) (simp_all add: nth_rotate add.commute)
  have iwrr: "iwrr = \<lparr>iw_current = map (\<lambda>ivk. \<lparr>ie_weight = GetWeightAt ivk call now, ie_invoker = ivk\<rparr>) (rotate ?o ivks),
      iw_next = [], iw_step = fold gcd (map (\<lambda>ivk. GetWeightAt ivk call now) (rotate ?o ivks)) 0\<rparr>"
    using assms unfolding NewInterleavedweightedRoundRobin_def Let_def rot by (simp add: iwrr_fill_eq)
  show "iw_next iwrr = []" "0 \<le> iw_step iwrr"
    "iw_current iwrr = map (\<lambda>ivk. \<lparr>ie_weight = GetWeightAt ivk call now, ie_invoker = ivk\<rparr>) (rotate ?o ivks)"
    "iw_step iwrr = fold gcd (map (\<lambda>ivk. GetWeightAt ivk call now) (rotate (r mod length ivks) ivks)) 0"
    by (simp_all add: iwrr fold_gcd_nonneg)
  show "queue_ok (iw_step iwrr) (iw_current iwrr)"
    using fold_gcd_dvd [of "map (\<lambda>ivk. GetWeightAt ivk call now) (rotate ?o ivks)" 0] GetWeightAt_int64
    by (auto simp: queue_ok_def iwrr GetWeightAt_nonneg in_int64_def)
qed

lemma New_total: "ivks \<noteq> [] \<Longrightarrow> \<exists>iwrr. NewInterleavedweightedRoundRobin r now call ivks = Inr iwrr"
  by (simp add: NewInterleavedweightedRoundRobin_def Let_def split: prod.split)

lemma mset_rotate_eq: "mset (rotate n xs) = mset xs"
  by (simp add: rotate_drop_take) (metis append_take_drop_id mset_append union_commute)

lemma count_replicate_sum:
  "distinct xs \<Longrightarrow> x \<in> set xs \<Longrightarrow> count (\<Sum>v\<leftarrow>xs. replicate_mset (f v) v) x = f x"
proof (induction xs)
  case (Cons v xs)
  have "count (\<Sum>v\<leftarrow>xs. replicate_mset (f v) v) x = 0" if "x \<notin> set xs"
    using that by (induction xs) auto
  with Cons show ?case by auto
qed simp

text \<open>
  C32.  One round of a fresh interleaved scheduler over candidates with steady, not all zero
  weights consists of as many picks as the weights divided by their greatest common divisor add
  up to, with one more for every candidate of weight zero.  In it a candidate of positive weight
  is picked its share of times, a candidate of weight zero once, and at its end every candidate
  waits in the next queue with its weight restored.
\<close>

theorem iwrr_round_fair:
  assumes "NewInterleavedweightedRoundRobin r 0 call ivks = Inr iwrr" "distinct ivks"
    "\<forall>ivk \<in> set ivks. steady call ivk" "\<exists>ivk \<in> set ivks. 0 < GetWeightAt ivk call 0"
    "length nows = (\<Sum>ivk\<leftarrow>ivks. turns (iw_step iwrr) (reload call ivk))"
  shows "\<exists>picks iwrr'. iwrr_picks nows call iwrr = Inr (picks, iwrr') \<and> iw_current iwrr' = [] \<and>
    mset (iw_next iwrr') = mset (map (reload call) ivks) \<and>
    (\<forall>ivk \<in> set ivks. count (mset picks) ivk =
       (if GetWeightAt ivk call 0 = 0 then 1 else nat (GetWeightAt ivk call 0 div iw_step iwrr)))"
proof -
  let ?g = "iw_step iwrr" and ?rot = "rotate (r mod length ivks) ivks"
  have ne: "ivks \<noteq> []" using assms(4) by auto
  note fresh = fresh_queue_props [OF assms(1) ne]
  have cur: "iw_current iwrr = map (reload call) ?rot" using fresh(4) by (simp add: reload_def [abs_def])
  obtain v where v: "v \<in> set ivks" "0 < GetWeightAt v call 0" using assms(4) by blast
  then have "?g dvd GetWeightAt v call 0" using fresh(2) cur by (auto simp: queue_ok_def reload_def)
  then have g: "0 < ?g" "?g < 2 ^ 63"
    using v(2) fresh(3) zdvd_imp_le [of ?g "GetWeightAt v call 0"] GetWeightAt_int64 [of v call 0]
    by (auto simp: in_int64_def order_le_less)
  have inv: "ie_invoker (reload call ivk) = ivk" for ivk by (simp add: reload_def)
  have "length nows = sum_list (map (turns ?g) (iw_current iwrr))"
    using assms(5) mset_rotate_eq [of "r mod length ivks" ivks]
    by (simp add: cur comp_def sum_mset_sum_list [symmetric] mset_map)
  moreover have "\<forall>e \<in> set (iw_current iwrr). steady call (ie_invoker e)" using assms(3) by (simp add: cur inv)
  ultimately obtain picks iwrr' where run: "iwrr_picks nows call iwrr = Inr (picks, iwrr')"
    "mset picks = (\<Sum>e\<leftarrow>iw_current iwrr. replicate_mset (turns ?g e) (ie_invoker e))" "iw_current iwrr' = []"
    "mset (iw_next iwrr') = mset (iw_next iwrr) + image_mset (\<lambda>e. reload call (ie_invoker e)) (mset (iw_current iwrr))"
    using iwrr_round [OF fresh(2) g, of call nows] by blast
  have "count (mset picks) ivk = turns ?g (reload call ivk)" if "ivk \<in> set ivks" for ivk
    using count_replicate_sum [of ?rot ivk "\<lambda>v. turns ?g (reload call v)"] that assms(2) run(2)
    by (simp add: cur comp_def inv)
  moreover have "mset (iw_next iwrr') = mset (map (reload call) ivks)"
    using run(4) fresh(1) by (simp add: cur mset_rotate_eq image_mset.compositionality comp_def inv)
  moreover have "turns ?g (reload call ivk) =
      (if GetWeightAt ivk call 0 = 0 then 1 else nat (GetWeightAt ivk call 0 div ?g))" for ivk
    using GetWeightAt_nonneg [of ivk call 0] by (simp add: turns_def reload_def)
  ultimately show ?thesis using run(1,3) by auto
qed

text \<open>
  The interleaved strategy builds a new scheduler for every call, so its choice ignores the
  weights altogether: it returns the candidate at the random offset, each with the same
  probability.
\<close>

lemma Iwrr_Select_ignores_weights:
  assumes "ivks \<noteq> []"
  shows "Iwrr_Select r now now' call ivks = Inr (Some (ivks ! (r mod length ivks)))"
proof (cases "length ivks = 1")
  case True
  then show ?thesis by (simp add: Iwrr_Select_def)
next
  case False
  obtain iwrr where new: "NewInterleavedweightedRoundRobin r now call ivks = Inr iwrr" using New_total [OF assms] by blast
  have "r mod length ivks < length ivks" using assms by simp
  then have "rotate (r mod length ivks) ivks = ivks ! (r mod length ivks) # tl (rotate (r mod length ivks) ivks)"
    using assms by (metis hd_rotate_conv_nth list.collapse mod_mod_trivial rotate_is_Nil_conv)
  then obtain e q where cur: "iw_current iwrr = e # q" "ie_invoker e = ivks ! (r mod length ivks)"
    using fresh_queue_props(4) [OF new assms] by (metis (no_types, lifting) iwrrEntry.select_convs(2) list.simps(9))
  then have "\<exists>iwrr'. iwrr_Pick now' call iwrr = Inr (ivks ! (r mod length ivks), iwrr')"
    by (simp add: iwrr_Pick_def iwrr_empty_def iwrr_pop_def Let_def)
  then show ?thesis using False assms new by (auto simp: Iwrr_Select_def)
qed

lemma Iwrr_Select_member: "Iwrr_Select r now now' call ivks = Inr (Some ivk) \<Longrightarrow> ivk \<in> set ivks"
proof (cases "ivks = []")
  case False
  assume sel: "Iwrr_Select r now now' call ivks = Inr (Some ivk)"
  show ?thesis
  proof (cases "length ivks = 1")
    case True
    then show ?thesis using sel by (auto simp: Iwrr_Select_def)
  next
    case False
    from sel False obtain iwrr iwrr' where new: "NewInterleavedweightedRoundRobin r now call ivks = Inr iwrr"
      and pick: "iwrr_Pick now' call iwrr = Inr (ivk, iwrr')"
      using \<open>ivks \<noteq> []\<close> by (auto simp: Iwrr_Select_def elim!: go_bindE)
    have "ivk \<in> ie_invoker ` set (iw_current iwrr @ iw_next iwrr)"
      using pick by (auto simp: iwrr_Pick_def iwrr_empty_def iwrr_pop_def Let_def split: list.splits if_splits)
    then show ?thesis using fresh_queue_props(1,4) [OF new \<open>ivks \<noteq> []\<close>] by auto
  qed
qed (simp add: Iwrr_Select_def)

lemma Iwrr_Select_total: "ivks \<noteq> [] \<Longrightarrow> \<exists>ivk. Iwrr_Select r now now' call ivks = Inr (Some ivk)"
proof -
  assume ne: "ivks \<noteq> []"
  obtain iwrr where new: "NewInterleavedweightedRoundRobin r now call ivks = Inr iwrr" using New_total [OF ne] by blast
  have "iw_current iwrr \<noteq> []" using fresh_queue_props(4) [OF new ne] ne by simp
  then have "\<exists>p. iwrr_Pick now' call iwrr = Inr p"
    by (cases "iw_current iwrr") (simp_all add: iwrr_Pick_def iwrr_empty_def iwrr_pop_def Let_def)
  then obtain p where "iwrr_Pick now' call iwrr = Inr p" by blast
  then show ?thesis using new ne by (cases p) (auto simp: Iwrr_Select_def)
qed

interpretation iwrr_lb: total_load_balance "\<lambda>(r, now, now'). Iwrr_Select r now now'"
  by unfold_locales (auto dest: Iwrr_Select_member, meson Iwrr_Select_total)

lemma sample_steady: "steady sample_call (sample_peer n ip ''2'' [])" "steady sample_call (sample_peer n ip ''1'' [])"
  by (simp_all add: steady_def)

theorem iwrr_round_fair_witness:
  "let a = sample_peer 1 ''10.0.0.1'' ''1'' []; b = sample_peer 2 ''10.0.0.2'' ''2'' []
   in \<exists>iwrr picks iwrr'. NewInterleavedweightedRoundRobin 0 0 sample_call [a, b] = Inr iwrr \<and>
        iwrr_picks [1, 2, 3] sample_call iwrr = Inr (picks, iwrr') \<and>
        count (mset picks) a = 1 \<and> count (mset picks) b = 2"
proof -
  let ?a = "sample_peer 1 ''10.0.0.1'' ''1'' []" and ?b = "sample_peer 2 ''10.0.0.2'' ''2'' []"
  obtain iwrr where new: "NewInterleavedweightedRoundRobin 0 0 sample_call [?a, ?b] = Inr iwrr"
    using New_total [of "[?a, ?b]"] by blast
  have step: "iw_step iwrr = 1" using fresh_queue_props(5) [OF new] by simp
  have "distinct [?a, ?b]" by (simp add: sample_peer_def)
  moreover have "turns 1 (reload sample_call ?a) = 1" "turns 1 (reload sample_call ?b) = 2"
    by (simp_all add: turns_def reload_def)
  ultimately obtain picks iwrr' where "iwrr_picks [1, 2, 3] sample_call iwrr = Inr (picks, iwrr')"
    "count (mset picks) ?a = 1" "count (mset picks) ?b = 2"
    using iwrr_round_fair [OF new, of "[1, 2, 3]"] sample_steady by (auto simp: step)
  with new show ?thesis unfolding Let_def by blast
qed

end
