(* ===== verification/Alias_Method.thy ===== *)
theory Alias_Method
  imports Load_Balance
begin

text \<open>
  \<^verbatim>\<open>cluster/loadbalance/aliasmethod\<close>: weighted random choice by the alias method.  The stacks
  \<^verbatim>\<open>small\<close> and \<^verbatim>\<open>large\<close> are lists with their top first; probabilities are \<^verbatim>\<open>float64\<close> values.
\<close>

section \<open>The table and the picker\<close>

record aliasMethodPicker =
  am_invokers :: "invoker list"
  weightSum :: int
  am_alias :: "nat list"
  am_prob :: "rat list"

definition alias_total :: "int list \<Rightarrow> int" where
  "alias_total ws = (let t = fold (\<lambda>w t. wrap64 (t + w)) ws 0 in if t \<le> 0 then 1 else t)"

definition alias_scaled :: "int list \<Rightarrow> rat list" where
  "alias_scaled ws =
     map (\<lambda>w. fdiv (fmul (float_of_int w) (float_of_int (int (length ws)))) (float_of_int (alias_total ws))) ws"

text \<open>The partition loop pushes the indices in order, so the last index ends on top.\<close>

definition alias_small :: "rat list \<Rightarrow> nat list" where
  "alias_small scaled = rev (filter (\<lambda>i. scaled ! i < 1) [0..<length scaled])"

definition alias_large :: "rat list \<Rightarrow> nat list" where
  "alias_large scaled = rev (filter (\<lambda>i. \<not> scaled ! i < 1) [0..<length scaled])"

record alias_state =
  as_scaled :: "rat list"
  as_prob :: "rat list"
  as_alias :: "nat list"
  as_small :: "nat list"
  as_large :: "nat list"

definition alias_pair :: "nat \<Rightarrow> nat \<Rightarrow> alias_state \<Rightarrow> alias_state" where
  "alias_pair l g st =
     (let scaled = (as_scaled st)[g := fsub (as_scaled st ! g) (fsub 1 (as_scaled st ! l))]
      in st\<lparr>as_prob := (as_prob st)[l := as_scaled st ! l], as_alias := (as_alias st)[l := g],
            as_scaled := scaled,
            as_small := (if scaled ! g < 1 then g # tl (as_small st) else tl (as_small st)),
            as_large := (if scaled ! g < 1 then tl (as_large st) else g # tl (as_large st))\<rparr>)"

function alias_loop :: "alias_state \<Rightarrow> alias_state" where
  "alias_loop st =
     (if as_small st \<noteq> [] \<and> as_large st \<noteq> []
      then alias_loop (alias_pair (hd (as_small st)) (hd (as_large st)) st) else st)"
  by pat_completeness auto
termination
  by (relation "measure (\<lambda>st. length (as_small st) + length (as_large st))")
     (auto simp: alias_pair_def Let_def neq_Nil_conv)

declare alias_loop.simps [simp del]

text \<open>The two final loops give probability one to whatever is left, large indices first.\<close>

definition alias_rest :: "alias_state \<Rightarrow> rat list" where
  "alias_rest st = fold (\<lambda>i p. p[i := 1]) (as_small st) (fold (\<lambda>i p. p[i := 1]) (as_large st) (as_prob st))"

definition alias_init :: "int \<Rightarrow> RPCInvocation \<Rightarrow> invoker list \<Rightarrow> aliasMethodPicker" where
  "alias_init now call invokers =
     (let n = length invokers;
          weights = map (\<lambda>ivk. GetWeightAt ivk call now) invokers;
          scaled = alias_scaled weights;
          st = alias_loop \<lparr>as_scaled = scaled, as_prob = replicate n 0, as_alias = replicate n 0,
                           as_small = alias_small scaled, as_large = alias_large scaled\<rparr>
      in \<lparr>am_invokers = invokers, weightSum = alias_total weights, am_alias = as_alias st,
          am_prob = alias_rest st\<rparr>)"

text \<open>\<open>r\<close> is the draw of \<^verbatim>\<open>rand.Intn\<close> and \<open>f\<close> the one of \<^verbatim>\<open>rand.Float64\<close>.\<close>

definition alias_Pick :: "nat \<Rightarrow> rat \<Rightarrow> aliasMethodPicker \<Rightarrow> invoker option go" where
  "alias_Pick r f am =
     go_bind (Intn r (int (length (am_invokers am)))) (\<lambda>i.
       go_bind (go_nth (am_prob am) i) (\<lambda>p.
         if f < p then go_elem (am_invokers am) i
         else go_bind (go_nth (am_alias am) i) (\<lambda>a. go_elem (am_invokers am) (int a))))"

definition AliasMethod_Select ::
  "int \<Rightarrow> nat \<Rightarrow> rat \<Rightarrow> RPCInvocation \<Rightarrow> invoker list \<Rightarrow> invoker option go" where
  "AliasMethod_Select now r f call invokers =
     (if length invokers = 0 then Inr None
      else if length invokers = 1 then go_elem invokers 0
      else alias_Pick r f (alias_init now call invokers))"

section \<open>The table is well formed\<close>

text \<open>
  While pairing, the two stacks hold distinct indices in range, every index not on a stack has
  its probability, and scaled and final probabilities stay in bounds.
\<close>

definition alias_ok :: "nat \<Rightarrow> alias_state \<Rightarrow> bool" where
  "alias_ok n st \<longleftrightarrow>
     length (as_scaled st) = n \<and> length (as_prob st) = n \<and> length (as_alias st) = n \<and>
     distinct (as_small st @ as_large st) \<and> set (as_small st @ as_large st) \<subseteq> {..<n} \<and>
     (\<forall>a \<in> set (as_alias st). a < n \<or> a = 0) \<and>
     (\<forall>s \<in> set (as_scaled st). 0 \<le> s) \<and>
     (\<forall>i \<in> set (as_small st). as_scaled st ! i < 1) \<and>
     (\<forall>i \<in> set (as_large st). 1 \<le> as_scaled st ! i) \<and>
     (\<forall>p \<in> set (as_prob st). 0 \<le> p \<and> p \<le> 1)"

lemma set_update_cases: "x \<in> set (xs[i := v]) \<Longrightarrow> x = v \<or> x \<in> set xs"
  using set_update_subset_insert by fastforce

lemma alias_pair_ok:
  assumes ok: "alias_ok n st" and ne: "as_small st \<noteq> []" "as_large st \<noteq> []"
  shows "alias_ok n (alias_pair (hd (as_small st)) (hd (as_large st)) st)"
proof -
  obtain l ls where small: "as_small st = l # ls" using ne(1) by (cases "as_small st") auto
  obtain g gs where large: "as_large st = g # gs" using ne(2) by (cases "as_large st") auto
  have lg: "l < n" "g < n" "l \<noteq> g" "g \<notin> set ls" "l \<notin> set gs" "l \<notin> set ls" "g \<notin> set gs"
    using ok by (auto simp: alias_ok_def small large)
  have s: "0 \<le> as_scaled st ! l" "as_scaled st ! l < 1" "1 \<le> as_scaled st ! g"
    using ok lg by (auto simp: alias_ok_def small large)
  define v where "v = fsub (as_scaled st ! g) (fsub 1 (as_scaled st ! l))"
  have "fsub 1 (as_scaled st ! l) \<le> 1"
    using fl64_le_1 [of "1 - as_scaled st ! l"] fl64_of_int [of 1] s by (cases "as_scaled st ! l = 0") (auto simp: fsub_def)
  then have v: "0 \<le> v" unfolding v_def fsub_def [of "as_scaled st ! g"] using s(3) by (intro fl64_nonneg) simp
  have vg: "(as_scaled st)[g := v] ! g = v" using lg ok by (simp add: alias_ok_def)
  have other: "(as_scaled st)[g := v] ! i = as_scaled st ! i" if "i \<in> set ls \<or> i \<in> set gs" for i
    using that lg by (metis nth_list_update_neq)
  define st' where "st' = alias_pair l g st"
  have st': "as_scaled st' = (as_scaled st)[g := v]" "as_prob st' = (as_prob st)[l := as_scaled st ! l]"
    "as_alias st' = (as_alias st)[l := g]" "as_small st' = (if v < 1 then g # ls else ls)"
    "as_large st' = (if v < 1 then gs else g # gs)"
    by (simp_all add: st'_def alias_pair_def Let_def small large vg [unfolded v_def] v_def)
  have "distinct (as_small st' @ as_large st')" "set (as_small st' @ as_large st') \<subseteq> {..<n}"
    using ok lg by (auto simp: alias_ok_def st' small large)
  moreover have "\<forall>i \<in> set (as_small st'). as_scaled st' ! i < 1" "\<forall>i \<in> set (as_large st'). 1 \<le> as_scaled st' ! i"
    using ok other vg by (auto simp: alias_ok_def st' small large)
  moreover have "\<forall>a \<in> set (as_alias st'). a < n \<or> a = 0"
    using ok lg by (auto simp: alias_ok_def st' dest!: set_update_cases)
  moreover have "\<forall>x \<in> set (as_scaled st'). 0 \<le> x"
    using ok v by (auto simp: alias_ok_def st' dest!: set_update_cases)
  moreover have "\<forall>p \<in> set (as_prob st'). 0 \<le> p \<and> p \<le> 1"
    using ok s by (auto simp: alias_ok_def st' dest!: set_update_cases)
  ultimately show ?thesis using ok by (simp add: alias_ok_def small large st' flip: st'_def)
qed

lemma alias_loop_ok:
  "alias_ok n st \<Longrightarrow> alias_ok n (alias_loop st) \<and> (as_small (alias_loop st) = [] \<or> as_large (alias_loop st) = [])"
proof (induction st rule: alias_loop.induct)
  case (1 st)
  then show ?case using alias_pair_ok [of n st] by (subst (1 2 3) alias_loop.simps) auto
qed

lemma fold_set_1:
  "\<forall>i \<in> set is. i < length p \<Longrightarrow> \<forall>x \<in> set p. 0 \<le> x \<and> x \<le> (1::rat) \<Longrightarrow>
   length (fold (\<lambda>i p. p[i := 1]) is p) = length p \<and>
   (\<forall>x \<in> set (fold (\<lambda>i p. p[i := 1]) is p). 0 \<le> x \<and> x \<le> 1)"
proof (induction "is" arbitrary: p)
  case (Cons i "is")
  have "\<forall>x \<in> set (p[i := 1]). 0 \<le> x \<and> x \<le> 1" using Cons.prems(2) by (auto dest!: set_update_cases)
  moreover have "\<forall>j \<in> set is. j < length (p[i := 1])" using Cons.prems(1) by simp
  ultimately show ?case using Cons.IH [of "p[i := 1]"] by simp
qed simp

lemma alias_scaled_nonneg: "\<forall>w \<in> set ws. 0 \<le> w \<Longrightarrow> \<forall>s \<in> set (alias_scaled ws). 0 \<le> s"
  by (auto simp: alias_scaled_def fdiv_def fmul_def float_of_int_def alias_total_def Let_def
      intro!: fl64_nonneg divide_nonneg_nonneg mult_nonneg_nonneg)

lemma alias_start_ok:
  assumes "\<forall>w \<in> set ws. 0 \<le> w"
  shows "alias_ok (length ws) \<lparr>as_scaled = alias_scaled ws, as_prob = replicate (length ws) 0,
     as_alias = replicate (length ws) 0, as_small = alias_small (alias_scaled ws),
     as_large = alias_large (alias_scaled ws)\<rparr>"
  using alias_scaled_nonneg [OF assms]
  by (auto simp: alias_ok_def alias_small_def alias_large_def not_less) (simp add: alias_scaled_def)+

lemma alias_init_ok:
  fixes now call
  assumes "ivks \<noteq> []"
  defines "am \<equiv> alias_init now call ivks"
  shows "am_invokers am = ivks" "length (am_prob am) = length ivks" "length (am_alias am) = length ivks"
    "\<forall>p \<in> set (am_prob am). 0 \<le> p \<and> p \<le> 1" "\<forall>a \<in> set (am_alias am). a < length ivks"
proof -
  let ?ws = "map (\<lambda>ivk. GetWeightAt ivk call now) ivks"
  define st where "st = alias_loop \<lparr>as_scaled = alias_scaled ?ws, as_prob = replicate (length ivks) 0,
     as_alias = replicate (length ivks) 0, as_small = alias_small (alias_scaled ?ws),
     as_large = alias_large (alias_scaled ?ws)\<rparr>"
  have am: "am = \<lparr>am_invokers = ivks, weightSum = alias_total ?ws, am_alias = as_alias st, am_prob = alias_rest st\<rparr>"
    by (simp add: am_def alias_init_def st_def Let_def)
  have ok: "alias_ok (length ivks) st"
    unfolding st_def using alias_start_ok [of ?ws] by (auto simp: GetWeightAt_nonneg intro!: alias_loop_ok [THEN conjunct1])
  have large: "length (fold (\<lambda>i p. p[i := 1]) (as_large st) (as_prob st)) = length ivks"
      "\<forall>x \<in> set (fold (\<lambda>i p. p[i := 1]) (as_large st) (as_prob st)). 0 \<le> x \<and> x \<le> 1"
    using ok fold_set_1 [of "as_large st" "as_prob st"] by (auto simp: alias_ok_def)
  then have "length (alias_rest st) = length ivks" "\<forall>x \<in> set (alias_rest st). 0 \<le> x \<and> x \<le> 1"
    using ok fold_set_1 [of "as_small st" "fold (\<lambda>i p. p[i := 1]) (as_large st) (as_prob st)"]
    by (auto simp: alias_ok_def alias_rest_def)
  then show "am_invokers am = ivks" "length (am_prob am) = length ivks" "length (am_alias am) = length ivks"
    "\<forall>p \<in> set (am_prob am). 0 \<le> p \<and> p \<le> 1" "\<forall>a \<in> set (am_alias am). a < length ivks"
    using ok assms(1) by (auto simp: am alias_ok_def)
qed

lemma alias_Pick_total:
  assumes "ivks \<noteq> []"
  shows "\<exists>ivk \<in> set ivks. alias_Pick r f (alias_init now call ivks) = Inr (Some ivk)"
proof -
  note table = alias_init_ok [OF assms(1), of now call]
  let ?i = "nat (int r mod int (length ivks))" and ?am = "alias_init now call ivks"
  have i: "?i < length ivks" using assms(1) by (simp add: nat_less_iff)
  then have "am_alias ?am ! ?i < length ivks" using table by simp
  then have "alias_Pick r f ?am =
      Inr (Some (if f < am_prob ?am ! ?i then ivks ! ?i else ivks ! (am_alias ?am ! ?i)))"
    using table(1-3) assms(1) by (simp add: alias_Pick_def)
  then show ?thesis using i \<open>am_alias ?am ! ?i < length ivks\<close> by simp
qed

text \<open>
  C21.  The alias table built for a list of candidates is well formed whatever the weights and
  the rounding: the construction ends, it has one probability, between zero and one, and one
  alias, a valid index, per candidate.  So a pick with any two draws returns a candidate and
  never indexes out of range.
\<close>

theorem alias_table_ok:
  fixes now call
  assumes "ivks \<noteq> []"
  defines "am \<equiv> alias_init now call ivks"
  shows "am_invokers am = ivks \<and> length (am_prob am) = length ivks \<and> length (am_alias am) = length ivks \<and>
    (\<forall>p \<in> set (am_prob am). 0 \<le> p \<and> p \<le> 1) \<and> (\<forall>a \<in> set (am_alias am). a < length ivks) \<and>
    (\<exists>ivk \<in> set ivks. alias_Pick r f am = Inr (Some ivk))"
  unfolding am_def using alias_init_ok [OF assms(1), of now call] alias_Pick_total [OF assms(1), of r f now call] by blast

theorem alias_table_ok_witness:
  "\<exists>ivk \<in> {sample_peer 1 ''10.0.0.1'' ''1'' [], sample_peer 2 ''10.0.0.2'' ''3'' []}.
     alias_Pick 5 (1 / 2) (alias_init 0 sample_call
       [sample_peer 1 ''10.0.0.1'' ''1'' [], sample_peer 2 ''10.0.0.2'' ''3'' []]) = Inr (Some ivk)"
  using alias_table_ok [of "[sample_peer 1 ''10.0.0.1'' ''1'' [], sample_peer 2 ''10.0.0.2'' ''3'' []]"
      0 sample_call 5 "1 / 2"] by simp

lemma alias_Pick_member: "alias_Pick r f am = Inr (Some ivk) \<Longrightarrow> ivk \<in> set (am_invokers am)"
  by (auto simp: alias_Pick_def elim!: go_bindE dest!: go_elem_member split: if_split_asm)

lemma AliasMethod_Select_member:
  "AliasMethod_Select now r f call ivks = Inr (Some ivk) \<Longrightarrow> ivk \<in> set ivks"
  using alias_init_ok(1) [of ivks now call]
  by (cases "ivks = []") (auto simp: AliasMethod_Select_def dest!: alias_Pick_member go_elem_member split: if_split_asm)

lemma AliasMethod_Select_total:
  "ivks \<noteq> [] \<Longrightarrow> \<exists>ivk. AliasMethod_Select now r f call ivks = Inr (Some ivk)"
  using alias_Pick_total [of ivks r f now call] by (auto simp: AliasMethod_Select_def)

interpretation alias_lb: total_load_balance "\<lambda>(now, r, f). AliasMethod_Select now r f"
  by unfold_locales (auto dest: AliasMethod_Select_member, meson AliasMethod_Select_total)

end
