(* ===== verification/Consistent_Hash.thy ===== *)
theory Consistent_Hash
  imports Load_Balance
begin

text \<open>
  \<^verbatim>\<open>cluster/loadbalance/consistenthashing\<close>: the hash ring, its binary search and the cache of
  selectors.  The hash functions \<^verbatim>\<open>md5.Sum\<close> (sixteen bytes, read by index) and
  \<^verbatim>\<open>crc32.ChecksumIEEE\<close>, the JSON encoding of an invoker and the default formatting of an argument
  are arguments of the definitions: every property holds for any such functions.
\<close>

unbundle bit_operations_syntax

section \<open>The selector\<close>

abbreviation HashNodes :: string where "HashNodes \<equiv> ''hash.nodes''"
abbreviation HashArguments :: string where "HashArguments \<equiv> ''hash.arguments''"

record selector =
  hashCode :: "32 word"
  replicaNum :: int
  virtualInvokers :: "(32 word \<times> invoker) list"
  sel_keys :: "32 word list"
  argumentIndex :: "int list"

text \<open>\<^verbatim>\<open>regexp.Split\<close> with the pattern of commas surrounded by white space.\<close>

definition re_space :: "char \<Rightarrow> bool" where
  "re_space c \<longleftrightarrow> c \<in> {CHR '' '', CHR 0x09, CHR 0x0A, CHR 0x0C, CHR 0x0D}"

function comma_split :: "string \<Rightarrow> string \<Rightarrow> string list" where
  "comma_split cur s =
     (let rest = dropWhile re_space s
      in if rest \<noteq> [] \<and> hd rest = CHR '',''
         then cur # comma_split [] (dropWhile re_space (dropWhile (\<lambda>c. c = CHR '','') rest))
         else case s of [] \<Rightarrow> [cur] | c # s' \<Rightarrow> comma_split (cur @ [c]) s')"
  by pat_completeness auto

termination
proof (relation "measure (\<lambda>(cur, s). length s)")
  fix cur s rest
  assume r: "rest = dropWhile re_space s" "rest \<noteq> [] \<and> hd rest = CHR '',''"
  then obtain t where t: "rest = CHR '','' # t" by (metis list.collapse)
  have "length (dropWhile (\<lambda>c. c = CHR '','') rest) < length rest"
    using length_dropWhile_le [of "\<lambda>c. c = CHR '',''" t] by (simp add: t)
  also have "\<dots> \<le> length s" using r length_dropWhile_le by simp
  finally show "(([], dropWhile re_space (dropWhile (\<lambda>c. c = CHR '','') rest)), (cur, s)) \<in> measure (\<lambda>(cur, s). length s)"
    using length_dropWhile_le [of re_space "dropWhile (\<lambda>c. c = CHR '','') rest"] by simp
qed auto

declare comma_split.simps [simp del]

definition ch_hash :: "(nat \<Rightarrow> 8 word) \<Rightarrow> nat \<Rightarrow> 32 word" where
  "ch_hash digest i =
     push_bit 24 (ucast (digest (3 + i * 4) AND 0xFF)) OR
     push_bit 16 (ucast (digest (2 + i * 4) AND 0xFF)) OR
     push_bit 8 (ucast (digest (1 + i * 4) AND 0xFF)) OR
     (ucast (digest (i * 4) AND 0xFF) AND 0xFFFFFFF)"

fun parse_indices :: "string list \<Rightarrow> int list option" where
  "parse_indices [] = Some []"
| "parse_indices (x # xs) =
     (case Atoi x of
        None \<Rightarrow> None
      | Some i \<Rightarrow> map_option (\<lambda>is. i # is) (parse_indices xs))"

definition ch_address :: "invoker \<Rightarrow> string" where
  "ch_address ivk = Ip (GetURL ivk) @ '':'' @ Port (GetURL ivk)"

text \<open>The ring positions of one invoker, in the order the loops produce them.\<close>

definition ring_keys :: "(string \<Rightarrow> nat \<Rightarrow> 8 word) \<Rightarrow> int \<Rightarrow> invoker \<Rightarrow> 32 word list" where
  "ring_keys md5 replicas ivk =
     concat (map (\<lambda>i. map (\<lambda>j. ch_hash (md5 (ch_address ivk @ Itoa (int i))) j) [0..<4])
       [0..<nat (go_div replicas 4)])"

fun add_invokers ::
  "(string \<Rightarrow> nat \<Rightarrow> 8 word) \<Rightarrow> int \<Rightarrow> invoker list \<Rightarrow> 32 word list \<Rightarrow> (32 word \<times> invoker) list \<Rightarrow>
   32 word list \<times> (32 word \<times> invoker) list" where
  "add_invokers md5 replicas [] keys virtual = (keys, virtual)"
| "add_invokers md5 replicas (ivk # ivks) keys virtual =
     add_invokers md5 replicas ivks (keys @ ring_keys md5 replicas ivk)
       (fold (\<lambda>k m. map_put k ivk m) (ring_keys md5 replicas ivk) virtual)"

text \<open>\<^const>\<open>None\<close> is the nil selector returned when an argument index does not parse.\<close>

definition newSelector ::
  "(string \<Rightarrow> nat \<Rightarrow> 8 word) \<Rightarrow> invoker list \<Rightarrow> string \<Rightarrow> 32 word \<Rightarrow> selector option go" where
  "newSelector md5 invokers name code =
     go_bind (go_nth invokers 0) (\<lambda>first.
       let u = GetURL first;
           replicas = GetMethodParamIntValue u name HashNodes 160
       in case parse_indices (comma_split [] (GetMethodParam u name HashArguments ''0'')) of
            None \<Rightarrow> Inr None
          | Some idx \<Rightarrow>
              (case add_invokers md5 replicas invokers [] [] of (keys, virtual) \<Rightarrow>
                 Inr (Some \<lparr>hashCode = code, replicaNum = replicas, virtualInvokers = virtual,
                            sel_keys = sort keys, argumentIndex = idx\<rparr>)))"

definition toKey :: "(go_any \<Rightarrow> string) \<Rightarrow> selector \<Rightarrow> go_any list \<Rightarrow> string" where
  "toKey fmt c args =
     concat (map (\<lambda>i. if 0 \<le> i \<and> i < int (length args)
                      then (case args ! nat i of GStr v \<Rightarrow> v | v \<Rightarrow> fmt v) else []) (argumentIndex c))"

text \<open>\<^verbatim>\<open>sort.Search\<close>: binary search for the first index where the predicate holds.\<close>

function Search_loop :: "(nat \<Rightarrow> bool) \<Rightarrow> nat \<Rightarrow> nat \<Rightarrow> nat" where
  "Search_loop f i j =
     (if i < j then let h = (i + j) div 2 in if \<not> f h then Search_loop f (h + 1) j else Search_loop f i h
      else i)"
  by pat_completeness auto
termination by (relation "measure (\<lambda>(f, i, j). j - i)") auto

declare Search_loop.simps [simp del]

definition Search :: "nat \<Rightarrow> (nat \<Rightarrow> bool) \<Rightarrow> nat" where
  "Search n f = Search_loop f 0 n"

definition selectForKey :: "selector \<Rightarrow> 32 word \<Rightarrow> invoker option go" where
  "selectForKey c hash =
     (let idx = Search (length (sel_keys c)) (\<lambda>i. sel_keys c ! i \<ge> hash);
          idx = (if idx = length (sel_keys c) then 0 else idx)
      in go_bind (go_nth (sel_keys c) (int idx)) (\<lambda>k. Inr (map_of (virtualInvokers c) k)))"

definition selector_Select ::
  "(string \<Rightarrow> nat \<Rightarrow> 8 word) \<Rightarrow> (go_any \<Rightarrow> string) \<Rightarrow> selector \<Rightarrow> RPCInvocation \<Rightarrow> invoker option go" where
  "selector_Select md5 fmt c call =
     selectForKey c (ch_hash (md5 (toKey fmt c (Arguments call))) 0)"

section \<open>The strategy\<close>

type_synonym selectors = "(string \<times> selector option) list"

fun marshal_all :: "(invoker \<Rightarrow> string option) \<Rightarrow> invoker list \<Rightarrow> string option" where
  "marshal_all marshal [] = Some []"
| "marshal_all marshal (ivk # ivks) =
     (case marshal ivk of None \<Rightarrow> None | Some b \<Rightarrow> map_option (\<lambda>bs. b @ bs) (marshal_all marshal ivks))"

text \<open>
  The check of the cached selector, made before and again under the write lock; reading the hash
  code of a cached nil selector panics.
\<close>

definition selector_fresh :: "selectors \<Rightarrow> string \<Rightarrow> 32 word \<Rightarrow> bool go" where
  "selector_fresh ss key code =
     (case map_of ss key of
        None \<Rightarrow> Inr False
      | Some None \<Rightarrow> Inl NilDereference
      | Some (Some c) \<Rightarrow> Inr (hashCode c = code))"

definition Conshash_Select ::
  "(string \<Rightarrow> nat \<Rightarrow> 8 word) \<Rightarrow> (string \<Rightarrow> 32 word) \<Rightarrow> (invoker \<Rightarrow> string option) \<Rightarrow> (go_any \<Rightarrow> string) \<Rightarrow>
   RPCInvocation \<Rightarrow> invoker list \<Rightarrow> selectors \<Rightarrow> invoker option go \<times> selectors" where
  "Conshash_Select md5 crc32 marshal fmt call invokers ss =
     (case go_nth invokers 0 of
        Inl p \<Rightarrow> (Inl p, ss)
      | Inr first \<Rightarrow>
          (let name = MethodName call;
               key = ServiceKey (GetURL first) @ ''.'' @ name
           in case marshal_all marshal invokers of
                None \<Rightarrow> (Inr None, ss)
              | Some bs \<Rightarrow>
                  (let code = crc32 bs
                   in case selector_fresh ss key code of
                        Inl p \<Rightarrow> (Inl p, ss)
                      | Inr fresh \<Rightarrow>
                          (case (if fresh then Inr ss
                                 else go_bind (newSelector md5 invokers name code)
                                        (\<lambda>c. Inr (map_put key c ss))) of
                             Inl p \<Rightarrow> (Inl p, ss)
                           | Inr ss' \<Rightarrow>
                               (case map_of ss' key of
                                  Some (Some c) \<Rightarrow> (selector_Select md5 fmt c call, ss')
                                | _ \<Rightarrow> (Inl NilDereference, ss'))))))"
section \<open>Binary search\<close>

lemma Search_loop_spec:
  assumes "\<forall>a b. a \<le> b \<longrightarrow> b < n \<longrightarrow> f a \<longrightarrow> f b" "i \<le> j" "\<forall>k < i. \<not> f k"
    "\<forall>k. j \<le> k \<longrightarrow> k < n \<longrightarrow> f k" "j \<le> n"
  shows "i \<le> Search_loop f i j \<and> Search_loop f i j \<le> j \<and> (\<forall>k < Search_loop f i j. \<not> f k) \<and>
    (\<forall>k. Search_loop f i j \<le> k \<longrightarrow> k < n \<longrightarrow> f k)"
  using assms
proof (induction f i j rule: Search_loop.induct)
  case (1 f i j)
  let ?h = "(i + j) div 2"
  show ?case
  proof (cases "i < j")
    case True
    then have h: "i \<le> ?h" "?h < j" by auto
    show ?thesis
    proof (cases "f ?h")
      case f: True
      then have "\<forall>k. ?h \<le> k \<longrightarrow> k < n \<longrightarrow> f k" using "1.prems"(1) by blast
      with "1.IH"(2) [OF True refl] f h "1.prems" show ?thesis
        by (subst (1 2 3 4) Search_loop.simps) (auto simp: True Let_def)
    next
      case f: False
      then have "\<forall>k < ?h + 1. \<not> f k"
        using "1.prems"(1,5) h(2) by (metis less_Suc_eq_le Suc_eq_plus1 less_le_trans)
      with "1.IH"(1) [OF True refl] f h "1.prems" show ?thesis
        by (subst (1 2 3 4) Search_loop.simps) (auto simp: True Let_def)
    qed
  next
    case False
    with "1.prems" show ?thesis by (subst (1 2 3 4) Search_loop.simps) auto
  qed
qed

text \<open>
  On a sorted list, the search for the first element not below a bound.
\<close>

lemma Search_sorted:
  fixes h :: "32 word"
  assumes "sorted ks"
  defines "m \<equiv> Search (length ks) (\<lambda>i. ks ! i \<ge> h)"
  shows "m \<le> length ks" "k < m \<Longrightarrow> ks ! k < h" "m < length ks \<Longrightarrow> h \<le> ks ! m"
proof -
  have "\<forall>a b. a \<le> b \<longrightarrow> b < length ks \<longrightarrow> h \<le> ks ! a \<longrightarrow> h \<le> ks ! b"
    using sorted_nth_mono [OF assms(1)] order_trans by blast
  note spec = Search_loop_spec [OF this, of 0 "length ks"]
  have "Search_loop (\<lambda>i. h \<le> ks ! i) 0 (length ks) = m" by (simp add: m_def Search_def)
  with spec have "m \<le> length ks" "\<forall>k < m. \<not> h \<le> ks ! k" "\<forall>k. m \<le> k \<longrightarrow> k < length ks \<longrightarrow> h \<le> ks ! k"
    by auto
  then show "m \<le> length ks" "k < m \<Longrightarrow> ks ! k < h" "m < length ks \<Longrightarrow> h \<le> ks ! m"
    by (auto simp: not_le)
qed

text \<open>The ring successor of a hash: the least position not below it, else the least of all.\<close>

definition ring_owner :: "32 word set \<Rightarrow> 32 word \<Rightarrow> 32 word" where
  "ring_owner K h = (if \<exists>k \<in> K. h \<le> k then Min {k \<in> K. h \<le> k} else Min K)"

lemma selectForKey_owner:
  assumes "sorted (sel_keys c)" "sel_keys c \<noteq> []"
  shows "selectForKey c h = Inr (map_of (virtualInvokers c) (ring_owner (set (sel_keys c)) h))"
proof -
  let ?ks = "sel_keys c"
  define m where "m = Search (length ?ks) (\<lambda>i. ?ks ! i \<ge> h)"
  note m = Search_sorted [OF assms(1), where h = h, folded m_def]
  have least: "?ks ! i \<le> x" if "x \<in> set (drop i ?ks)" for x i
    using that assms(1) by (auto simp: in_set_conv_nth sorted_nth_mono)
  show ?thesis
  proof (cases "m = length ?ks")
    case True
    then have "\<not> (\<exists>k \<in> set ?ks. h \<le> k)" using m(2) by (metis in_set_conv_nth linorder_not_less)
    moreover have "Min (set ?ks) = ?ks ! 0" using least [of _ 0] assms(2) by (intro Min_eqI) auto
    ultimately show ?thesis using True assms(2) by (simp add: selectForKey_def ring_owner_def m_def [symmetric] Let_def)
  next
    case False
    then have lt: "m < length ?ks" using m(1) by simp
    have "?ks ! m \<le> k" if "k \<in> set ?ks" "h \<le> k" for k
    proof -
      obtain i where i: "i < length ?ks" "k = ?ks ! i" using \<open>k \<in> set ?ks\<close> by (auto simp: in_set_conv_nth)
      then have "m \<le> i" using m(2) [of i] that(2) by (metis linorder_not_less)
      then show ?thesis using i assms(1) by (simp add: sorted_nth_mono)
    qed
    then have "Min {k \<in> set ?ks. h \<le> k} = ?ks ! m" using m(3) [OF lt] lt by (intro Min_eqI) auto
    moreover have "\<exists>k \<in> set ?ks. h \<le> k" using m(3) [OF lt] lt by auto
    ultimately show ?thesis using lt by (simp add: selectForKey_def ring_owner_def m_def [symmetric] Let_def)
  qed
qed

section \<open>The ring of a selector\<close>

lemma map_of_fold_put:
  "map_of (fold (\<lambda>k m. map_put k v m) ks m) k = (if k \<in> set ks then Some v else map_of m k)"
  by (induction ks arbitrary: m) auto

lemma find_snoc:
  "find P (xs @ [x]) = (case find P xs of Some v \<Rightarrow> Some v | None \<Rightarrow> if P x then Some x else None)"
  by (induction xs) auto

lemma find_SomeD: "find P xs = Some v \<Longrightarrow> v \<in> set xs \<and> P v"
  by (induction xs) (auto split: if_split_asm)

lemma add_invokers_keys:
  "fst (add_invokers md5 n ivks keys virtual) = keys @ concat (map (ring_keys md5 n) ivks)"
  by (induction ivks arbitrary: keys virtual) auto

lemma add_invokers_virtual:
  "map_of (snd (add_invokers md5 n ivks keys virtual)) k =
     (case find (\<lambda>v. k \<in> set (ring_keys md5 n v)) (rev ivks) of
        Some v \<Rightarrow> Some v | None \<Rightarrow> map_of virtual k)"
proof (induction ivks arbitrary: keys virtual)
  case (Cons ivk ivks)
  show ?case using Cons by (simp add: map_of_fold_put find_snoc split: option.split)
qed simp

definition ring :: "(string \<Rightarrow> nat \<Rightarrow> 8 word) \<Rightarrow> int \<Rightarrow> invoker list \<Rightarrow> 32 word set" where
  "ring md5 n ivks = (\<Union>v \<in> set ivks. set (ring_keys md5 n v))"

lemma newSelector_Some:
  assumes "newSelector md5 ivks name code = Inr (Some c)"
  shows "sorted (sel_keys c)" "set (sel_keys c) = ring md5 (replicaNum c) ivks" "hashCode c = code"
    "map_of (virtualInvokers c) k = find (\<lambda>v. k \<in> set (ring_keys md5 (replicaNum c) v)) (rev ivks)"
proof -
  obtain keys virtual where add: "add_invokers md5 (replicaNum c) ivks [] [] = (keys, virtual)"
    by (cases "add_invokers md5 (replicaNum c) ivks [] []")
  have c: "sel_keys c = sort keys" "virtualInvokers c = virtual" "hashCode c = code"
    using assms add by (auto simp: newSelector_def Let_def elim!: go_bindE split: option.splits prod.splits)
  have keys: "keys = concat (map (ring_keys md5 (replicaNum c)) ivks)"
    using add_invokers_keys [of md5 "replicaNum c" ivks "[]" "[]"] add by simp
  show "sorted (sel_keys c)" "hashCode c = code" by (simp_all add: c)
  show "set (sel_keys c) = ring md5 (replicaNum c) ivks" by (auto simp: c keys ring_def)
  show "map_of (virtualInvokers c) k = find (\<lambda>v. k \<in> set (ring_keys md5 (replicaNum c) v)) (rev ivks)"
    using add_invokers_virtual [of md5 "replicaNum c" ivks "[]" "[]" k] add by (simp add: c split: option.splits)
qed

lemma ring_owner_in: "finite K \<Longrightarrow> K \<noteq> {} \<Longrightarrow> ring_owner K h \<in> K"
  using Min_in [of "{k \<in> K. h \<le> k}"] Min_in [of K] by (auto simp: ring_owner_def)

lemma ring_owner_subset:
  assumes "finite K" "K' \<subseteq> K" "ring_owner K h \<in> K'"
  shows "ring_owner K' h = ring_owner K h"
proof (cases "\<exists>k \<in> K. h \<le> k")
  case True
  let ?o = "ring_owner K h"
  have o: "?o = Min {k \<in> K. h \<le> k}" using True by (simp add: ring_owner_def)
  have fin: "finite {k \<in> K. h \<le> k}" "{k \<in> K. h \<le> k} \<noteq> {}" using assms(1) True by auto
  have "h \<le> ?o" using Min_in [OF fin] o by simp
  moreover have "?o \<le> k" if "k \<in> K'" "h \<le> k" for k using that assms(2) Min_le [OF fin(1), of k] o by auto
  ultimately have "Min {k \<in> K'. h \<le> k} = ?o"
    using assms finite_subset [OF assms(2,1)] by (intro Min_eqI) auto
  moreover have "\<exists>k \<in> K'. h \<le> k" using \<open>h \<le> ?o\<close> assms(3) by blast
  ultimately show ?thesis by (simp add: ring_owner_def)
next
  case False
  then have o: "ring_owner K h = Min K" "ring_owner K' h = Min K'" using assms(2) by (auto simp: ring_owner_def)
  have "Min K' = Min K"
    using assms finite_subset [OF assms(2,1)] unfolding o(1) by (intro Min_eqI) (auto intro: Min_le)
  then show ?thesis by (simp add: o)
qed

lemma finite_ring: "finite (ring md5 n ivks)"
  by (simp add: ring_def)

lemma select_member:
  assumes "newSelector md5 ivks name code = Inr (Some c)" "sel_keys c \<noteq> []"
  shows "\<exists>v \<in> set ivks. selectForKey c h = Inr (Some v) \<and>
    ring_owner (ring md5 (replicaNum c) ivks) h \<in> set (ring_keys md5 (replicaNum c) v)"
proof -
  note new = newSelector_Some [OF assms(1)]
  let ?o = "ring_owner (ring md5 (replicaNum c) ivks) h"
  have "ring md5 (replicaNum c) ivks \<noteq> {}" using assms(2) new(2) by (metis set_empty)
  from ring_owner_in [OF finite_ring this] obtain w where "w \<in> set (rev ivks)" "?o \<in> set (ring_keys md5 (replicaNum c) w)"
    by (auto simp: ring_def)
  then obtain v where v: "find (\<lambda>v. ?o \<in> set (ring_keys md5 (replicaNum c) v)) (rev ivks) = Some v"
    by (cases "find (\<lambda>v. ?o \<in> set (ring_keys md5 (replicaNum c) v)) (rev ivks)") (auto simp: find_None_iff)
  then have "v \<in> set ivks" "?o \<in> set (ring_keys md5 (replicaNum c) v)" using find_SomeD [OF v] by simp_all
  moreover have "selectForKey c h = Inr (Some v)"
    using selectForKey_owner [OF new(1) assms(2), of h] new(2,4) v by simp
  ultimately show ?thesis by blast
qed

lemma selector_Select_member:
  assumes "newSelector md5 ivks name code = Inr (Some c)" "selector_Select md5 fmt c call = Inr (Some u)"
  shows "u \<in> set ivks"
proof -
  have "sel_keys c \<noteq> []" using assms(2) by (auto simp: selector_Select_def selectForKey_def Let_def go_nth_def)
  from select_member [OF assms(1) this, of "ch_hash (md5 (toKey fmt c (Arguments call))) 0"] assms(2)
  show ?thesis by (auto simp: selector_Select_def)
qed

text \<open>
  C19.  A hash is served by the ring: for every selector with a non-empty ring, the binary search
  and the wrap-around return, for any hash, a candidate that owns the first ring position at or
  after the hash, or the very first position when the hash lies beyond the last one.
\<close>

theorem selectForKey_ring_successor:
  assumes "newSelector md5 ivks name code = Inr (Some c)" "sel_keys c \<noteq> []"
  shows "\<exists>v \<in> set ivks. selectForKey c h = Inr (Some v) \<and>
    ring_owner (ring md5 (replicaNum c) ivks) h \<in> set (ring_keys md5 (replicaNum c) v)"
  using assms by (rule select_member)

text \<open>Two candidates with four ring positions each, under a readable digest.\<close>

definition sample_md5 :: "string \<Rightarrow> nat \<Rightarrow> 8 word" where
  "sample_md5 s i =
     (if i mod 4 = 1 then (case drop 7 s of [] \<Rightarrow> 0 | c # _ \<Rightarrow> of_char c)
      else if i mod 4 = 0 then of_nat (i div 4) else 0)"

definition ring_peer :: "nat \<Rightarrow> string \<Rightarrow> string \<Rightarrow> invoker" where
  "ring_peer n ip args =
     \<lparr>ivk_id = n, GetURL = NewURLWithOptions [WithProtocol ''tri'', WithIp ip, WithPort ''20000'',
        WithParamsValue ''methods.Greet.hash.nodes'' ''4'',
        WithParamsValue ''methods.Greet.hash.arguments'' args]\<rparr>"

abbreviation "peer1 \<equiv> ring_peer 7 ''10.0.0.1'' ''0''"
abbreviation "peer2 \<equiv> ring_peer 8 ''10.0.0.2'' ''0''"

definition sample_ring :: selector where
  "sample_ring = \<lparr>hashCode = 0, replicaNum = 4,
     virtualInvokers = [(0x3100, peer1), (0x3101, peer1), (0x3102, peer1), (0x3103, peer1),
       (0x3200, peer2), (0x3201, peer2), (0x3202, peer2), (0x3203, peer2)],
     sel_keys = [0x3100, 0x3101, 0x3102, 0x3103, 0x3200, 0x3201, 0x3202, 0x3203], argumentIndex = [0]\<rparr>"

definition sample_rest :: selector where
  "sample_rest = \<lparr>hashCode = 0, replicaNum = 4,
     virtualInvokers = [(0x3200, peer2), (0x3201, peer2), (0x3202, peer2), (0x3203, peer2)],
     sel_keys = [0x3200, 0x3201, 0x3202, 0x3203], argumentIndex = [0]\<rparr>"

lemma sample_keys:
  "ring_keys sample_md5 4 peer1 = [0x3100, 0x3101, 0x3102, 0x3103]"
  "ring_keys sample_md5 4 peer2 = [0x3200, 0x3201, 0x3202, 0x3203]"
  by code_simp+

lemma sample_param:
  "GetMethodParam (GetURL (ring_peer n ip args)) ''Greet'' HashArguments d = (if args = '''' then d else args)"
  "GetMethodParamIntValue (GetURL (ring_peer n ip args)) ''Greet'' HashNodes 160 = 4"
  by (simp_all add: ring_peer_def GetMethodParam_def GetMethodParamIntValue_def Let_def lb_eval)

lemma sample_index: "parse_indices (comma_split [] ''0'') = Some [0]"
  by code_simp

lemma sample_selectors:
  "newSelector sample_md5 [peer1, peer2] ''Greet'' 0 = Inr (Some sample_ring)"
  "newSelector sample_md5 [peer2] ''Greet'' 0 = Inr (Some sample_rest)"
  by (simp_all add: newSelector_def go_nth_def sample_param sample_index sample_keys sample_ring_def
      sample_rest_def Let_def)

lemma ring_peer_id: "ring_peer n ip args = ring_peer n' ip' args' \<Longrightarrow> n = n'"
  by (simp add: ring_peer_def)

lemma sample_peers_differ: "peer1 \<noteq> peer2"
  by (auto dest: ring_peer_id)

theorem selectForKey_ring_successor_witness:
  "\<exists>v \<in> set [peer1, peer2]. selectForKey sample_ring 0x3150 = Inr (Some v) \<and>
     ring_owner (ring sample_md5 4 [peer1, peer2]) 0x3150 \<in> set (ring_keys sample_md5 4 v)"
  using selectForKey_ring_successor [OF sample_selectors(1), of "0x3150"] by (simp add: sample_ring_def)

text \<open>
  C20.  Consistent hashing is consistent: when a candidate leaves and no two candidates share a
  ring position, every hash that was served by another candidate is still served by it.
\<close>

theorem removal_keeps_assignment:
  assumes "newSelector md5 ivks name code = Inr (Some c)" "sel_keys c \<noteq> []"
    "newSelector md5 (removeAll v ivks) name code' = Inr (Some c')" "replicaNum c' = replicaNum c"
    "\<forall>u \<in> set ivks. \<forall>w \<in> set ivks. u \<noteq> w \<longrightarrow>
       set (ring_keys md5 (replicaNum c) u) \<inter> set (ring_keys md5 (replicaNum c) w) = {}"
    and sel: "selectForKey c h = Inr (Some u)" "u \<noteq> v"
  shows "selectForKey c' h = Inr (Some u)"
proof -
  let ?n = "replicaNum c" and ?ivks' = "removeAll v ivks"
  let ?o = "ring_owner (ring md5 ?n ivks) h"
  note new' = newSelector_Some [OF assms(3), unfolded assms(4)]
  from select_member [OF assms(1,2), of h] sel(1)
  have u: "u \<in> set ivks" "?o \<in> set (ring_keys md5 ?n u)" by auto
  then have o': "?o \<in> ring md5 ?n ?ivks'" using sel(2) by (auto simp: ring_def)
  have eq: "ring_owner (ring md5 ?n ?ivks') h = ?o"
    by (rule ring_owner_subset [OF finite_ring _ o']) (auto simp: ring_def)
  have ne: "sel_keys c' \<noteq> []" using o' new'(2) by auto
  from select_member [OF assms(3) ne, of h, unfolded assms(4) eq] obtain w where
    w: "w \<in> set ?ivks'" "selectForKey c' h = Inr (Some w)" "?o \<in> set (ring_keys md5 ?n w)" by blast
  then have "w = u" using assms(5) u by (metis disjoint_iff set_removeAll Diff_iff)
  with w(2) show ?thesis by simp
qed

theorem removal_keeps_assignment_witness:
  "selectForKey sample_ring 0x3150 = Inr (Some peer2) \<and> selectForKey sample_rest 0x3150 = Inr (Some peer2)"
proof -
  have sel: "selectForKey sample_ring 0x3150 = Inr (Some peer2)"
    by (simp add: selectForKey_def Search_def Search_loop.simps sample_ring_def Let_def go_nth_def)
  have rest: "newSelector sample_md5 (removeAll peer1 [peer1, peer2]) ''Greet'' 0 = Inr (Some sample_rest)"
    using sample_selectors(2) sample_peers_differ by simp
  show ?thesis
    using removal_keeps_assignment [OF sample_selectors(1) _ rest _ _ sel sample_peers_differ [symmetric]] sel
    by (simp add: sample_ring_def sample_rest_def sample_keys)
qed

section \<open>The cache of selectors\<close>

text \<open>
  The cache does not notice a change of candidates it cannot see in their JSON encoding.
  \<^verbatim>\<open>json.Marshal\<close> sees exported fields only, and an invoker has none; when all candidates encode
  alike, replacing every candidate by others of the same number and service keeps the old ring,
  so a call still goes to a candidate that is gone.
\<close>

lemma Conshash_stale_selector:
  assumes "\<forall>ivk. marshal ivk = Some b"
    and "Conshash_Select md5 crc32 marshal fmt call ivks [] = (Inr (Some u), ss)"
    and "ivks' \<noteq> []" "length ivks' = length ivks"
    "ServiceKey (GetURL (hd ivks')) = ServiceKey (GetURL (hd ivks))"
  shows "u \<in> set ivks \<and> Conshash_Select md5 crc32 marshal fmt call ivks' ss = (Inr (Some u), ss)"
proof -
  have all: "marshal_all marshal xs = Some (concat (replicate (length xs) b))" for xs
    using assms(1) by (induction xs) auto
  let ?key = "ServiceKey (GetURL (hd ivks)) @ ''.'' @ MethodName call"
  let ?code = "crc32 (concat (replicate (length ivks) b))"
  have ne: "ivks \<noteq> []" using assms(3,4) by auto
  have hd: "go_nth xs 0 = Inr (hd xs)" if "xs \<noteq> []" for xs :: "invoker list" using that by (simp add: hd_conv_nth)
  obtain c where c: "newSelector md5 ivks (MethodName call) ?code = Inr (Some c)" "ss = [(?key, Some c)]"
    "selector_Select md5 fmt c call = Inr (Some u)"
    using assms(2) by (auto simp: Conshash_Select_def hd [OF ne] Let_def all selector_fresh_def
        split: sum.splits option.splits elim!: go_bindE)
  have "u \<in> set ivks" using c(1,3) by (rule selector_Select_member)
  then show ?thesis
    using c newSelector_Some(3) [OF c(1)] assms(3-5)
    by (simp add: Conshash_Select_def hd [OF assms(3)] Let_def all selector_fresh_def)
qed

text \<open>
  An argument index that is not a number makes every call of the method panic: the first
  call caches a nil selector and dereferences it, and from then on any call for that service and
  method panics on the cached nil, whatever its candidates are configured with.
\<close>

lemma Conshash_bad_arguments_panic:
  assumes "ivks \<noteq> []" "marshal_all marshal ivks = Some bs"
    "parse_indices (comma_split [] (GetMethodParam (GetURL (hd ivks)) (MethodName call) HashArguments ''0'')) = None"
    and "Conshash_Select md5 crc32 marshal fmt call ivks [] = (r, ss)"
    and "ivks' \<noteq> []" "marshal_all marshal ivks' = Some bs'"
    "ServiceKey (GetURL (hd ivks')) = ServiceKey (GetURL (hd ivks))"
  shows "r = Inl NilDereference \<and>
    Conshash_Select md5 crc32 marshal fmt call ivks' ss = (Inl NilDereference, ss)"
proof -
  have hd: "go_nth xs 0 = Inr (hd xs)" if "xs \<noteq> []" for xs :: "invoker list" using that by (simp add: hd_conv_nth)
  have "newSelector md5 ivks (MethodName call) code = Inr None" for code
    using assms(3) by (simp add: newSelector_def hd [OF assms(1)] Let_def)
  then have "r = Inl NilDereference" "ss = [(ServiceKey (GetURL (hd ivks)) @ ''.'' @ MethodName call, None)]"
    using assms(2,4) by (auto simp: Conshash_Select_def hd [OF assms(1)] Let_def selector_fresh_def)
  then show ?thesis
    using assms(6,7) by (simp add: Conshash_Select_def hd [OF assms(5)] Let_def selector_fresh_def)
qed

definition greeting :: RPCInvocation where
  "greeting = NewRPCInvocation ''Greet'' (Some [GStr ''hi'']) None"

abbreviation "sample_select \<equiv> Conshash_Select sample_md5 (\<lambda>_. 0) (\<lambda>_. Some ''{}'') (\<lambda>_. [])"

lemma greeting_args: "MethodName greeting = ''Greet''" "Arguments greeting = [GStr ''hi'']"
  by (simp_all add: greeting_def NewRPCInvocation_def MethodName_def Arguments_def)

lemma sample_key: "ServiceKey (GetURL (ring_peer n ip args)) = ''''"
  by (simp add: ring_peer_def lb_eval ServiceKey_def ServiceKey3_def TrimPrefix_def)

lemma sample_first:
  "sample_select greeting [peer1, peer2] [] = (Inr (Some peer1), [(''.Greet'', Some sample_ring)])"
  by (simp add: Conshash_Select_def go_nth_def sample_key greeting_args selector_fresh_def sample_selectors
      selector_Select_def toKey_def sample_ring_def selectForKey_def Search_def Search_loop.simps
      ch_hash_def sample_md5_def Let_def)



lemma Conshash_first_member:
  assumes "fst (Conshash_Select md5 crc32 marshal fmt call ivks []) = Inr (Some ivk)"
  shows "ivk \<in> set ivks"
proof -
  obtain code c where c: "newSelector md5 ivks (MethodName call) code = Inr (Some c)"
    "selector_Select md5 fmt c call = Inr (Some ivk)"
    using assms by (auto simp: Conshash_Select_def Let_def selector_fresh_def
        split: sum.splits option.splits elim!: go_bindE)
  from c show ?thesis by (rule selector_Select_member)
qed

interpretation conshash_first: load_balance
  "\<lambda>(md5, crc32, marshal, fmt) call ivks. fst (Conshash_Select md5 crc32 marshal fmt call ivks [])"
  by unfold_locales (auto dest: Conshash_first_member)

end
