(* ===== verification/Triple_Code.thy ===== *)
theory Triple_Code
  imports Rpc_Types
begin

text \<open>
  The status codes of the triple protocol (\<^verbatim>\<open>protocol/triple/triple_protocol/code.go\<close>) with their
  text form, and the wrapping of errors with a code (\<^verbatim>\<open>error.go\<close>).  A code is a \<^verbatim>\<open>uint32\<close>, here a
  number below \<open>2 ^ 32\<close>.
\<close>

section \<open>Codes as text\<close>

definition code_names :: "(nat \<times> string) list" where
  "code_names =
     [(1, ''canceled''), (2, ''unknown''), (3, ''invalid_argument''), (4, ''deadline_exceeded''),
      (5, ''not_found''), (6, ''already_exists''), (7, ''permission_denied''), (8, ''resource_exhausted''),
      (9, ''failed_precondition''), (10, ''aborted''), (11, ''out_of_range''), (12, ''unimplemented''),
      (13, ''internal''), (14, ''unavailable''), (15, ''data_loss''), (16, ''unauthenticated'')]"

definition minCode :: nat where "minCode = 1"
definition maxCode :: nat where "maxCode = 16"

definition Code_String :: "nat \<Rightarrow> string" where
  "Code_String c = (case map_of code_names c of Some name \<Rightarrow> name | None \<Rightarrow> ''code_'' @ nat_digits c)"

definition MarshalText :: "nat \<Rightarrow> string" where
  "MarshalText c = Code_String c"

text \<open>\<^verbatim>\<open>strconv.ParseUint(s, 10, 64)\<close>; the conversion to \<^verbatim>\<open>Code\<close> keeps the low 32 bits.\<close>

definition ParseUint64 :: "string \<Rightarrow> nat option" where
  "ParseUint64 s = (case ParseUint10 s of Some n \<Rightarrow> if n < 2 ^ 64 then Some n else None | None \<Rightarrow> None)"

text \<open>The cases of the switch in \<^verbatim>\<open>UnmarshalText\<close>.\<close>

definition code_texts :: "(string \<times> nat) list" where
  "code_texts =
     [(''canceled'', 1), (''unknown'', 2), (''invalid_argument'', 3), (''deadline_exceeded'', 4),
      (''not_found'', 5), (''already_exists'', 6), (''permission_denied'', 7), (''resource_exhausted'', 8),
      (''failed_precondition'', 9), (''aborted'', 10), (''out_of_range'', 11), (''unimplemented'', 12),
      (''internal'', 13), (''unavailable'', 14), (''data_loss'', 15), (''unauthenticated'', 16)]"

definition UnmarshalText :: "string \<Rightarrow> nat option" where
  "UnmarshalText data =
     (case map_of code_texts data of
        Some c \<Rightarrow> Some c
      | None \<Rightarrow>
          if HasPrefix data ''code_''
          then (case ParseUint64 (drop 5 data) of
                  Some code \<Rightarrow> if code < minCode \<or> code > maxCode then Some (code mod 2 ^ 32) else None
                | None \<Rightarrow> None)
          else None)"

section \<open>Errors with a code\<close>

fun error_text :: "go_error \<Rightarrow> string" where
  "error_text (PlainError msg) = msg"
| "error_text (TripleError c _ msg) = (if msg = '''' then Code_String c else Code_String c @ '': '' @ msg)"
| "error_text (Wrapped msg _) = msg"
| "error_text ContextCanceled = ''context canceled''"
| "error_text ContextDeadlineExceeded = ''context deadline exceeded''"

definition NewError :: "nat \<Rightarrow> go_error \<Rightarrow> go_error" where
  "NewError c underlying = TripleError c False (error_text underlying)"

definition NewWireError :: "nat \<Rightarrow> go_error \<Rightarrow> go_error" where
  "NewWireError c underlying = TripleError c True (error_text underlying)"

text \<open>\<^verbatim>\<open>errors.Is\<close> for the two context errors, on an error without a triple error in its chain.\<close>

fun error_Is :: "go_error \<Rightarrow> go_error \<Rightarrow> bool" where
  "error_Is (Wrapped _ e) target = error_Is e target"
| "error_Is e target = (e = target)"

definition wrapIfContextError :: "go_error option \<Rightarrow> go_error option" where
  "wrapIfContextError err =
     (case err of
        None \<Rightarrow> None
      | Some e \<Rightarrow>
          if asError e \<noteq> None then Some e
          else if error_Is e ContextCanceled then Some (NewError 1 e)
          else if error_Is e ContextDeadlineExceeded then Some (NewError 4 e)
          else Some e)"

definition wrapIfUncoded :: "go_error option \<Rightarrow> go_error option" where
  "wrapIfUncoded err =
     (case wrapIfContextError err of
        None \<Rightarrow> None
      | Some e \<Rightarrow> if asError e \<noteq> None then Some e else Some (NewError CodeUnknown e))"

lemma asError_NewError [simp]: "asError (NewError c e) = Some (c, False)" "asError (NewWireError c e) = Some (c, True)"
  by (simp_all add: NewError_def NewWireError_def)

lemma wrapIfUncoded_idem: "wrapIfUncoded (wrapIfUncoded err) = wrapIfUncoded err"
  by (auto simp: wrapIfUncoded_def wrapIfContextError_def split: option.splits)

lemma wrapIfUncoded_keeps_code:
  "err = Some e \<Longrightarrow> \<exists>e'. wrapIfUncoded err = Some e' \<and> asError e' \<noteq> None \<and>
     (asError e \<noteq> None \<longrightarrow> e' = e) \<and> (asError e = None \<longrightarrow> CodeOf e' \<in> {1, 4, CodeUnknown} \<and> \<not> IsWireError e')"
  by (auto simp: wrapIfUncoded_def wrapIfContextError_def CodeOf_def IsWireError_def)

section \<open>Round trip of the codes\<close>

lemma code_names_checked:
  "\<forall>(c, name) \<in> set code_names. map_of code_texts name = Some c"
  "\<forall>c \<in> set [1..<17]. map_of code_names c \<noteq> None"
  "\<forall>(name, c) \<in> set code_texts. take 5 name \<noteq> ''code_''"
  by code_simp+

lemma code_names_inverse:
  "map_of code_names c = Some name \<Longrightarrow> map_of code_texts name = Some c"
  using code_names_checked(1) map_of_SomeD [of code_names c name] by blast

lemma code_names_total: "1 \<le> c \<Longrightarrow> c \<le> 16 \<Longrightarrow> map_of code_names c \<noteq> None"
  using code_names_checked(2) by simp

lemma not_a_name: "map_of code_texts (''code_'' @ s) = None"
proof -
  have "(''code_'' @ s) \<notin> fst ` set code_texts" using code_names_checked(3) by fastforce
  then show ?thesis by (simp add: map_of_eq_None_iff)
qed

lemma ParseUint64_nat_digits: "n < 2 ^ 64 \<Longrightarrow> ParseUint64 (nat_digits n) = Some n"
  using nat_digits_hd [of n] parse_nat_digits [of 0 n] by (simp add: ParseUint64_def ParseUint10_def)

lemma UnmarshalText_code:
  assumes "n < 2 ^ 64" "n < 1 \<or> 16 < n"
  shows "UnmarshalText (''code_'' @ nat_digits n) = Some (n mod 2 ^ 32)"
  using assms ParseUint64_nat_digits [OF assms(1)] not_a_name [of "nat_digits n"]
  by (simp add: UnmarshalText_def minCode_def maxCode_def)

text \<open>
  C39.  Every code survives the trip through its text form, the sixteen named codes as well as the
  others; but the text form is not unique, because a number of up to 64 bits is accepted and cut
  to 32: the text of every number \<open>n\<close> beyond 32 bits reads as the code \<open>n mod 2 ^ 32\<close>, and so a
  canonical code has other texts besides its name.
\<close>

theorem Code_text_round_trip:
  "(c < 2 ^ 32 \<longrightarrow> UnmarshalText (MarshalText c) = Some c) \<and>
   (2 ^ 32 \<le> n \<and> n < 2 ^ 64 \<longrightarrow> UnmarshalText (''code_'' @ nat_digits n) = Some (n mod 2 ^ 32))"
proof -
  have "UnmarshalText (MarshalText c) = Some c" if c: "c < 2 ^ 32"
  proof (cases "map_of code_names c")
    case None
    then have "c < 1 \<or> 16 < c" using code_names_total [of c] by linarith
    with None c show ?thesis
      using UnmarshalText_code [of c] by (simp add: MarshalText_def Code_String_def)
  next
    case (Some name)
    then show ?thesis
      using code_names_inverse by (simp add: MarshalText_def Code_String_def UnmarshalText_def)
  qed
  moreover have "UnmarshalText (''code_'' @ nat_digits n) = Some (n mod 2 ^ 32)" if "2 ^ 32 \<le> n" "n < 2 ^ 64"
    using that by (intro UnmarshalText_code) auto
  ultimately show ?thesis by blast
qed

theorem Code_text_round_trip_witness:
  "UnmarshalText (MarshalText 14) = Some 14 \<and> UnmarshalText (MarshalText 17) = Some 17 \<and>
   UnmarshalText (''code_'' @ nat_digits 4294967310) = Some 14"
  using Code_text_round_trip [of 14 4294967310] Code_text_round_trip [of 17] by simp

end
