(* ===== verification/Cluster_Base.thy ===== *)
theory Cluster_Base
  imports Rpc_Status Load_Balance
begin

text \<open>
  \<^verbatim>\<open>cluster/cluster/base/cluster_invoker.go\<close>: what the cluster invokers share.  A cluster invoker
  works on the record \<open>cluster\<close>: its own fields, the shared RPC status, the state of the load
  balancer, the invocation being served (a pointer that the callees may write through) and the
  rest of the world.  \<open>cluster_env\<close> holds the interfaces it calls: the directory, the candidate
  invokers and the registry of load balancers.  A directory listing and a remote call may change
  the whole record, because other goroutines run meanwhile; whether an invoker is available is
  read from the world.
\<close>

section \<open>State and interfaces\<close>

abbreviation StickyKey :: string where "StickyKey \<equiv> ''sticky''"
abbreviation DefaultLoadBalance :: string where "DefaultLoadBalance \<equiv> ''random''"

text \<open>\<open>refreshes\<close> counts the goroutines started to refresh the black list that have not run yet.\<close>

record ('w, 'l) cluster =
  AvailableCheck :: bool
  Destroyed :: bool
  StickyInvoker :: "invoker option"
  status :: rpc_state
  refreshes :: nat
  lb_state :: 'l
  invocation :: RPCInvocation
  world :: 'w

record ('w, 'l) cluster_env =
  Directory_GetURL :: "url option"
  Directory_List :: "(('w, 'l) cluster, invoker list) proc"
  Directory_IsAvailable :: "'w \<Rightarrow> bool"
  Directory_Destroy :: "'w \<Rightarrow> 'w"
  IsAvailable :: "'w \<Rightarrow> invoker \<Rightarrow> bool"
  Invoke :: "invoker \<Rightarrow> (('w, 'l) cluster, RPCResult) proc"
  GetLoadbalance :: "string \<Rightarrow> (rpc_state \<times> 'l) balancer option"

definition NewBaseClusterInvoker :: "rpc_state \<Rightarrow> 'l \<Rightarrow> RPCInvocation \<Rightarrow> 'w \<Rightarrow> ('w, 'l) cluster" where
  "NewBaseClusterInvoker st l call w =
     \<lparr>AvailableCheck = True, Destroyed = False, StickyInvoker = None, status = st, refreshes = 0,
      lb_state = l, invocation = call, world = w\<rparr>"

definition Destroy :: "('w, 'l) cluster_env \<Rightarrow> ('w, 'l) cluster \<Rightarrow> ('w, 'l) cluster" where
  "Destroy env s =
     (if Destroyed s then s else s\<lparr>Destroyed := True, world := Directory_Destroy env (world s)\<rparr>)"

definition cluster_IsAvailable :: "('w, 'l) cluster_env \<Rightarrow> ('w, 'l) cluster \<Rightarrow> bool" where
  "cluster_IsAvailable env s =
     (case StickyInvoker s of
        Some sticky \<Rightarrow> IsAvailable env (world s) sticky
      | None \<Rightarrow> Directory_IsAvailable env (world s))"

definition getStickyInvoker :: "('w, 'l) cluster \<Rightarrow> invoker option" where
  "getStickyInvoker s = StickyInvoker s"

definition setStickyInvoker :: "invoker option \<Rightarrow> ('w, 'l) cluster \<Rightarrow> ('w, 'l) cluster" where
  "setStickyInvoker v s = s\<lparr>StickyInvoker := v\<rparr>"

section \<open>Checks\<close>

text \<open>
  The messages are cut before the local address and the version.  Building the message of an
  empty candidate list reads the URL of the directory and the key of its nested URL.
\<close>

definition err_no_provider :: "string \<Rightarrow> string \<Rightarrow> go_error" where
  "err_no_provider method key =
     PlainError (''failed to invoke the method '' @ method @ ''. No provider available for the service '' @ key)"

definition err_destroyed :: "string \<Rightarrow> go_error" where
  "err_destroyed service = PlainError (''rpc cluster invoker for '' @ service @ '' is now destroyed'')"

definition CheckInvokers :: "('w, 'l) cluster_env \<Rightarrow> invoker list \<Rightarrow> RPCInvocation \<Rightarrow> go_error option go" where
  "CheckInvokers env ivks call =
     (if length ivks = 0
      then (case Directory_GetURL env of
              None \<Rightarrow> Inl NilDereference
            | Some u \<Rightarrow>
                (case SubURL u of
                   None \<Rightarrow> Inl NilDereference
                 | Some sub \<Rightarrow> Inr (Some (err_no_provider (MethodName call) (Key sub)))))
      else Inr None)"

definition CheckWhetherDestroyed :: "('w, 'l) cluster_env \<Rightarrow> (('w, 'l) cluster, go_error option) proc" where
  "CheckWhetherDestroyed env s =
     (if Destroyed s
      then (case Directory_GetURL env of
              None \<Rightarrow> (Inl NilDereference, s)
            | Some u \<Rightarrow> (Inr (Some (err_destroyed (Service u))), s))
      else (Inr None, s))"

section \<open>Selection\<close>

definition isInvoked :: "invoker \<Rightarrow> invoker list \<Rightarrow> bool" where
  "isInvoked ivk invoked \<longleftrightarrow> ivk \<in> set invoked"

definition getOtherInvokers :: "invoker list \<Rightarrow> invoker \<Rightarrow> invoker list" where
  "getOtherInvokers ivks ivk = filter (\<lambda>i. i \<noteq> ivk) ivks"

definition lb_Select ::
  "(rpc_state \<times> 'l) balancer \<Rightarrow> invoker list \<Rightarrow> (('w, 'l) cluster, invoker option) proc" where
  "lb_Select lb ivks s =
     (case lb (invocation s) ivks (status s, lb_state s) of
        (r, st, l) \<Rightarrow> (r, s\<lparr>status := st, lb_state := l\<rparr>))"

definition mark_unhealthy :: "invoker \<Rightarrow> ('w, 'l) cluster \<Rightarrow> ('w, 'l) cluster" where
  "mark_unhealthy ivk s = s\<lparr>status := SetInvokerUnhealthyStatus ivk (status s)\<rparr>"

text \<open>
  The loop of \<^verbatim>\<open>doSelectInvoker\<close> that selects again, with the number of rounds left.  A nil from
  the load balancer is dereferenced.
\<close>

fun reselect ::
  "nat \<Rightarrow> ('w, 'l) cluster_env \<Rightarrow> (rpc_state \<times> 'l) balancer \<Rightarrow> invoker list \<Rightarrow> invoker \<Rightarrow>
   invoker list \<Rightarrow> (('w, 'l) cluster, invoker option) proc" where
  "reselect 0 env lb invoked selected others s = (Inr (Some selected), s)"
| "reselect (Suc n) env lb invoked selected others s =
     (if length others = 0 then (Inr (Some selected), s)
      else proc_bind (lb_Select lb others) (\<lambda>r s.
        case r of
          None \<Rightarrow> (Inl NilDereference, s)
        | Some ivk \<Rightarrow>
            if isInvoked ivk invoked
            then reselect n env lb invoked selected (getOtherInvokers others ivk) s
            else if \<not> IsAvailable env (world s) ivk
            then (case Directory_GetURL env of
                    None \<Rightarrow> (Inl NilDereference, s)
                  | Some _ \<Rightarrow>
                      reselect n env lb invoked selected (getOtherInvokers others ivk) (mark_unhealthy ivk s))
            else (Inr (Some ivk), s)) s)"

definition doSelectInvoker ::
  "('w, 'l) cluster_env \<Rightarrow> (rpc_state \<times> 'l) balancer \<Rightarrow> invoker list \<Rightarrow> invoker list \<Rightarrow>
   (('w, 'l) cluster, invoker option) proc" where
  "doSelectInvoker env lb ivks invoked s =
     (if length ivks = 0 then (Inr None, s)
      else let s = s\<lparr>refreshes := Suc (refreshes s)\<rparr>
           in if length ivks = 1
              then (if IsAvailable env (world s) (ivks ! 0) then (Inr (Some (ivks ! 0)), s)
                    else (Inr None, mark_unhealthy (ivks ! 0) s))
              else proc_bind (lb_Select lb ivks) (\<lambda>r s.
                case r of
                  None \<Rightarrow> (Inl NilDereference, s)
                | Some ivk \<Rightarrow>
                    if \<not> IsAvailable env (world s) ivk \<and> AvailableCheck s \<or> isInvoked ivk invoked
                    then reselect 3 env lb invoked ivk (getOtherInvokers ivks ivk) (mark_unhealthy ivk s)
                    else (Inr (Some ivk), s)) s)"

definition DoSelect ::
  "('w, 'l) cluster_env \<Rightarrow> (rpc_state \<times> 'l) balancer \<Rightarrow> invoker list \<Rightarrow> invoker list \<Rightarrow>
   (('w, 'l) cluster, invoker option) proc" where
  "DoSelect env lb ivks invoked s =
     (if length ivks = 0 then (Inr None, s)
      else let u = GetURL (ivks ! 0);
               sticky = GetMethodParamBool u (MethodName (invocation s)) StickyKey (GetParamBool u StickyKey False);
               s = (case getStickyInvoker s of
                      Some ivk \<Rightarrow> if isInvoked ivk ivks then s else setStickyInvoker None s
                    | None \<Rightarrow> s)
           in case getStickyInvoker s of
                Some ivk \<Rightarrow>
                  if sticky \<and> AvailableCheck s \<and> IsAvailable env (world s) ivk \<and> \<not> isInvoked ivk invoked
                  then (Inr (Some ivk), s)
                  else proc_bind (doSelectInvoker env lb ivks invoked)
                         (\<lambda>r s. (Inr r, if sticky then setStickyInvoker r s else s)) s
              | None \<Rightarrow>
                  proc_bind (doSelectInvoker env lb ivks invoked)
                    (\<lambda>r s. (Inr r, if sticky then setStickyInvoker r s else s)) s)"

definition lb_name :: "url \<Rightarrow> string \<Rightarrow> string" where
  "lb_name u method =
     (let lb = GetParam u LoadbalanceKey DefaultLoadBalance;
          v = GetMethodParam u method LoadbalanceKey ''''
      in if length v > 0 then v else lb)"

definition GetLoadBalance :: "('w, 'l) cluster_env \<Rightarrow> invoker \<Rightarrow> string \<Rightarrow> (rpc_state \<times> 'l) balancer go" where
  "GetLoadBalance env ivk method =
     (case GetLoadbalance env (lb_name (GetURL ivk) method) of
        None \<Rightarrow> Inl (Panicked ''loadbalance'')
      | Some lb \<Rightarrow> Inr lb)"

text \<open>A goroutine started by \<^verbatim>\<open>doSelectInvoker\<close> runs.\<close>

definition run_refresh :: "('w, 'l) cluster_env \<Rightarrow> ('w, 'l) cluster \<Rightarrow> ('w, 'l) cluster" where
  "run_refresh env s =
     (if refreshes s = 0 then s
      else s\<lparr>refreshes := refreshes s - 1,
             status := TryRefreshBlackList (IsAvailable env (world s)) (status s)\<rparr>)"

section \<open>What selection promises\<close>

text \<open>Selection changes only statistics, the load balancer's state and the sticky invoker.\<close>

definition quiet :: "('w, 'l) cluster \<Rightarrow> ('w, 'l) cluster \<Rightarrow> bool" where
  "quiet s t \<longleftrightarrow> AvailableCheck t = AvailableCheck s \<and> Destroyed t = Destroyed s \<and>
     invocation t = invocation s \<and> world t = world s"

lemma quiet_refl [simp]: "quiet s s"
  by (simp add: quiet_def)

lemma quiet_trans: "quiet s t \<Longrightarrow> quiet t u \<Longrightarrow> quiet s u"
  by (simp add: quiet_def)

lemma quiet_updates [simp]:
  "quiet s (mark_unhealthy ivk t) \<longleftrightarrow> quiet s t"
  "quiet s (setStickyInvoker v t) \<longleftrightarrow> quiet s t"
  "quiet s (t\<lparr>refreshes := n\<rparr>) \<longleftrightarrow> quiet s t"
  "quiet (mark_unhealthy ivk s) t \<longleftrightarrow> quiet s t"
  "quiet (setStickyInvoker v s) t \<longleftrightarrow> quiet s t"
  "quiet (s\<lparr>refreshes := n\<rparr>) t \<longleftrightarrow> quiet s t"
  by (simp_all add: quiet_def mark_unhealthy_def setStickyInvoker_def)

text \<open>This holds whatever the load balancer does.\<close>

lemma lb_Select_quiet: "lb_Select lb ivks s = (r, t) \<Longrightarrow> quiet s t"
  by (auto simp: lb_Select_def quiet_def split: prod.split_asm)

lemma reselect_quiet: "reselect n env lb invoked selected others s = (Inr r, t) \<Longrightarrow> quiet s t"
proof (induction n arbitrary: others s)
  case (Suc n)
  show ?case
  proof (cases "others = []")
    case False
    then obtain sel u where "lb_Select lb others s = (Inr sel, u)"
      using Suc.prems by (auto elim!: proc_bindE)
    note u = this lb_Select_quiet [OF this]
    show ?thesis
      using Suc.prems False u(1) quiet_trans [OF u(2)] u(2) Suc.IH
      by (auto split: option.split_asm if_split_asm) (metis quiet_updates(4))
  qed (use Suc.prems in simp)
qed simp

lemma doSelectInvoker_quiet:
  assumes "doSelectInvoker env lb ivks invoked s = (Inr r, t)"
  shows "quiet s t"
proof (cases "length ivks \<le> 1")
  case True
  then show ?thesis using assms by (auto simp: doSelectInvoker_def Let_def le_Suc_eq split: if_split_asm)
next
  case False
  let ?s = "s\<lparr>refreshes := Suc (refreshes s)\<rparr>"
  obtain ivk u where sel: "lb_Select lb ivks ?s = (Inr (Some ivk), u)"
    and rest: "(if \<not> IsAvailable env (world u) ivk \<and> AvailableCheck u \<or> isInvoked ivk invoked
      then reselect 3 env lb invoked ivk (getOtherInvokers ivks ivk) (mark_unhealthy ivk u)
      else (Inr (Some ivk), u)) = (Inr r, t)"
    using assms False
    by (auto simp: doSelectInvoker_def Let_def elim!: proc_bindE split: option.split_asm if_split_asm)
  have "quiet s u" using lb_Select_quiet [OF sel] by simp
  moreover have "quiet u t" using rest reselect_quiet by (fastforce split: if_split_asm)
  ultimately show ?thesis by (rule quiet_trans)
qed

lemma DoSelect_quiet:
  assumes "DoSelect env lb ivks invoked s = (Inr r, t)"
  shows "quiet s t"
proof -
  have "quiet s u'" if "doSelectInvoker env lb ivks invoked u = (Inr r', u')" "quiet s u" for u u' r'
    using quiet_trans [OF that(2) doSelectInvoker_quiet [OF that(1)]] .
  then show ?thesis
    using assms
    by (force simp: DoSelect_def Let_def elim!: proc_bindE split: option.split_asm if_split_asm)
qed

text \<open>A candidate worth a call: available and not tried before.\<close>

definition fresh :: "('w, 'l) cluster_env \<Rightarrow> ('w, 'l) cluster \<Rightarrow> invoker list \<Rightarrow> invoker \<Rightarrow> bool" where
  "fresh env s invoked ivk \<longleftrightarrow> IsAvailable env (world s) ivk \<and> \<not> isInvoked ivk invoked"

lemma fresh_quiet: "quiet s t \<Longrightarrow> fresh env t invoked ivk = fresh env s invoked ivk"
  by (simp add: fresh_def quiet_def)

lemma set_getOtherInvokers [simp]: "set (getOtherInvokers ivks ivk) = set ivks - {ivk}"
  by (auto simp: getOtherInvokers_def)

locale cluster_balancer = balancer lb for lb :: "(rpc_state \<times> 'l) balancer"
begin

lemma lb_Select_candidate:
  assumes "ivks \<noteq> []"
  shows "\<exists>ivk \<in> set ivks. \<exists>t. lb_Select lb ivks s = (Inr (Some ivk), t) \<and> quiet s t"
proof -
  obtain ivk st l where "lb (invocation s) ivks (status s, lb_state s) = (Inr (Some ivk), st, l)"
    using picks_one [OF assms, of "invocation s" "(status s, lb_state s)"] by auto
  moreover from picks_member [OF this] have "ivk \<in> set ivks" .
  ultimately show ?thesis by (auto simp: lb_Select_def quiet_def)
qed

lemma reselect_outcome:
  assumes "Directory_GetURL env \<noteq> None"
  shows "\<exists>ivk t. reselect n env lb invoked selected others s = (Inr (Some ivk), t) \<and> quiet s t \<and>
    (ivk = selected \<or> ivk \<in> set others \<and> fresh env s invoked ivk) \<and>
    (card (set others) \<le> n \<longrightarrow> (\<exists>i \<in> set others. fresh env s invoked i) \<longrightarrow> fresh env s invoked ivk)"
proof (induction n arbitrary: others s)
  case (Suc n)
  show ?case
  proof (cases "others = []")
    case False
    then obtain ivk t where ivk: "ivk \<in> set others" "lb_Select lb others s = (Inr (Some ivk), t)" "quiet s t"
      using lb_Select_candidate by blast
    show ?thesis
    proof (cases "fresh env s invoked ivk")
      case True
      with ivk show ?thesis
        by (auto simp: fresh_quiet [OF ivk(3), symmetric]) (auto simp: fresh_def)
    next
      case bad: False
      define u where "u = (if isInvoked ivk invoked then t else mark_unhealthy ivk t)"
      have u: "quiet s u" using ivk(3) by (simp add: u_def)
      have step: "reselect (Suc n) env lb invoked selected others s =
          reselect n env lb invoked selected (getOtherInvokers others ivk) u"
        using bad False ivk assms by (auto simp: u_def fresh_def quiet_def)
      have "card (set others - {ivk}) \<le> n" if "card (set others) \<le> Suc n" using that ivk(1) by simp
      moreover have "(\<exists>i \<in> set others - {ivk}. fresh env s invoked i) \<longleftrightarrow> (\<exists>i \<in> set others. fresh env s invoked i)"
        using bad by auto
      ultimately show ?thesis
        using Suc.IH [of "getOtherInvokers others ivk" u] u unfolding step
        by (auto simp: fresh_quiet [OF u] dest: quiet_trans [OF u])
    qed
  qed simp
qed auto

lemma doSelectInvoker_outcome:
  assumes "Directory_GetURL env \<noteq> None" "AvailableCheck s" "ivks \<noteq> []"
  shows "\<exists>r t. doSelectInvoker env lb ivks invoked s = (Inr r, t) \<and> quiet s t \<and>
    (\<forall>ivk. r = Some ivk \<longrightarrow> ivk \<in> set ivks) \<and>
    (card (set ivks) \<le> 4 \<longrightarrow> (\<exists>i \<in> set ivks. fresh env s invoked i) \<longrightarrow>
       (\<exists>ivk. r = Some ivk \<and> fresh env s invoked ivk))"
proof (cases "length ivks = 1")
  case True
  then obtain i where "ivks = [i]" by (auto simp: length_Suc_conv)
  then show ?thesis
    by (cases "IsAvailable env (world s) i") (simp_all add: doSelectInvoker_def Let_def fresh_def)
next
  case False
  let ?s = "s\<lparr>refreshes := Suc (refreshes s)\<rparr>"
  obtain ivk t where ivk: "ivk \<in> set ivks" "lb_Select lb ivks ?s = (Inr (Some ivk), t)" "quiet s t"
    using lb_Select_candidate [OF assms(3), of ?s] by auto
  then have t: "world t = world s" "AvailableCheck t" using assms(2) by (auto simp: quiet_def)
  show ?thesis
  proof (cases "fresh env s invoked ivk")
    case True
    then have "doSelectInvoker env lb ivks invoked s = (Inr (Some ivk), t)"
      using False assms(3) ivk t by (simp add: doSelectInvoker_def Let_def fresh_def)
    with True ivk show ?thesis by auto
  next
    case bad: False
    let ?u = "mark_unhealthy ivk t"
    have u: "quiet s ?u" using ivk(3) by simp
    have "doSelectInvoker env lb ivks invoked s = reselect 3 env lb invoked ivk (getOtherInvokers ivks ivk) ?u"
      using bad False assms(3) ivk t by (simp add: doSelectInvoker_def Let_def fresh_def)
    moreover have "(\<exists>i \<in> set ivks - {ivk}. fresh env s invoked i) \<longleftrightarrow> (\<exists>i \<in> set ivks. fresh env s invoked i)"
      using bad by auto
    moreover have "card (set ivks - {ivk}) \<le> 3" if "card (set ivks) \<le> 4" using that ivk(1) by simp
    moreover obtain r ta where "reselect 3 env lb invoked ivk (getOtherInvokers ivks ivk) ?u = (Inr (Some r), ta)"
      "quiet ?u ta" "r = ivk \<or> r \<in> set ivks - {ivk} \<and> fresh env s invoked r"
      "card (set ivks - {ivk}) \<le> 3 \<longrightarrow> (\<exists>i \<in> set ivks - {ivk}. fresh env s invoked i) \<longrightarrow> fresh env s invoked r"
      using reselect_outcome [OF assms(1), of 3 invoked ivk "getOtherInvokers ivks ivk" ?u]
      unfolding fresh_quiet [OF u] set_getOtherInvokers by blast
    moreover from this(2) have "quiet s ta" using u quiet_trans by blast
    ultimately show ?thesis using ivk(1) by (intro exI [of _ "Some r"] exI [of _ ta]) auto
  qed
qed

lemma DoSelect_outcome:
  assumes "Directory_GetURL env \<noteq> None" "AvailableCheck s" "ivks \<noteq> []"
  shows "\<exists>r t. DoSelect env lb ivks invoked s = (Inr r, t) \<and> quiet s t \<and>
    (\<forall>ivk. r = Some ivk \<longrightarrow> ivk \<in> set ivks) \<and>
    (card (set ivks) \<le> 4 \<longrightarrow> (\<exists>i \<in> set ivks. fresh env s invoked i) \<longrightarrow>
       (\<exists>ivk. r = Some ivk \<and> fresh env s invoked ivk))"
proof -
  define u where "u = (case getStickyInvoker s of
      Some ivk \<Rightarrow> if isInvoked ivk ivks then s else setStickyInvoker None s | None \<Rightarrow> s)"
  have u: "quiet s u" "\<And>ivk. getStickyInvoker u = Some ivk \<Longrightarrow> ivk \<in> set ivks"
    by (auto simp: u_def getStickyInvoker_def setStickyInvoker_def isInvoked_def quiet_def
        split: option.splits if_splits)
  have chk: "AvailableCheck u" using u(1) assms(2) by (simp add: quiet_def)
  define sticky where "sticky = GetMethodParamBool (GetURL (ivks ! 0)) (MethodName (invocation s)) StickyKey
    (GetParamBool (GetURL (ivks ! 0)) StickyKey False)"
  have unfold: "DoSelect env lb ivks invoked s =
      (if (\<exists>ivk. getStickyInvoker u = Some ivk \<and> sticky \<and> fresh env u invoked ivk)
       then (Inr (getStickyInvoker u), u)
       else proc_bind (doSelectInvoker env lb ivks invoked)
              (\<lambda>r s. (Inr r, if sticky then setStickyInvoker r s else s)) u)"
    using assms(3) chk
    by (auto simp: DoSelect_def Let_def u_def [symmetric] sticky_def [symmetric] fresh_def split: option.split)
  show ?thesis
  proof (cases "\<exists>ivk. getStickyInvoker u = Some ivk \<and> sticky \<and> fresh env u invoked ivk")
    case True
    with u show ?thesis by (auto simp: unfold fresh_quiet [OF u(1)])
  next
    case False
    obtain r t where r: "doSelectInvoker env lb ivks invoked u = (Inr r, t)" "quiet u t"
      "\<forall>ivk. r = Some ivk \<longrightarrow> ivk \<in> set ivks"
      "card (set ivks) \<le> 4 \<longrightarrow> (\<exists>i \<in> set ivks. fresh env u invoked i) \<longrightarrow> (\<exists>ivk. r = Some ivk \<and> fresh env u invoked ivk)"
      using doSelectInvoker_outcome [OF assms(1) chk assms(3), of invoked] by blast
    have "DoSelect env lb ivks invoked s = (Inr r, if sticky then setStickyInvoker r t else t)"
      unfolding unfold if_not_P [OF False] using r(1) by simp
    then show ?thesis using r(3,4) quiet_trans [OF u(1) r(2)] by (simp add: fresh_quiet [OF u(1)])
  qed
qed

end

interpretation random_cluster: cluster_balancer "with_draws (\<lambda>(now, r, r'). Random_Select now r r')"
  by (rule cluster_balancer.intro) (rule random_lb.drawn.balancer_axioms)

text \<open>
  C13.  With at most four candidates, selection finds a candidate that is available and has not
  been tried, whenever there is one, for every load balancer that returns one of its candidates
  and every sticky invoker left by earlier calls.  The first pick and three further rounds look
  at four candidates; beyond that the code gives up and returns its first pick.
\<close>

theorem DoSelect_finds_fresh:
  assumes "balancer lb" "Directory_GetURL env = Some u" "AvailableCheck s"
    "card (set ivks) \<le> 4" "ivk \<in> set ivks" "IsAvailable env (world s) ivk" "ivk \<notin> set invoked"
  shows "\<exists>sel t. DoSelect env lb ivks invoked s = (Inr (Some sel), t) \<and> sel \<in> set ivks \<and>
    IsAvailable env (world s) sel \<and> sel \<notin> set invoked \<and> world t = world s"
proof -
  have "ivks \<noteq> []" using assms(5) by auto
  moreover have "\<exists>i \<in> set ivks. fresh env s invoked i" using assms(5-7) by (auto simp: fresh_def isInvoked_def)
  ultimately show ?thesis
    using cluster_balancer.DoSelect_outcome [OF cluster_balancer.intro [OF assms(1)], of env s ivks invoked] assms(2-4)
    by (auto simp: fresh_def isInvoked_def quiet_def)
qed

text \<open>
  A small cluster: the candidates are listed as given, the world says which of them are up and
  what they reply, and random draws are zero.
\<close>

record sample_world =
  listed :: "invoker list"
  up :: "invoker \<Rightarrow> bool"
  reply :: "invoker \<Rightarrow> RPCResult"

definition no_draws :: "nat \<Rightarrow> int \<times> nat \<times> nat" where
  "no_draws n = (0, 0, 0)"

definition sample_url :: url where
  "sample_url = Url (url.fields sample_consumer) (Some sample_consumer)"

definition sample_env :: "(sample_world, (nat \<Rightarrow> int \<times> nat \<times> nat) \<times> nat) cluster_env" where
  "sample_env =
     \<lparr>Directory_GetURL = Some sample_url,
      Directory_List = (\<lambda>s. (Inr (listed (world s)), s)),
      Directory_IsAvailable = (\<lambda>w. \<exists>ivk \<in> set (listed w). up w ivk),
      Directory_Destroy = (\<lambda>w. w\<lparr>listed := []\<rparr>),
      IsAvailable = up,
      Invoke = (\<lambda>ivk s. (Inr (reply (world s) ivk), s)),
      GetLoadbalance = (\<lambda>_. Some (with_draws (\<lambda>(now, r, r'). Random_Select now r r')))\<rparr>"

definition sample_cluster :: "sample_world \<Rightarrow> (sample_world, (nat \<Rightarrow> int \<times> nat \<times> nat) \<times> nat) cluster" where
  "sample_cluster w = NewBaseClusterInvoker init_rpc_state (no_draws, 0) sample_call w"

theorem DoSelect_finds_fresh_witness:
  "\<exists>sel t. DoSelect sample_env (with_draws (\<lambda>(now, r, r'). Random_Select now r r'))
      [sample_invoker 1, sample_invoker 2, sample_invoker 3] [sample_invoker 1]
      (sample_cluster \<lparr>listed = [], up = (\<lambda>ivk. ivk_id ivk \<noteq> 2), reply = (\<lambda>_. empty_result)\<rparr>) = (Inr (Some sel), t) \<and>
    ivk_id sel \<noteq> 2 \<and> sel \<noteq> sample_invoker 1"
proof -
  have "card {sample_invoker 1, sample_invoker 2, sample_invoker 3} \<le> 3"
    using card_length [of "[sample_invoker 1, sample_invoker 2, sample_invoker 3]"] by simp
  then show ?thesis
    using DoSelect_finds_fresh [OF random_lb.drawn.balancer_axioms, of sample_env sample_url
      "sample_cluster \<lparr>listed = [], up = (\<lambda>ivk. ivk_id ivk \<noteq> 2), reply = (\<lambda>_. empty_result)\<rparr>"
      "[sample_invoker 1, sample_invoker 2, sample_invoker 3]" "sample_invoker 3" "[sample_invoker 1]"]
    by (auto simp: sample_env_def sample_cluster_def NewBaseClusterInvoker_def sample_invoker_def)
qed

end
