(* ===== verification/Cluster_Invokers.thy ===== *)
theory Cluster_Invokers
  imports Cluster_Base Triple_Code P2C
begin

text \<open>
  The fault-tolerance strategies of \<^verbatim>\<open>cluster/cluster\<close>: failover, failfast, failsafe, available,
  broadcast, forking, zone-aware and adaptive, and the chain of cluster interceptors.  Each
  \<^verbatim>\<open>Invoke\<close> is one definition over the record of the cluster invoker; what it calls comes from
  the environment.  Error messages are kept up to the values they print.
\<close>

abbreviation DefaultRetriesInt :: int where "DefaultRetriesInt \<equiv> 2"

definition check :: "('w, 'l) cluster_env \<Rightarrow> invoker list \<Rightarrow> (('w, 'l) cluster, go_error option) proc" where
  "check env ivks s = (CheckInvokers env ivks (invocation s), s)"

definition balancer_for ::
  "('w, 'l) cluster_env \<Rightarrow> invoker list \<Rightarrow> (RPCInvocation \<Rightarrow> string) \<Rightarrow>
   (('w, 'l) cluster, (rpc_state \<times> 'l) balancer) proc" where
  "balancer_for env ivks name s = (GetLoadBalance env (ivks ! 0) (name (invocation s)), s)"

section \<open>Failover\<close>

definition isBizError :: "go_error \<Rightarrow> bool" where
  "isBizError err \<longleftrightarrow> IsWireError err \<and> CodeOf err = CodeBizError"

definition getRetries :: "invoker list \<Rightarrow> string \<Rightarrow> RPCInvocation \<Rightarrow> int" where
  "getRetries ivks method call =
     (case Option.bind (GetAttachment call RetriesKey) Atoi of
        Some r \<Rightarrow> r
      | None \<Rightarrow>
          if length ivks \<le> 0 then DefaultRetriesInt
          else let u = GetURL (ivks ! 0);
                   retries = GetMethodParamIntValue u method RetriesKey (GetParamByIntValue u RetriesKey DefaultRetriesInt)
               in if retries < 0 then DefaultRetriesInt else retries)"

definition retryable :: "RPCResult \<Rightarrow> bool" where
  "retryable res = (case Err res of None \<Rightarrow> False | Some e \<Rightarrow> \<not> isBizError e)"

text \<open>The candidates for attempt \<open>i\<close>: listed again, unless the cluster invoker is gone, before a retry.\<close>

definition relist ::
  "nat \<Rightarrow> ('w, 'l) cluster_env \<Rightarrow> invoker list \<Rightarrow> (('w, 'l) cluster, go_error + invoker list) proc" where
  "relist i env ivks =
     (if i > 0
      then proc_bind (CheckWhetherDestroyed env) (\<lambda>err. case err of
             Some e \<Rightarrow> proc_return (Inl e)
           | None \<Rightarrow> proc_bind (Directory_List env) (\<lambda>ivks.
               proc_bind (check env ivks) (\<lambda>err. case err of
                 Some e \<Rightarrow> proc_return (Inl e)
               | None \<Rightarrow> proc_return (Inr ivks))))
      else proc_return (Inr ivks))"

text \<open>
  The retry loop with \<open>n\<close> attempts left.  \<open>tried\<close> pairs each invoker of the code's list
  \<^verbatim>\<open>invoked\<close> with the result it gave, and \<open>ivk\<close> is the invoker of the last attempt.  The first
  component of the outcome is the result returned from inside the loop, if it was.
\<close>

fun failover_loop ::
  "nat \<Rightarrow> nat \<Rightarrow> ('w, 'l) cluster_env \<Rightarrow> (rpc_state \<times> 'l) balancer \<Rightarrow> invoker list \<Rightarrow> invoker option \<Rightarrow>
   (invoker \<times> RPCResult) list \<Rightarrow>
   (('w, 'l) cluster, RPCResult option \<times> invoker option \<times> (invoker \<times> RPCResult) list) proc" where
  "failover_loop 0 i env lb ivks ivk tried s = (Inr (None, ivk, tried), s)"
| "failover_loop (Suc n) i env lb ivks ivk tried s =
     proc_bind (relist i env ivks) (\<lambda>listed s. case listed of
         Inl e \<Rightarrow> (Inr (Some (error_result e), ivk, tried), s)
       | Inr ivks \<Rightarrow> proc_bind (DoSelect env lb ivks (map fst tried)) (\<lambda>sel s. case sel of
             None \<Rightarrow> failover_loop n (Suc i) env lb ivks None tried s
           | Some v \<Rightarrow> proc_bind (Invoke env v) (\<lambda>res s.
               if retryable res
               then failover_loop n (Suc i) env lb ivks (Some v) (tried @ [(v, res)]) s
               else (Inr (Some res, Some v, tried @ [(v, res)]), s)) s) s) s"

definition err_failover :: "string \<Rightarrow> string \<Rightarrow> go_error" where
  "err_failover method service = PlainError (''failed to invoke the method '' @ method @ '' of the service '' @
     service @ '' .No provider is available because can't connect server'')"

definition failover_end ::
  "('w, 'l) cluster_env \<Rightarrow> string \<Rightarrow> RPCResult option \<times> invoker option \<times> (invoker \<times> RPCResult) list \<Rightarrow>
   RPCResult go" where
  "failover_end env method outcome =
     (case outcome of
        (Some res, _, _) \<Rightarrow> Inr res
      | (None, ivk, tried) \<Rightarrow>
          (case Directory_GetURL env of
             None \<Rightarrow> Inl NilDereference
           | Some u \<Rightarrow>
               if ivk = None then Inr (error_result (err_failover method (Service u)))
               else Inr (snd (last tried))))"

definition Failover_Invoke :: "('w, 'l) cluster_env \<Rightarrow> (('w, 'l) cluster, RPCResult) proc" where
  "Failover_Invoke env =
     proc_bind (Directory_List env) (\<lambda>ivks. proc_bind (check env ivks) (\<lambda>err. case err of
         Some e \<Rightarrow> proc_return (error_result e)
       | None \<Rightarrow> proc_bind (balancer_for env ivks ActualMethodName) (\<lambda>lb s.
           let method = ActualMethodName (invocation s);
               retries = getRetries ivks method (invocation s)
           in proc_bind (failover_loop (nat (retries + 1)) 0 env lb ivks None [])
                (\<lambda>outcome. proc_lift (failover_end env method outcome)) s)))"

section \<open>One attempt: failfast, failsafe, available\<close>

definition err_nil_invoker :: go_error where
  "err_nil_invoker = PlainError ''invoker is nil''"

definition err_none_available :: go_error where
  "err_none_available = PlainError ''no provider available in''"

definition Failfast_Invoke :: "('w, 'l) cluster_env \<Rightarrow> (('w, 'l) cluster, RPCResult) proc" where
  "Failfast_Invoke env =
     proc_bind (Directory_List env) (\<lambda>ivks. proc_bind (check env ivks) (\<lambda>err. case err of
         Some e \<Rightarrow> proc_return (error_result e)
       | None \<Rightarrow> proc_bind (balancer_for env ivks ActualMethodName) (\<lambda>lb.
           proc_bind (CheckWhetherDestroyed env) (\<lambda>err. case err of
               Some e \<Rightarrow> proc_return (error_result e)
             | None \<Rightarrow> proc_bind (DoSelect env lb ivks []) (\<lambda>sel. case sel of
                   None \<Rightarrow> proc_return (error_result err_nil_invoker)
                 | Some ivk \<Rightarrow> Invoke env ivk)))))"

definition Failsafe_Invoke :: "('w, 'l) cluster_env \<Rightarrow> (('w, 'l) cluster, RPCResult) proc" where
  "Failsafe_Invoke env =
     proc_bind (Directory_List env) (\<lambda>ivks. proc_bind (check env ivks) (\<lambda>err. case err of
         Some e \<Rightarrow> proc_return empty_result
       | None \<Rightarrow> proc_bind (balancer_for env ivks MethodName) (\<lambda>lb.
           proc_bind (DoSelect env lb ivks []) (\<lambda>sel. case sel of
               None \<Rightarrow> proc_return (error_result err_nil_invoker)
             | Some ivk \<Rightarrow> proc_bind (Invoke env ivk) (\<lambda>res.
                 proc_return (if Err res \<noteq> None then empty_result else res))))))"

text \<open>The first available candidate is called, if there is one.\<close>

definition first_available ::
  "('w, 'l) cluster_env \<Rightarrow> (invoker \<Rightarrow> bool) \<Rightarrow> invoker list \<Rightarrow> ('w, 'l) cluster \<Rightarrow> invoker option" where
  "first_available env P ivks s = find (\<lambda>ivk. IsAvailable env (world s) ivk \<and> P ivk) ivks"

definition Available_Invoke :: "('w, 'l) cluster_env \<Rightarrow> (('w, 'l) cluster, RPCResult) proc" where
  "Available_Invoke env =
     proc_bind (Directory_List env) (\<lambda>ivks. proc_bind (check env ivks) (\<lambda>err. case err of
         Some e \<Rightarrow> proc_return (error_result e)
       | None \<Rightarrow> proc_bind (CheckWhetherDestroyed env) (\<lambda>err. case err of
           Some e \<Rightarrow> proc_return (error_result e)
         | None \<Rightarrow> (\<lambda>s. case first_available env (\<lambda>_. True) ivks s of
             Some ivk \<Rightarrow> Invoke env ivk s
           | None \<Rightarrow> (Inr (error_result err_none_available), s)))))"

section \<open>All candidates: broadcast and forking\<close>

fun broadcast_loop ::
  "('w, 'l) cluster_env \<Rightarrow> invoker list \<Rightarrow> RPCResult option \<Rightarrow> go_error option \<Rightarrow>
   (('w, 'l) cluster, RPCResult option \<times> go_error option) proc" where
  "broadcast_loop env [] res err s = (Inr (res, err), s)"
| "broadcast_loop env (ivk # ivks) res err s =
     proc_bind (Invoke env ivk) (\<lambda>res.
       broadcast_loop env ivks (Some res) (if Err res \<noteq> None then Err res else err)) s"

definition Broadcast_Invoke :: "('w, 'l) cluster_env \<Rightarrow> (('w, 'l) cluster, RPCResult option) proc" where
  "Broadcast_Invoke env =
     proc_bind (Directory_List env) (\<lambda>ivks. proc_bind (check env ivks) (\<lambda>err. case err of
         Some e \<Rightarrow> proc_return (Some (error_result e))
       | None \<Rightarrow> proc_bind (CheckWhetherDestroyed env) (\<lambda>err. case err of
           Some e \<Rightarrow> proc_return (Some (error_result e))
         | None \<Rightarrow> proc_bind (broadcast_loop env ivks None None) (\<lambda>(res, err). case err of
             Some e \<Rightarrow> proc_return (Some (error_result e))
           | None \<Rightarrow> proc_return res))))"

abbreviation ForksKey :: string where "ForksKey \<equiv> ''forks''"
abbreviation DefaultForks :: int where "DefaultForks \<equiv> 2"
abbreviation DefaultTimeout :: int where "DefaultTimeout \<equiv> 1000"

fun fork_select ::
  "nat \<Rightarrow> ('w, 'l) cluster_env \<Rightarrow> (rpc_state \<times> 'l) balancer \<Rightarrow> invoker list \<Rightarrow> invoker list \<Rightarrow>
   (('w, 'l) cluster, invoker list) proc" where
  "fork_select 0 env lb ivks selected s = (Inr selected, s)"
| "fork_select (Suc n) env lb ivks selected s =
     proc_bind (DoSelect env lb ivks selected) (\<lambda>sel.
       fork_select n env lb ivks (case sel of Some ivk \<Rightarrow> selected @ [ivk] | None \<Rightarrow> selected)) s"

text \<open>The calls of the goroutines, in the order in which they put their results.\<close>

fun fork_calls :: "('w, 'l) cluster_env \<Rightarrow> invoker list \<Rightarrow> (('w, 'l) cluster, RPCResult list) proc" where
  "fork_calls env [] s = (Inr [], s)"
| "fork_calls env (ivk # ivks) s =
     proc_bind (Invoke env ivk) (\<lambda>res. proc_bind (fork_calls env ivks) (\<lambda>rs. proc_return (res # rs))) s"

text \<open>
  \<open>schedule\<close> is the order in which the goroutines finish, and \<open>poll\<close> is \<^verbatim>\<open>Poll(1, timeout)\<close> of the
  queue the results were put to.
\<close>

definition Forking_Invoke ::
  "(invoker list \<Rightarrow> invoker list) \<Rightarrow> (RPCResult list \<Rightarrow> int \<Rightarrow> go_error + RPCResult list) \<Rightarrow>
   ('w, 'l) cluster_env \<Rightarrow> (('w, 'l) cluster, RPCResult) proc" where
  "Forking_Invoke schedule poll env =
     proc_bind (CheckWhetherDestroyed env) (\<lambda>err. case err of
         Some e \<Rightarrow> proc_return (error_result e)
       | None \<Rightarrow> proc_bind (Directory_List env) (\<lambda>ivks. proc_bind (check env ivks) (\<lambda>err. case err of
           Some e \<Rightarrow> proc_return (error_result e)
         | None \<Rightarrow>
             (case Directory_GetURL env of
                None \<Rightarrow> proc_lift (Inl NilDereference)
              | Some u \<Rightarrow>
                  (let forks = GetParamByIntValue u ForksKey DefaultForks;
                       timeouts = GetParamInt u TimeoutKey DefaultTimeout
                   in proc_bind
                        (if forks < 0 \<or> forks > int (length ivks) then proc_return ivks
                         else proc_bind (balancer_for env ivks ActualMethodName)
                                (\<lambda>lb. fork_select (nat forks) env lb ivks []))
                        (\<lambda>selected. proc_bind (fork_calls env (schedule selected)) (\<lambda>rs.
                           proc_return
                             (case poll rs timeouts of
                                Inl e \<Rightarrow> error_result (Wrapped ''failed to forking invoke provider'' e)
                              | Inr [] \<Rightarrow> error_result (PlainError ''failed to forking invoke provider, but no resp'')
                              | Inr (res # _) \<Rightarrow> res))))))))"

section \<open>Registries as candidates: zone awareness\<close>

abbreviation PreferredKey :: string where "PreferredKey \<equiv> ''preferred''"
abbreviation RegistryZoneKey :: string where "RegistryZoneKey \<equiv> ''zone''"
abbreviation RegistryZoneForceKey :: string where "RegistryZoneForceKey \<equiv> ''zone.force''"

definition matchParam :: "string \<Rightarrow> string \<Rightarrow> string \<Rightarrow> invoker \<Rightarrow> bool" where
  "matchParam target key def ivk \<longleftrightarrow> target = GetParam (GetURL ivk) key def"

definition err_no_zone :: "string \<Rightarrow> go_error" where
  "err_no_zone zone = PlainError (''no registry instance in zone or no available providers in the registry, zone: '' @ zone)"

definition zone_key :: string where
  "zone_key = RegistryKey @ ''.'' @ RegistryZoneKey"

definition zone_force_key :: string where
  "zone_force_key = RegistryKey @ ''.'' @ RegistryZoneForceKey"

definition preferred_key :: string where
  "preferred_key = RegistryKey @ ''.'' @ PreferredKey"

definition Zoneaware_Invoke :: "('w, 'l) cluster_env \<Rightarrow> (('w, 'l) cluster, RPCResult) proc" where
  "Zoneaware_Invoke env =
     proc_bind (Directory_List env) (\<lambda>ivks. proc_bind (check env ivks) (\<lambda>err. case err of
         Some e \<Rightarrow> proc_return (error_result e)
       | None \<Rightarrow> (\<lambda>s.
           case first_available env (matchParam ''true'' preferred_key ''false'') ivks s of
             Some ivk \<Rightarrow> Invoke env ivk s
           | None \<Rightarrow>
             (let zone = GetAttachmentWithDefaultValue (invocation s) zone_key '''';
                  force = GetAttachmentWithDefaultValue (invocation s) zone_force_key ''''
              in case (if zone \<noteq> '''' then first_available env (matchParam zone zone_key '''') ivks s else None) of
                   Some ivk \<Rightarrow> Invoke env ivk s
                 | None \<Rightarrow>
                     if zone \<noteq> '''' \<and> force = ''true'' then (Inr (error_result (err_no_zone zone)), s)
                     else proc_bind (balancer_for env ivks ActualMethodName) (\<lambda>lb.
                       proc_bind (DoSelect env lb ivks []) (\<lambda>sel s.
                         case (case sel of Some ivk \<Rightarrow> if IsAvailable env (world s) ivk then Some ivk else None
                               | None \<Rightarrow> None) of
                           Some ivk \<Rightarrow> Invoke env ivk s
                         | None \<Rightarrow>
                             (case first_available env (\<lambda>_. True) ivks s of
                                Some ivk \<Rightarrow> Invoke env ivk s
                              | None \<Rightarrow> (Inr (error_result err_none_available), s)))) s))))"

section \<open>Adaptive service\<close>

abbreviation AdaptiveServiceEnabledKey :: string where "AdaptiveServiceEnabledKey \<equiv> ''adaptive-service.enabled''"
abbreviation AdaptiveServiceRemainingKey :: string where
  "AdaptiveServiceRemainingKey \<equiv> ''adaptive-service.remaining''"
abbreviation LoadBalanceKeyP2C :: string where "LoadBalanceKeyP2C \<equiv> ''p2c''"

text \<open>\<^verbatim>\<open>cluster/utils/adaptivesvc.go\<close>\<close>

definition ErrAdaptiveSvcInterrupted :: string where
  "ErrAdaptiveSvcInterrupted = ''adaptive service interrupted''"

definition ReachLimitationErrorString :: string where
  "ReachLimitationErrorString = ErrAdaptiveSvcInterrupted @ '': '' @ ''reach limitation''"

definition DoesAdaptiveServiceReachLimitation :: "go_error option \<Rightarrow> bool" where
  "DoesAdaptiveServiceReachLimitation err =
     (case err of None \<Rightarrow> False | Some e \<Rightarrow> error_text e = ReachLimitationErrorString)"

definition IsAdaptiveServiceFailed :: "go_error option \<Rightarrow> bool" where
  "IsAdaptiveServiceFailed err =
     (case err of None \<Rightarrow> False | Some e \<Rightarrow> HasPrefix (error_text e) ErrAdaptiveSvcInterrupted)"

definition remaining_string :: "go_any \<Rightarrow> string" where
  "remaining_string v = (case v of GStr str \<Rightarrow> str | GStrs (str # _) \<Rightarrow> str | _ \<Rightarrow> '''')"

text \<open>
  The load balancer's state is the table of local metrics and the draws to come.  The remaining
  capacity is converted to an unsigned number.
\<close>

definition record_remaining ::
  "invoker \<Rightarrow> RPCResult \<Rightarrow> ('w, local_metrics \<times> 'd) cluster \<Rightarrow> RPCResult \<times> ('w, local_metrics \<times> 'd) cluster" where
  "record_remaining ivk res s =
     (if IsAdaptiveServiceFailed (Err res) then (res, s)
      else case Result_Attachment res AdaptiveServiceRemainingKey GNil of (v, res) \<Rightarrow>
        (case Atoi (remaining_string v) of
           None \<Rightarrow> (res, s)
         | Some n \<Rightarrow>
             (res, s\<lparr>lb_state := (SetMethodMetrics (fst (lb_state s)) (GetURL ivk) (MethodName (invocation s))
                                    HillClimbing (GUint64 (of_int n)), snd (lb_state s))\<rparr>)))"

definition Adaptive_Invoke ::
  "('w, local_metrics \<times> 'd) cluster_env \<Rightarrow> (('w, local_metrics \<times> 'd) cluster, RPCResult) proc" where
  "Adaptive_Invoke env =
     proc_bind (Directory_List env) (\<lambda>ivks. proc_bind (check env ivks) (\<lambda>err. case err of
         Some e \<Rightarrow> proc_return (error_result e)
       | None \<Rightarrow>
           (let lbKey = GetParam (GetURL (ivks ! 0)) LoadbalanceKey LoadBalanceKeyP2C
            in if lbKey \<noteq> LoadBalanceKeyP2C
               then proc_return (error_result (PlainError (''adaptive service not supports '' @ lbKey @ '' load balance'')))
               else case GetLoadbalance env lbKey of
                 None \<Rightarrow> proc_lift (Inl (Panicked ''loadbalance''))
               | Some lb \<Rightarrow> proc_bind (lb_Select lb ivks) (\<lambda>sel s.
                   let s = s\<lparr>invocation := SetAttachment (invocation s) AdaptiveServiceEnabledKey (GStr ''1'')\<rparr>
                   in case sel of
                        None \<Rightarrow> (Inl NilDereference, s)
                      | Some ivk \<Rightarrow> proc_bind (Invoke env ivk) (\<lambda>res s.
                          case record_remaining ivk res s of (res, s) \<Rightarrow> (Inr res, s)) s))))"

section \<open>Interceptors\<close>

text \<open>
  An interceptor wraps the next invoker of the chain.  The registered ones come out of a map in
  some order; the built-in ones run before them.
\<close>

type_synonym 's invoke = "('s, RPCResult) proc"
type_synonym 's interceptor = "'s invoke \<Rightarrow> 's invoke"

definition BuildInterceptorChain :: "'s invoke \<Rightarrow> 's interceptor list \<Rightarrow> 's interceptor list \<Rightarrow> 's invoke" where
  "BuildInterceptorChain invoke registered builtins =
     foldr (\<lambda>i next. i next) builtins (foldr (\<lambda>i next. i next) registered invoke)"

text \<open>The zone interceptor copies the force flag of the context to the invocation.\<close>

definition zone_interceptor :: "(string \<Rightarrow> go_any) \<Rightarrow> ('w, 'l) cluster interceptor" where
  "zone_interceptor ctx next s =
     next (if ctx zone_force_key \<in> {GBool True, GStr ''true''}
           then s\<lparr>invocation := SetAttachment (invocation s) zone_force_key (GStr ''true'')\<rparr> else s)"

section \<open>What failover promises\<close>

lemma check_candidates [simp]:
  "ivks \<noteq> [] \<Longrightarrow> check env ivks s = (Inr None, s)"
  "\<not> Destroyed s \<Longrightarrow> CheckWhetherDestroyed env s = (Inr None, s)"
  by (simp_all add: check_def CheckInvokers_def CheckWhetherDestroyed_def)

text \<open>
  \<open>calls\<close> reads off the world which calls have been made for the invocation, and with which
  results: every call adds itself, and listing the directory adds none.
\<close>

definition records_calls ::
  "('w, 'l) cluster_env \<Rightarrow> ('w \<Rightarrow> (invoker \<times> RPCResult) list) \<Rightarrow> bool" where
  "records_calls env calls \<longleftrightarrow>
     (\<forall>v s res s'. Invoke env v s = (Inr res, s') \<longrightarrow> calls (world s') = calls (world s) @ [(v, res)]) \<and>
     (\<forall>s ivks s'. Directory_List env s = (Inr ivks, s') \<longrightarrow> calls (world s') = calls (world s))"

lemma relist_calls:
  assumes "records_calls env calls" "relist i env ivks s = (Inr out, t)"
  shows "calls (world t) = calls (world s)"
  using assms
  by (auto simp: relist_def records_calls_def check_def CheckWhetherDestroyed_def elim!: proc_bindE
      split: if_split_asm option.split_asm)

lemma failover_loop_SucE:
  assumes "failover_loop (Suc n) i env lb ivks ivk tried s = (Inr out, t)" "records_calls env calls"
  obtains (stop) e where "out = (Some (error_result e), ivk, tried)" "calls (world t) = calls (world s)"
  | (skip) ivks' u where "failover_loop n (Suc i) env lb ivks' None tried u = (Inr out, t)"
      "calls (world u) = calls (world s)"
  | (answer) v res where "\<not> retryable res" "out = (Some res, Some v, tried @ [(v, res)])"
      "calls (world t) = calls (world s) @ [(v, res)]"
  | (again) v res u ivks' where "retryable res"
      "failover_loop n (Suc i) env lb ivks' (Some v) (tried @ [(v, res)]) u = (Inr out, t)"
      "calls (world u) = calls (world s) @ [(v, res)]"
proof -
  obtain listed s1 where s1: "relist i env ivks s = (Inr listed, s1)"
    "(case listed of
         Inl e \<Rightarrow> (Inr (Some (error_result e), ivk, tried), s1)
       | Inr ivks \<Rightarrow> proc_bind (DoSelect env lb ivks (map fst tried)) (\<lambda>sel s. case sel of
             None \<Rightarrow> failover_loop n (Suc i) env lb ivks None tried s
           | Some v \<Rightarrow> proc_bind (Invoke env v) (\<lambda>res s.
               if retryable res
               then failover_loop n (Suc i) env lb ivks (Some v) (tried @ [(v, res)]) s
               else (Inr (Some res, Some v, tried @ [(v, res)]), s)) s) s1) = (Inr out, t)"
    using assms(1) by (auto elim!: proc_bindE)
  note c1 = relist_calls [OF assms(2) s1(1)]
  show thesis
  proof (cases listed)
    case (Inl e)
    then show thesis using s1(2) c1 by (auto intro: stop)
  next
    case (Inr ivks')
    then obtain sel s2 where s2: "DoSelect env lb ivks' (map fst tried) s1 = (Inr sel, s2)"
      "(case sel of
             None \<Rightarrow> failover_loop n (Suc i) env lb ivks' None tried s2
           | Some v \<Rightarrow> proc_bind (Invoke env v) (\<lambda>res s.
               if retryable res
               then failover_loop n (Suc i) env lb ivks' (Some v) (tried @ [(v, res)]) s
               else (Inr (Some res, Some v, tried @ [(v, res)]), s)) s2) = (Inr out, t)"
      using s1(2) by (auto elim!: proc_bindE)
    have c2: "calls (world s2) = calls (world s)" using DoSelect_quiet [OF s2(1)] c1 by (simp add: quiet_def)
    show thesis
    proof (cases sel)
      case None
      then show thesis using s2(2) c2 by (auto intro: skip)
    next
      case (Some v)
      then obtain res s3 where s3: "Invoke env v s2 = (Inr res, s3)"
        "(if retryable res then failover_loop n (Suc i) env lb ivks' (Some v) (tried @ [(v, res)]) s3
          else (Inr (Some res, Some v, tried @ [(v, res)]), s3)) = (Inr out, t)"
        using s2(2) by (auto elim!: proc_bindE)
      have "calls (world s3) = calls (world s) @ [(v, res)]"
        using assms(2) s3(1) c2 by (simp add: records_calls_def)
      then show thesis using s3(2) by (auto split: if_split_asm intro: answer again)
    qed
  qed
qed

definition trace_ok :: "nat \<Rightarrow> RPCResult option \<Rightarrow> (invoker \<times> RPCResult) list \<Rightarrow> bool" where
  "trace_ok n ret new \<longleftrightarrow>
     length new \<le> n \<and> (\<forall>x \<in> set (butlast new). retryable (snd x)) \<and>
     (case ret of
        None \<Rightarrow> \<forall>x \<in> set new. retryable (snd x)
      | Some r \<Rightarrow> new \<noteq> [] \<and> r = snd (last new) \<or> (\<exists>e. r = error_result e) \<and> (\<forall>x \<in> set new. retryable (snd x)))"

lemma trace_ok_Cons: "trace_ok n ret new \<Longrightarrow> retryable res \<Longrightarrow> trace_ok (Suc n) ret ((v, res) # new)"
  by (auto simp: trace_ok_def split: option.split_asm)

lemma failover_loop_trace:
  assumes "failover_loop n i env lb ivks ivk tried s = (Inr (ret, ivk', tried'), t)" "records_calls env calls"
  shows "\<exists>new. tried' = tried @ new \<and> calls (world t) = calls (world s) @ new \<and> trace_ok n ret new \<and>
    (ret = None \<and> ivk' \<noteq> None \<longrightarrow> ivk' = ivk \<or> new \<noteq> [])"
  using assms(1)
proof (induction n arbitrary: i ivks ivk tried s)
  case 0
  then show ?case by (auto simp: trace_ok_def)
next
  case (Suc n)
  from Suc.prems assms(2) show ?case
  proof (cases rule: failover_loop_SucE)
    case (stop e)
    then show ?thesis by (auto simp: trace_ok_def)
  next
    case (skip ivks' u)
    from Suc.IH [OF this(1)] skip(2) show ?thesis by (fastforce simp: trace_ok_def split: option.split_asm)
  next
    case (answer v res)
    then show ?thesis by (auto simp: trace_ok_def)
  next
    case (again v res u ivks')
    from Suc.IH [OF again(2)] again(3) obtain new where
      "tried' = tried @ (v, res) # new" "calls (world t) = calls (world s) @ (v, res) # new" "trace_ok n ret new"
      by auto
    then show ?thesis using trace_ok_Cons [OF _ again(1)] by auto
  qed
qed

text \<open>
  C11.  The calls failover makes, read off the record of calls that the world keeps: they are at
  most one more than the configured retries; every call but the last one failed with an error that
  is not a business error, so a success or a business error is never followed by another call; and
  the result is that of the last call made, or an error of the cluster itself after calls that all
  failed without a business error.
\<close>

theorem Failover_Invoke_attempts:
  assumes "records_calls env calls" "Directory_List env s = (Inr ivks, s')" "ivks \<noteq> []"
    and "Failover_Invoke env s = (Inr r, t)"
  shows "\<exists>made. calls (world t) = calls (world s) @ made \<and>
    int (length made) \<le> max 0 (getRetries ivks (ActualMethodName (invocation s')) (invocation s') + 1) \<and>
    (\<forall>x \<in> set (butlast made). retryable (snd x)) \<and>
    (made \<noteq> [] \<and> r = snd (last made) \<or> (\<exists>e. r = error_result e) \<and> (\<forall>x \<in> set made. retryable (snd x)))"
proof -
  let ?m = "ActualMethodName (invocation s')"
  obtain lb ret ivk tried where
    loop: "failover_loop (nat (getRetries ivks ?m (invocation s') + 1)) 0 env lb ivks None [] s' = (Inr (ret, ivk, tried), t)"
    and fin: "failover_end env ?m (ret, ivk, tried) = Inr r"
    using assms(4) unfolding Failover_Invoke_def
    by (auto simp: assms(2,3) balancer_for_def Let_def elim!: proc_bindE)
  have "calls (world s') = calls (world s)" using assms(1,2) by (simp add: records_calls_def)
  with failover_loop_trace [OF loop assms(1)]
  have "calls (world t) = calls (world s) @ tried" "ret = None \<and> ivk \<noteq> None \<longrightarrow> tried \<noteq> []"
    "trace_ok (nat (getRetries ivks ?m (invocation s') + 1)) ret tried" by auto
  then show ?thesis using fin
    by (intro exI [of _ tried]) (auto simp: trace_ok_def failover_end_def split: option.splits if_splits)
qed

text \<open>A cluster that nothing disturbs: the listing, the replies and the availability stay as they are.\<close>

definition undisturbed ::
  "('w, 'l) cluster_env \<Rightarrow> invoker list \<Rightarrow> (invoker \<Rightarrow> RPCResult) \<Rightarrow> bool" where
  "undisturbed env ivks answer \<longleftrightarrow>
     Directory_GetURL env \<noteq> None \<and> (\<forall>s. Directory_List env s = (Inr ivks, s)) \<and>
     (\<forall>v s. Invoke env v s = (Inr (answer v), s))"

context cluster_balancer
begin

lemma failover_loop_succeeds:
  assumes "undisturbed env ivks answer" "AvailableCheck s" "\<not> Destroyed s"
    "\<forall>v \<in> set ivks. IsAvailable env (world s) v" "card (set ivks) \<le> 4"
    "good \<in> set ivks" "\<not> retryable (answer good)"
    "\<forall>(v, res) \<in> set tried. retryable (answer v)" "card (set ivks - fst ` set tried) \<le> n"
  shows "\<exists>v t tried'. failover_loop n i env lb ivks ivk tried s = (Inr (Some (answer v), Some v, tried'), t) \<and>
    v \<in> set ivks \<and> \<not> retryable (answer v)"
  using assms
proof (induction n arbitrary: i ivk tried s)
  case 0
  then have "good \<in> fst ` set tried" by auto
  with 0 show ?case by auto
next
  case (Suc n)
  note env = Suc.prems(1) [unfolded undisturbed_def]
  have "ivks \<noteq> []" using Suc.prems(6) by auto
  then have relist: "relist i env ivks s = (Inr (Inr ivks), s)"
    using env Suc.prems(3) by (simp add: relist_def)
  have good: "fresh env s (map fst tried) good"
    using Suc.prems(4,6-8) by (force simp: fresh_def isInvoked_def)
  obtain v t where v: "DoSelect env lb ivks (map fst tried) s = (Inr (Some v), t)" "quiet s t" "v \<in> set ivks"
    "fresh env s (map fst tried) v"
    using DoSelect_outcome [of env s ivks "map fst tried"] env Suc.prems(2,5,6) good by fastforce
  have step: "failover_loop (Suc n) i env lb ivks ivk tried s =
      (if retryable (answer v) then failover_loop n (Suc i) env lb ivks (Some v) (tried @ [(v, answer v)]) t
       else (Inr (Some (answer v), Some v, tried @ [(v, answer v)]), t))"
    using env v(1) by (simp add: relist)
  show ?case
  proof (cases "retryable (answer v)")
    case False
    with v(3) step show ?thesis by auto
  next
    case True
    have "set ivks - fst ` set (tried @ [(v, answer v)]) = (set ivks - fst ` set tried) - {v}" by auto
    moreover have "v \<in> set ivks - fst ` set tried" using v(3,4) by (auto simp: fresh_def isInvoked_def)
    ultimately have "card (set ivks - fst ` set (tried @ [(v, answer v)])) \<le> n"
      using Suc.prems(9) by simp
    then show ?thesis
      using Suc.IH [OF Suc.prems(1), of t "tried @ [(v, answer v)]" "Suc i" "Some v"] Suc.prems v(2) True step
      by (simp add: quiet_def)
  qed
qed

end

text \<open>
  C12.  Failover reaches a healthy provider: with at most four available providers, no fewer
  attempts than providers, and at least one of them that answers, the call is answered by a
  provider that does, whatever the load balancer prefers and whichever invoker is sticky.
\<close>

theorem Failover_Invoke_succeeds:
  assumes "undisturbed env ivks answer" "AvailableCheck s" "\<not> Destroyed s"
    "\<forall>v \<in> set ivks. IsAvailable env (world s) v" "card (set ivks) \<le> 4"
    "good \<in> set ivks" "\<not> retryable (answer good)"
    "GetLoadBalance env (ivks ! 0) (ActualMethodName (invocation s)) = Inr lb" "balancer lb"
    "int (card (set ivks)) \<le> getRetries ivks (ActualMethodName (invocation s)) (invocation s) + 1"
  shows "\<exists>v t. Failover_Invoke env s = (Inr (answer v), t) \<and> v \<in> set ivks \<and> \<not> retryable (answer v)"
proof -
  let ?n = "nat (getRetries ivks (ActualMethodName (invocation s)) (invocation s) + 1)"
  have "card (set ivks - fst ` set []) \<le> ?n" using assms(10) by simp
  then obtain v t tried where
    "failover_loop ?n 0 env lb ivks None [] s = (Inr (Some (answer v), Some v, tried), t)"
    "v \<in> set ivks" "\<not> retryable (answer v)"
    using cluster_balancer.failover_loop_succeeds [OF cluster_balancer.intro [OF assms(9)] assms(1-7), of "[]" ?n 0 None]
    by auto
  moreover have "ivks \<noteq> []" using assms(6) by auto
  ultimately show ?thesis
    using assms(1,8)
    by (auto simp: Failover_Invoke_def undisturbed_def balancer_for_def Let_def failover_end_def)
qed

definition sample_failing :: sample_world where
  "sample_failing = \<lparr>listed = [sample_invoker 1, sample_invoker 2, sample_invoker 3], up = (\<lambda>_. True),
     reply = (\<lambda>ivk. if ivk_id ivk = 3 then empty_result else error_result (PlainError ''down''))\<rparr>"

lemma sample_answers:
  "retryable (reply sample_failing (sample_invoker n)) \<longleftrightarrow> n \<noteq> 3"
  by (simp add: sample_failing_def sample_invoker_def retryable_def error_result_def empty_result_def isBizError_def
      IsWireError_def)

lemma sample_retries:
  "getRetries [sample_invoker 1, sample_invoker 2, sample_invoker 3] m sample_call = 5"
  by (simp add: getRetries_def GetAttachment_def sample_invoker_def lb_eval GetMethodParamIntValue_def
      GetParamByIntValue_def Let_def)

theorem Failover_Invoke_succeeds_witness:
  "\<exists>v t. Failover_Invoke (sample_env\<lparr>Directory_List := (\<lambda>s. (Inr (listed sample_failing), s)),
       Invoke := (\<lambda>ivk s. (Inr (reply sample_failing ivk), s))\<rparr>) (sample_cluster sample_failing) =
     (Inr (reply sample_failing v), t) \<and> v \<in> set (listed sample_failing) \<and> \<not> retryable (reply sample_failing v)"
proof -
  let ?env = "sample_env\<lparr>Directory_List := (\<lambda>s. (Inr (listed sample_failing), s)),
       Invoke := (\<lambda>ivk s. (Inr (reply sample_failing ivk), s))\<rparr>"
  have "card (set (listed sample_failing)) \<le> 3"
    using card_length [of "listed sample_failing"] by (simp add: sample_failing_def)
  moreover have "getRetries (listed sample_failing) m (invocation (sample_cluster sample_failing)) = 5" for m
    using sample_retries by (simp add: sample_failing_def sample_cluster_def NewBaseClusterInvoker_def)
  ultimately show ?thesis
    using sample_answers [of 3]
    by (intro Failover_Invoke_succeeds [where good = "sample_invoker 3",
          OF _ _ _ _ _ _ _ _ random_lb.drawn.balancer_axioms])
      (auto simp: undisturbed_def sample_env_def sample_cluster_def NewBaseClusterInvoker_def GetLoadBalance_def
        sample_failing_def)
qed

text \<open>The small cluster with a record of its calls.\<close>

definition recorded_env ::
  "(sample_world \<times> (invoker \<times> RPCResult) list, (nat \<Rightarrow> int \<times> nat \<times> nat) \<times> nat) cluster_env" where
  "recorded_env =
     \<lparr>Directory_GetURL = Some sample_url,
      Directory_List = (\<lambda>s. (Inr (listed (fst (world s))), s)),
      Directory_IsAvailable = (\<lambda>w. \<exists>ivk \<in> set (listed (fst w)). up (fst w) ivk),
      Directory_Destroy = (\<lambda>w. ((fst w)\<lparr>listed := []\<rparr>, snd w)),
      IsAvailable = (\<lambda>w. up (fst w)),
      Invoke = (\<lambda>ivk s. let res = reply (fst (world s)) ivk
                        in (Inr res, s\<lparr>world := (fst (world s), snd (world s) @ [(ivk, res)])\<rparr>)),
      GetLoadbalance = (\<lambda>_. Some (with_draws (\<lambda>(now, r, r'). Random_Select now r r')))\<rparr>"

definition recorded_cluster ::
  "sample_world \<Rightarrow> (sample_world \<times> (invoker \<times> RPCResult) list, (nat \<Rightarrow> int \<times> nat \<times> nat) \<times> nat) cluster" where
  "recorded_cluster w = NewBaseClusterInvoker init_rpc_state (no_draws, 0) sample_call (w, [])"

lemma recorded_env_records: "records_calls recorded_env snd"
  by (auto simp: records_calls_def recorded_env_def Let_def)

lemma recorded_failover:
  "fst (Failover_Invoke recorded_env (recorded_cluster sample_failing)) = Inr empty_result"
  by code_simp

theorem Failover_Invoke_attempts_witness:
  "\<exists>t made. Failover_Invoke recorded_env (recorded_cluster sample_failing) = (Inr empty_result, t) \<and>
     snd (world t) = made \<and> length made \<le> 6 \<and> made \<noteq> [] \<and> snd (last made) = empty_result \<and>
     (\<forall>x \<in> set (butlast made). retryable (snd x))"
proof -
  let ?s = "recorded_cluster sample_failing"
  obtain t where r: "Failover_Invoke recorded_env ?s = (Inr empty_result, t)"
    using recorded_failover by (metis fst_conv surj_pair)
  have s: "snd (world ?s) = []" by (simp add: recorded_cluster_def NewBaseClusterInvoker_def)
  have list: "Directory_List recorded_env ?s = (Inr (listed sample_failing), ?s)"
    by (simp add: recorded_env_def recorded_cluster_def NewBaseClusterInvoker_def)
  have six: "getRetries (listed sample_failing) m (invocation ?s) = 5" for m
    using sample_retries by (simp add: sample_failing_def recorded_cluster_def NewBaseClusterInvoker_def)
  have ne: "listed sample_failing \<noteq> []" by (simp add: sample_failing_def)
  from Failover_Invoke_attempts [OF recorded_env_records list ne r, unfolded six s] obtain made where
    made: "snd (world t) = made" "int (length made) \<le> max 0 (5 + 1)" "\<forall>x \<in> set (butlast made). retryable (snd x)"
    "made \<noteq> [] \<and> empty_result = snd (last made) \<or>
     (\<exists>e. empty_result = error_result e) \<and> (\<forall>x \<in> set made. retryable (snd x))"
    by auto
  then have "made \<noteq> [] \<and> snd (last made) = empty_result" by (auto simp: empty_result_def error_result_def)
  with r made(1-3) show ?thesis by (intro exI [of _ t] exI [of _ made]) auto
qed

section \<open>The other strategies\<close>

lemma broadcast_loop_calls:
  assumes "fork_calls env ivks s = (Inr rs, t)"
  shows "broadcast_loop env ivks res err s =
    (Inr (if rs = [] then res else Some (last rs),
          if filter (\<lambda>r. Err r \<noteq> None) rs = [] then err else Err (last (filter (\<lambda>r. Err r \<noteq> None) rs))), t)"
  using assms
proof (induction ivks arbitrary: s rs res err)
  case (Cons ivk ivks)
  then obtain r s' rs' where "Invoke env ivk s = (Inr r, s')" "fork_calls env ivks s' = (Inr rs', t)" "rs = r # rs'"
    by (auto elim!: proc_bindE)
  then show ?case using Cons.IH by simp
qed simp

text \<open>
  C33.  Broadcast calls every candidate in order, and when several of them fail its result is the
  error of the last one that did; the other errors are only logged, although the comments on the
  cluster and on its \<^verbatim>\<open>Invoke\<close> say that all errors are reported or aggregated.  When none fails, the
  result is that of the last candidate.
\<close>

theorem Broadcast_Invoke_calls_all:
  assumes "Directory_List env s = (Inr ivks, s')" "ivks \<noteq> []" "\<not> Destroyed s'"
    and "fork_calls env ivks s' = (Inr rs, t)"
  shows "length rs = length ivks \<and>
    Broadcast_Invoke env s =
      (Inr (Some (if \<exists>r \<in> set rs. Err r \<noteq> None
                  then error_result (the (Err (last (filter (\<lambda>r. Err r \<noteq> None) rs)))) else last rs)), t)"
proof -
  have len: "fork_calls env ivks s = (Inr rs, t) \<Longrightarrow> length rs = length ivks" for ivks rs s
    by (induction ivks arbitrary: rs s) (auto elim!: proc_bindE)
  note rs = len [OF assms(4)]
  let ?bad = "filter (\<lambda>r. Err r \<noteq> None) rs"
  have loop: "Broadcast_Invoke env s = (case (if ?bad = [] then None else Err (last ?bad)) of
      Some e \<Rightarrow> (Inr (Some (error_result e)), t) | None \<Rightarrow> (Inr (Some (last rs)), t))"
    using rs assms broadcast_loop_calls [OF assms(4), of None None]
    by (auto simp: Broadcast_Invoke_def split: option.split)
  have bad: "?bad = [] \<longleftrightarrow> \<not> (\<exists>r \<in> set rs. Err r \<noteq> None)" by (auto simp: filter_empty_conv)
  show ?thesis
  proof (cases "?bad = []")
    case True
    then show ?thesis using bad rs unfolding loop by simp
  next
    case False
    then obtain e where "Err (last ?bad) = Some e" using last_in_set [OF False] by auto
    then show ?thesis using False bad rs unfolding loop by auto
  qed
qed

theorem Broadcast_Invoke_calls_all_witness:
  "fst (Broadcast_Invoke sample_env (sample_cluster sample_failing)) = Inr (Some (error_result (PlainError ''down'')))"
proof -
  let ?s = "sample_cluster sample_failing" and ?down = "error_result (PlainError ''down'')"
  have "Directory_List sample_env ?s = (Inr (listed sample_failing), ?s)" "\<not> Destroyed ?s"
    "fork_calls sample_env (listed sample_failing) ?s = (Inr [?down, ?down, empty_result], ?s)"
    by (simp_all add: sample_env_def sample_cluster_def NewBaseClusterInvoker_def sample_failing_def sample_invoker_def)
  with Broadcast_Invoke_calls_all [of sample_env ?s "listed sample_failing" ?s "[?down, ?down, empty_result]" ?s]
  show ?thesis by (simp add: sample_failing_def error_result_def empty_result_def)
qed

text \<open>
  The rank of a registry for an invocation that asks for a zone, from the documented order of
  preference: marked as preferred, in the zone, any other.
\<close>

definition zone_rank :: "string \<Rightarrow> invoker \<Rightarrow> nat" where
  "zone_rank zone v =
     (if GetParam (GetURL v) ''registry.preferred'' ''false'' = ''true'' then 2
      else if zone \<noteq> '''' \<and> GetParam (GetURL v) ''registry.zone'' '''' = zone then 1
      else 0)"

lemma first_availableD:
  "first_available env P ivks s = Some v \<Longrightarrow>
     v \<in> set ivks \<and> IsAvailable env (world s) v \<and> P v \<and> v = hd (filter (\<lambda>w. IsAvailable env (world s) w \<and> P w) ivks)"
  "first_available env P ivks s = None \<Longrightarrow> w \<in> set ivks \<Longrightarrow> \<not> (IsAvailable env (world s) w \<and> P w)"
  by (induction ivks) (auto simp: first_available_def split: if_split_asm)

lemma matchParam_rank:
  "matchParam ''true'' preferred_key ''false'' v \<longleftrightarrow> zone_rank zone v = 2"
  "zone \<noteq> '''' \<Longrightarrow> zone_rank zone v \<noteq> 2 \<Longrightarrow> matchParam zone zone_key '''' v \<longleftrightarrow> zone_rank zone v = 1"
  by (auto simp: matchParam_def preferred_key_def zone_key_def zone_rank_def)

lemma zone_rank_cases: "zone_rank zone v \<in> {0, 1, 2}" "zone_rank '''' v \<noteq> 1"
  by (auto simp: zone_rank_def)

text \<open>The part of the strategy after the marked registries and the zone.\<close>

definition zone_balanced ::
  "('w, 'l) cluster_env \<Rightarrow> (rpc_state \<times> 'l) balancer \<Rightarrow> invoker list \<Rightarrow> (('w, 'l) cluster, RPCResult) proc" where
  "zone_balanced env lb ivks = proc_bind (DoSelect env lb ivks []) (\<lambda>sel s.
      case (case sel of Some ivk \<Rightarrow> if IsAvailable env (world s) ivk then Some ivk else None | None \<Rightarrow> None) of
        Some ivk \<Rightarrow> Invoke env ivk s
      | None \<Rightarrow>
          (case first_available env (\<lambda>_. True) ivks s of
             Some ivk \<Rightarrow> Invoke env ivk s
           | None \<Rightarrow> (Inr (error_result err_none_available), s)))"

lemma Zoneaware_by_rank:
  assumes "Directory_List env s = (Inr ivks, s')" "ivks \<noteq> []"
    and "GetLoadBalance env (ivks ! 0) (ActualMethodName (invocation s')) = Inr lb"
  defines "zone \<equiv> GetAttachmentWithDefaultValue (invocation s') ''registry.zone'' ''''"
  shows "Zoneaware_Invoke env s =
    (case first_available env (\<lambda>v. zone_rank zone v = 2) ivks s' of
       Some v \<Rightarrow> Invoke env v s'
     | None \<Rightarrow>
         (case first_available env (\<lambda>v. zone_rank zone v = 1) ivks s' of
            Some v \<Rightarrow> Invoke env v s'
          | None \<Rightarrow>
              if zone \<noteq> '''' \<and> GetAttachmentWithDefaultValue (invocation s') ''registry.zone.force'' '''' = ''true''
              then (Inr (error_result (err_no_zone zone)), s')
              else zone_balanced env lb ivks s'))"
proof -
  have pref: "matchParam ''true'' preferred_key ''false'' = (\<lambda>v. zone_rank zone v = 2)"
    using matchParam_rank(1) by blast
  have near: "(if zone \<noteq> '''' then first_available env (matchParam zone zone_key '''') ivks s' else None) =
      first_available env (\<lambda>v. zone_rank zone v = 1) ivks s'"
    if "first_available env (\<lambda>v. zone_rank zone v = 2) ivks s' = None"
  proof (cases "zone = ''''")
    case True
    then show ?thesis using zone_rank_cases(2) by (simp add: first_available_def find_None_iff2)
  next
    case False
    then show ?thesis
      using first_availableD(2) [OF that] matchParam_rank(2) [of zone]
      unfolding first_available_def by (auto intro!: find_cong)
  qed
  have keys: "GetAttachmentWithDefaultValue (invocation s') zone_key '''' = zone" "zone_force_key = ''registry.zone.force''"
    by (simp_all add: zone_def zone_key_def zone_force_key_def)
  have lb: "balancer_for env ivks ActualMethodName s' = (Inr lb, s')" by (simp add: balancer_for_def assms(3))
  show ?thesis
    unfolding Zoneaware_Invoke_def
    using assms(1,2) near pref keys lb
    by (cases "first_available env (\<lambda>v. zone_rank zone v = 2) ivks s'")
      (simp_all add: Let_def zone_balanced_def split: option.split)
qed

lemma Zoneaware_balanced:
  assumes "balancer lb" "Directory_GetURL env = Some u" "AvailableCheck s" "ivks \<noteq> []"
  defines "rest \<equiv> zone_balanced env lb ivks s"
  shows "if \<exists>v \<in> set ivks. IsAvailable env (world s) v
    then \<exists>v t. rest = Invoke env v t \<and> world t = world s \<and> v \<in> set ivks \<and> IsAvailable env (world s) v
    else \<exists>t. rest = (Inr (error_result err_none_available), t) \<and> world t = world s"
proof -
  note rest_def = rest_def zone_balanced_def
  obtain r t where r: "DoSelect env lb ivks [] s = (Inr r, t)" "world t = world s" "\<forall>v. r = Some v \<longrightarrow> v \<in> set ivks"
    using cluster_balancer.DoSelect_outcome [OF cluster_balancer.intro [OF assms(1)], of env s ivks "[]"] assms(2-4)
    by (auto simp: quiet_def)
  show ?thesis
  proof (cases "\<exists>v. r = Some v \<and> IsAvailable env (world s) v")
    case True
    then obtain v where v: "r = Some v" "IsAvailable env (world s) v" by blast
    then have "rest = Invoke env v t" using r by (simp add: rest_def)
    then show ?thesis using r v by auto
  next
    case False
    then have rest: "rest = (case first_available env (\<lambda>_. True) ivks t of
        Some ivk \<Rightarrow> Invoke env ivk t | None \<Rightarrow> (Inr (error_result err_none_available), t))"
      using r by (auto simp: rest_def split: option.split)
    show ?thesis
      using first_availableD [of env "\<lambda>_. True" ivks t] r(2) unfolding rest
      by (cases "first_available env (\<lambda>_. True) ivks t") auto
  qed
qed

lemma Zoneaware_unranked:
  fixes rank :: "invoker \<Rightarrow> nat"
  assumes "balancer lb" "Directory_GetURL env = Some u" "AvailableCheck s'" "ivks \<noteq> []"
    and out: "out = (if forced then (Inr (error_result (err_no_zone zone)), s') else zone_balanced env lb ivks s')"
    and zero: "\<And>w. w \<in> set ivks \<Longrightarrow> IsAvailable env (world s') w \<Longrightarrow> rank w = 0"
  defines "eligible \<equiv> filter (\<lambda>v. IsAvailable env (world s') v \<and> (forced \<longrightarrow> 0 < rank v)) ivks"
  shows "if eligible = []
    then \<exists>t. out = (Inr (error_result (if forced then err_no_zone zone else err_none_available)), t) \<and> world t = world s'
    else \<exists>v t. out = Invoke env v t \<and> world t = world s' \<and> v \<in> set eligible \<and>
           (\<forall>w \<in> set eligible. rank w \<le> rank v) \<and> (0 < rank v \<longrightarrow> v = hd (filter (\<lambda>w. rank w = rank v) eligible))"
proof (cases "\<not> forced \<and> (\<exists>v \<in> set ivks. IsAvailable env (world s') v)")
  case True
  then obtain v t where v: "zone_balanced env lb ivks s' = Invoke env v t" "world t = world s'" "v \<in> set ivks"
    "IsAvailable env (world s') v"
    using Zoneaware_balanced [OF assms(1-4)] by auto
  moreover have "eligible \<noteq> []" using True by (auto simp: eligible_def filter_empty_conv)
  ultimately show ?thesis
    using True zero by (auto simp: out eligible_def intro!: exI [of _ v] exI [of _ t])
next
  case False
  then have "eligible = []" using zero by (auto simp: eligible_def filter_empty_conv)
  then show ?thesis using False Zoneaware_balanced [OF assms(1-4)] by (auto simp: out)
qed

text \<open>
  C34.  With a load balancer that returns one of its candidates, zone awareness makes exactly one
  call, to an available registry of the best rank there is: one marked as preferred, else one in the zone
  the invocation asks for, else any, and among the marked ones and those in the zone it is the
  first.  When the invocation insists on its zone, only the marked registries and those in the
  zone are eligible.  Nothing is called exactly when no registry is eligible, and the error says why.
\<close>

theorem Zoneaware_Invoke_preference:
  assumes "Directory_List env s = (Inr ivks, s')" "ivks \<noteq> []" "AvailableCheck s'" "Directory_GetURL env = Some u"
    and "GetLoadBalance env (ivks ! 0) (ActualMethodName (invocation s')) = Inr lb" "balancer lb"
  defines "zone \<equiv> GetAttachmentWithDefaultValue (invocation s') ''registry.zone'' ''''"
    and "forced \<equiv> GetAttachmentWithDefaultValue (invocation s') ''registry.zone'' '''' \<noteq> '''' \<and>
      GetAttachmentWithDefaultValue (invocation s') ''registry.zone.force'' '''' = ''true''"
  defines "eligible \<equiv> filter (\<lambda>v. IsAvailable env (world s') v \<and> (forced \<longrightarrow> 0 < zone_rank zone v)) ivks"
  shows "if eligible = []
    then \<exists>t. Zoneaware_Invoke env s =
           (Inr (error_result (if forced then err_no_zone zone else err_none_available)), t) \<and> world t = world s'
    else \<exists>v t. Zoneaware_Invoke env s = Invoke env v t \<and> world t = world s' \<and> v \<in> set eligible \<and>
           (\<forall>w \<in> set eligible. zone_rank zone w \<le> zone_rank zone v) \<and>
           (0 < zone_rank zone v \<longrightarrow> v = hd (filter (\<lambda>w. zone_rank zone w = zone_rank zone v) eligible))"
proof -
  let ?A = "IsAvailable env (world s')"
  let ?pref = "first_available env (\<lambda>v. zone_rank zone v = 2) ivks s'"
  have el: "filter (\<lambda>w. zone_rank zone w = n) eligible = filter (\<lambda>w. ?A w \<and> zone_rank zone w = n) ivks" if "0 < n" for n
    using that by (auto simp: eligible_def intro!: filter_cong)
  note body = Zoneaware_by_rank [OF assms(1,2,5), folded zone_def]
  show ?thesis
  proof (cases ?pref)
    case (Some v)
    then have "Zoneaware_Invoke env s = Invoke env v s'" by (simp add: body)
    moreover note v = first_availableD(1) [OF Some]
    moreover have "zone_rank zone w \<le> 2" for w using zone_rank_cases(1) [of zone w] by auto
    ultimately show ?thesis
      using el [of 2] by (auto simp: eligible_def filter_empty_conv intro!: exI [of _ v] exI [of _ s'])
  next
    case None
    note nopref = first_availableD(2) [OF None]
    show ?thesis
    proof (cases "first_available env (\<lambda>v. zone_rank zone v = 1) ivks s'")
      case (Some v)
      then have "Zoneaware_Invoke env s = Invoke env v s'" using None by (simp add: body)
      moreover note first_availableD(1) [OF Some]
      moreover have "zone_rank zone w \<le> 1" if "w \<in> set eligible" for w
        using zone_rank_cases(1) [of zone w] nopref that by (auto simp: eligible_def)
      ultimately show ?thesis
        using el [of 1] by (auto simp: eligible_def filter_empty_conv intro!: exI [of _ v] exI [of _ s'])
    next
      case far: None
      have zero: "zone_rank zone w = 0" if "w \<in> set ivks" "?A w" for w
        using zone_rank_cases(1) [of zone w] nopref that first_availableD(2) [OF far] by auto
      have "Zoneaware_Invoke env s =
          (if forced then (Inr (error_result (err_no_zone zone)), s') else zone_balanced env lb ivks s')"
        using None far by (simp add: body forced_def zone_def)
      from Zoneaware_unranked [OF assms(6,4,3,2) this, of "zone_rank zone"] zero
      show ?thesis unfolding eligible_def by blast
    qed
  qed
qed

definition sample_zones :: sample_world where
  "sample_zones = \<lparr>listed = [\<lparr>ivk_id = 1, GetURL = NewURLWithOptions [WithParamsValue ''registry.zone'' ''hangzhou'']\<rparr>,
     \<lparr>ivk_id = 2, GetURL = NewURLWithOptions [WithParamsValue ''registry.zone'' ''shanghai'']\<rparr>],
     up = (\<lambda>_. True), reply = (\<lambda>ivk. if ivk_id ivk = 2 then empty_result else error_result (PlainError ''far''))\<rparr>"

definition zone_cluster :: "string \<Rightarrow> (sample_world, (nat \<Rightarrow> int \<times> nat \<times> nat) \<times> nat) cluster" where
  "zone_cluster zone = (sample_cluster sample_zones)\<lparr>invocation :=
     SetAttachment (SetAttachment sample_call zone_key (GStr zone)) zone_force_key (GStr ''true'')\<rparr>"

lemma sample_zones_eligible:
  "filter (\<lambda>v. up sample_zones v \<and> (True \<longrightarrow> 0 < zone_rank ''shanghai'' v)) (listed sample_zones) = [listed sample_zones ! 1]"
  "filter (\<lambda>v. up sample_zones v \<and> (True \<longrightarrow> 0 < zone_rank ''beijing'' v)) (listed sample_zones) = []"
  by (simp_all add: sample_zones_def zone_rank_def lb_eval)

theorem Zoneaware_Invoke_preference_witness:
  "(\<exists>t. Zoneaware_Invoke sample_env (zone_cluster ''shanghai'') = (Inr empty_result, t)) \<and>
   (\<exists>t. Zoneaware_Invoke sample_env (zone_cluster ''beijing'') = (Inr (error_result (err_no_zone ''beijing'')), t))"
proof -
  let ?lb = "with_draws (\<lambda>(now, r, r'). Random_Select now r r')"
  have env: "Directory_List sample_env (zone_cluster z) = (Inr (listed sample_zones), zone_cluster z)"
    "AvailableCheck (zone_cluster z)" "Directory_GetURL sample_env = Some sample_url"
    "GetLoadBalance sample_env ivk m = Inr ?lb" "IsAvailable sample_env w v = up w v"
    "Invoke sample_env v s = (Inr (reply (world s) v), s)" "world (zone_cluster z) = sample_zones" for z w v s ivk m
    by (simp_all add: sample_env_def zone_cluster_def sample_cluster_def NewBaseClusterInvoker_def GetLoadBalance_def)
  have zone: "GetAttachmentWithDefaultValue (invocation (zone_cluster z)) ''registry.zone'' '''' = z"
    "GetAttachmentWithDefaultValue (invocation (zone_cluster z)) ''registry.zone.force'' '''' = ''true''" for z
    by (simp_all add: zone_cluster_def GetAttachmentWithDefaultValue_def GetAttachment_def SetAttachment_def
        zone_key_def zone_force_key_def)
  have ne: "listed sample_zones \<noteq> []" "reply sample_zones (listed sample_zones ! 1) = empty_result"
    by (simp_all add: sample_zones_def)
  note pref = Zoneaware_Invoke_preference
    [OF env(1) ne(1) env(2,3,4) random_lb.drawn.balancer_axioms, unfolded zone env(5,6,7)]
  show ?thesis
    using pref [of "''shanghai''"] pref [of "''beijing''"] ne(2) sample_zones_eligible by auto
qed

text \<open>
  Failsafe hides failures: it returns a result without an error, except when selection
  finds no invoker to call.
\<close>

lemma Failsafe_Invoke_hides_errors:
  assumes "Failsafe_Invoke env s = (Inr r, t)"
  shows "Err r = None \<or> r = error_result err_nil_invoker"
  using assms
  by (auto simp: Failsafe_Invoke_def empty_result_def elim!: proc_bindE split: option.split_asm if_split_asm)

lemma of_int_negative_large:
  assumes "in_int64 n" "n < 0" "0 \<le> m" "m < 2 ^ 63"
  shows "(of_int m :: 64 word) < of_int n"
proof -
  have "uint (of_int m :: 64 word) = m" using assms by (simp add: take_bit_int_eq_self uint_word_of_int_eq)
  moreover have "uint (of_int n :: 64 word) = n + 2 ^ 64"
  proof -
    have "n mod 2 ^ 64 = (n + 2 ^ 64) mod 2 ^ 64" by simp
    also have "\<dots> = n + 2 ^ 64" using assms(1,2) by (intro mod_pos_pos_trivial) (auto simp: in_int64_def)
    finally show ?thesis by (simp add: uint_word_of_int_eq take_bit_eq_mod)
  qed
  ultimately show ?thesis using assms by (simp add: word_less_alt in_int64_def)
qed

text \<open>
  The capacity a provider reports is recorded for the method the invocation names and read
  back by the power of two choices; a negative number is recorded as a huge capacity, so such a
  provider is preferred to every other.  For a generic call the balancer looks under the name of
  the method behind the call, where nothing is ever recorded.
\<close>

lemma record_remaining_capacity:
  fixes s :: "('w, local_metrics \<times> 'd) cluster" and ivk :: invoker
  assumes "\<not> IsAdaptiveServiceFailed (Err res)" "Attrs res = Some m"
    "map_of m AdaptiveServiceRemainingKey = Some (GStr (Itoa n))" "in_int64 n"
  defines "before \<equiv> fst (lb_state s)" and "after \<equiv> fst (lb_state (snd (record_remaining ivk res s)))"
    and "name \<equiv> MethodName (invocation s)" and "actual \<equiv> ActualMethodName (invocation s)"
  shows "GetMethodMetrics after (GetURL ivk) name HillClimbing = Inr (GUint64 (of_int n)) \<and>
    (n < 0 \<longrightarrow> (\<forall>k. 0 \<le> k \<and> k < 2 ^ 63 \<longrightarrow> (of_int k :: 64 word) < of_int n)) \<and>
    (actual \<noteq> name \<longrightarrow> GetMethodMetrics after (GetURL ivk) actual HillClimbing =
       GetMethodMetrics before (GetURL ivk) actual HillClimbing)"
proof -
  have atoi: "Atoi (Itoa n) = Some n" using ParseInt_Itoa [OF assms(4)] by (simp add: Atoi_def)
  have after: "after = SetMethodMetrics before (GetURL ivk) name HillClimbing (GUint64 (of_int n))"
    using assms(1-3) atoi
    by (simp add: after_def before_def name_def record_remaining_def Result_Attachment_def remaining_string_def)
  have "GetMethodMetrics after (GetURL ivk) actual HillClimbing = GetMethodMetrics before (GetURL ivk) actual HillClimbing"
    if "actual \<noteq> name"
    using that by (simp add: after GetMethodMetrics_def SetMethodMetrics_def metricsKey_def)
  then show ?thesis
    using of_int_negative_large [OF assms(4)] by (simp add: after GetMethodMetrics_def SetMethodMetrics_def)
qed



end
