(* ===== verification/Failback.thy ===== *)
theory Failback
  imports Cluster_Invokers "HOL-Library.Multiset"
begin

text \<open>
  \<^verbatim>\<open>cluster/cluster/failback\<close>: failed calls are queued and retried in the background.  The task
  queue and the exponential back-off come from other packages; they are the operations of
  \<open>retry_lib\<close>, with what the code relies on stated as \<open>retry_lib_ok\<close>.  The retry processor and the
  retry goroutines interleave with calls and with \<^verbatim>\<open>Destroy\<close>; \<open>fb_step\<close> is one atomic action of
  any of them, and reachability under it gives the invariants.

  What runs under the life-cycle lock is one action: \<open>enqueueInitialRetry\<close>, \<open>startRetry\<close>,
  \<open>enqueueRetry\<close>, \<open>finishRetry\<close> and the critical section of \<^verbatim>\<open>Destroy\<close>.  What runs without it is an
  action of its own: the processor's look at the context, its \<^verbatim>\<open>Peek\<close> and its \<^verbatim>\<open>Get\<close>, and the look
  at the context a retry goroutine takes after its call.  So \<^verbatim>\<open>Destroy\<close> can run between any two of
  them.  The cancellation and the disposal of the queue inside \<^verbatim>\<open>Destroy\<close> are visible outside the
  lock, in this order; an action that sees the cancellation never looks at the queue afterwards, so
  both can be taken as one action.  Waiting for the goroutines in \<^verbatim>\<open>Destroy\<close> changes no state and is
  not modelled.
\<close>

section \<open>Tasks and the packages they use\<close>

record 'b retryTimerTask =
  t_loadbalance :: string
  t_invocation :: RPCInvocation
  t_invokers :: "invoker list"
  t_lastInvoker :: invoker
  t_retries :: int
  t_maxRetries :: int
  t_lastT :: int
  t_nextBackoff :: int
  t_backoff :: 'b
  t_lastErr :: "go_error option"

datatype queue_error = ErrDisposed | ErrEmptyQueue | OtherQueueError

record ('q, 'b) retry_lib =
  q_New :: "int \<Rightarrow> 'q"
  q_Put :: "'b retryTimerTask \<Rightarrow> 'q \<Rightarrow> 'q option"
  q_Peek :: "'q \<Rightarrow> queue_error + 'b retryTimerTask"
  q_Get :: "'q \<Rightarrow> 'q option"
  q_Len :: "'q \<Rightarrow> int"
  q_Dispose :: "'q \<Rightarrow> 'q"
  NewExponentialBackOff :: 'b
  NextBackOff :: "'b \<Rightarrow> int \<times> 'b"
  backoff_Stop :: int

text \<open>
  The queue is a FIFO of the tasks \<open>items\<close>, and a disposed queue is empty and takes no more.
\<close>

definition retry_lib_ok :: "('q, 'b) retry_lib \<Rightarrow> ('q \<Rightarrow> 'b retryTimerTask list) \<Rightarrow> bool" where
  "retry_lib_ok L items \<longleftrightarrow>
     (\<forall>n. items (q_New L n) = []) \<and>
     (\<forall>t q q'. q_Put L t q = Some q' \<longrightarrow> items q' = items q @ [t]) \<and>
     (\<forall>q t. q_Peek L q = Inr t \<longrightarrow> items q \<noteq> [] \<and> t = hd (items q)) \<and>
     (\<forall>q q'. q_Get L q = Some q' \<longrightarrow> items q' = tl (items q)) \<and>
     (\<forall>q. items (q_Dispose L q) = []) \<and>
     (\<forall>q. q_Len L q = int (length (items q)))"

section \<open>The invoker\<close>

text \<open>
  Where the retry processor stands in its loop: at its top or waiting for the next tick, after the
  look at the context, with a task that is due, with that task removed from the queue, or returned.
\<close>

datatype 'b processor =
  Waiting
| Checked
| Peeked "'b retryTimerTask"
| Taken "'b retryTimerTask"
| Exited

text \<open>
  \<open>fb_cancelled\<close> is the state of the retry context.  Of the retry goroutines, \<open>fb_running\<close> are the
  tasks whose goroutine makes its call, \<open>fb_requeue\<close> the tasks whose goroutine has found that they
  are to be queued again and has not done so, and \<open>fb_finishing\<close> is the number of goroutines that
  only have to sign off.
\<close>

record ('q, 'b) failback =
  maxRetries :: int
  failbackTasks :: int
  stopped :: bool
  taskList :: "'q option"
  fb_cancelled :: bool
  activeRetries :: int
  fb_processor :: "'b processor"
  fb_running :: "'b retryTimerTask list"
  fb_requeue :: "'b retryTimerTask list"
  fb_finishing :: nat

abbreviation FailBackTasksKey :: string where "FailBackTasksKey \<equiv> ''failbacktasks''"

definition newFailbackClusterInvoker :: "url \<Rightarrow> ('q, 'b) failback" where
  "newFailbackClusterInvoker u =
     (let retries = (case Atoi (GetParam u RetriesKey ''3'') of Some r \<Rightarrow> if r < 0 then 3 else r | None \<Rightarrow> 3);
          tasks = GetParamInt u FailBackTasksKey 100;
          tasks = (if tasks \<le> 0 then 100 else tasks)
      in \<lparr>maxRetries = retries, failbackTasks = tasks, stopped = False, taskList = None,
          fb_cancelled = False, activeRetries = 0, fb_processor = Waiting, fb_running = [], fb_requeue = [],
          fb_finishing = 0\<rparr>)"

text \<open>The number \<^verbatim>\<open>strconv.Atoi\<close> returns along with an error: the nearest one out of range, else zero.\<close>

definition Atoi_value :: "string \<Rightarrow> int" where
  "Atoi_value s =
     (case Atoi s of
        Some x \<Rightarrow> x
      | None \<Rightarrow>
          let signed = (s \<noteq> [] \<and> (hd s = CHR ''-'' \<or> hd s = CHR ''+''))
          in if ParseUint10 (if signed then tl s else s) = None then 0
             else if hd s = CHR ''-'' then MinInt64 else MaxInt64)"

definition newRetryTimerTask ::
  "('q, 'b) retry_lib \<Rightarrow> int \<Rightarrow> string \<Rightarrow> RPCInvocation \<Rightarrow> invoker list \<Rightarrow> invoker \<Rightarrow> ('q, 'b) failback \<Rightarrow>
   'b retryTimerTask" where
  "newRetryTimerTask L now lb call ivks lastInvoker fb =
     (case NextBackOff L (NewExponentialBackOff L) of (wait, bo) \<Rightarrow>
        \<lparr>t_loadbalance = lb, t_invocation = call, t_invokers = ivks, t_lastInvoker = lastInvoker, t_retries = 0,
         t_maxRetries = (case GetAttachment call RetriesKey of Some r \<Rightarrow> Atoi_value r | None \<Rightarrow> maxRetries fb),
         t_lastT = now, t_nextBackoff = wait, t_backoff = bo, t_lastErr = None\<rparr>)"

definition enqueueInitialRetry ::
  "('q, 'b) retry_lib \<Rightarrow> bool \<Rightarrow> 'b retryTimerTask \<Rightarrow> ('q, 'b) failback \<Rightarrow> ('q, 'b) failback" where
  "enqueueInitialRetry L destroyed t fb =
     (if stopped fb \<or> destroyed then fb
      else let q = (case taskList fb of None \<Rightarrow> q_New L (failbackTasks fb) | Some q \<Rightarrow> q)
           in if q_Len L q \<ge> failbackTasks fb then fb\<lparr>taskList := Some q\<rparr>
              else case q_Put L t q of
                     Some q' \<Rightarrow> fb\<lparr>taskList := Some q'\<rparr>
                   | None \<Rightarrow> fb\<lparr>taskList := Some q\<rparr>)"

definition startRetry :: "'b retryTimerTask \<Rightarrow> ('q, 'b) failback \<Rightarrow> ('q, 'b) failback" where
  "startRetry t fb =
     (if stopped fb \<or> fb_cancelled fb then fb
      else fb\<lparr>activeRetries := activeRetries fb + 1, fb_running := fb_running fb @ [t]\<rparr>)"

definition finishRetry :: "('q, 'b) failback \<Rightarrow> ('q, 'b) failback" where
  "finishRetry fb = fb\<lparr>activeRetries := activeRetries fb - 1, fb_finishing := fb_finishing fb - 1\<rparr>"

definition enqueueRetry ::
  "('q, 'b) retry_lib \<Rightarrow> int \<Rightarrow> 'b retryTimerTask \<Rightarrow> ('q, 'b) failback \<Rightarrow> bool \<times> ('q, 'b) failback" where
  "enqueueRetry L now t fb =
     (case taskList fb of
        None \<Rightarrow> (False, fb)
      | Some q \<Rightarrow>
          if stopped fb then (False, fb)
          else case q_Put L (t\<lparr>t_lastT := now\<rparr>) q of
                 Some q' \<Rightarrow> (True, fb\<lparr>taskList := Some q'\<rparr>)
               | None \<Rightarrow> (False, fb))"

text \<open>
  \<^verbatim>\<open>checkRetry\<close> up to its call of \<open>enqueueRetry\<close>, which is an action of its own: the task to queue
  again, if its limit allows.
\<close>

definition checkRetry :: "('q, 'b) retry_lib \<Rightarrow> 'b retryTimerTask \<Rightarrow> 'b retryTimerTask option" where
  "checkRetry L t =
     (case NextBackOff L (t_backoff t) of (wait, bo) \<Rightarrow>
        let t = t\<lparr>t_retries := wrap64 (t_retries t + 1), t_nextBackoff := wait, t_backoff := bo\<rparr>
        in if t_retries t > t_maxRetries t \<or> wait = backoff_Stop L then None else Some t)"

text \<open>
  \<^verbatim>\<open>tryTimerTaskProc\<close>: the call of the retry, with the state of the context before the selection
  and after it, and what follows the call once it has ended.
\<close>

definition retry_call ::
  "bool \<Rightarrow> bool \<Rightarrow> ('w, 'l) cluster_env \<Rightarrow> (rpc_state \<times> 'l) balancer \<Rightarrow> 'b retryTimerTask \<Rightarrow>
   (('w, 'l) cluster, (invoker \<times> RPCResult) option) proc" where
  "retry_call cancelled1 cancelled2 env lb t =
     (if cancelled1 then proc_return None
      else proc_bind (DoSelect env lb (t_invokers t) [t_lastInvoker t]) (\<lambda>sel. case sel of
             None \<Rightarrow> proc_return None
           | Some ivk \<Rightarrow>
               if cancelled2 then proc_return None
               else proc_bind (Invoke env ivk) (\<lambda>res. proc_return (Some (ivk, res)))))"

definition after_retry ::
  "('q, 'b) retry_lib \<Rightarrow> 'b retryTimerTask \<Rightarrow> (invoker \<times> RPCResult) option \<Rightarrow> ('q, 'b) failback \<Rightarrow>
   'b retryTimerTask option" where
  "after_retry L t outcome fb =
     (case outcome of
        None \<Rightarrow> None
      | Some (ivk, res) \<Rightarrow>
          if Err res \<noteq> None \<and> \<not> fb_cancelled fb
          then checkRetry L (t\<lparr>t_lastInvoker := ivk, t_lastErr := Err res\<rparr>)
          else None)"

text \<open>
  The loop of \<^verbatim>\<open>processRetryTasks\<close> on the queue of the processor, one action at a time.
\<close>

definition processRetryTask ::
  "('q, 'b) retry_lib \<Rightarrow> int \<Rightarrow> 'q \<Rightarrow> ('q, 'b) failback \<Rightarrow> ('q, 'b) failback" where
  "processRetryTask L now q fb =
     (case fb_processor fb of
        Waiting \<Rightarrow> fb\<lparr>fb_processor := (if fb_cancelled fb then Exited else Checked)\<rparr>
      | Checked \<Rightarrow>
          (case q_Peek L q of
             Inl e \<Rightarrow> fb\<lparr>fb_processor := (if e = ErrDisposed then Exited else Waiting)\<rparr>
           | Inr t \<Rightarrow> fb\<lparr>fb_processor := (if now - t_lastT t < t_nextBackoff t then Waiting else Peeked t)\<rparr>)
      | Peeked t \<Rightarrow>
          (case q_Get L q of
             None \<Rightarrow> fb\<lparr>fb_processor := Waiting\<rparr>
           | Some q' \<Rightarrow> fb\<lparr>taskList := Some q', fb_processor := Taken t\<rparr>)
      | Taken t \<Rightarrow> (startRetry t fb)\<lparr>fb_processor := Waiting\<rparr>
      | Exited \<Rightarrow> fb)"

text \<open>\<^verbatim>\<open>Destroy\<close> takes effect once, guarded by \<^verbatim>\<open>destroyOnce\<close>.\<close>

definition Failback_Destroy :: "('q, 'b) retry_lib \<Rightarrow> ('q, 'b) failback \<Rightarrow> ('q, 'b) failback" where
  "Failback_Destroy L fb =
     (if stopped fb then fb
      else fb\<lparr>stopped := True, fb_cancelled := (fb_cancelled fb \<or> taskList fb \<noteq> None),
              taskList := map_option (q_Dispose L) (taskList fb)\<rparr>)"

text \<open>The call itself.  The failback record is part of the world, where other goroutines change it.\<close>

definition err_stopped :: go_error where
  "err_stopped = PlainError ''failback invoker is stopped''"

definition Failback_Invoke ::
  "('q, 'b) retry_lib \<Rightarrow> int \<Rightarrow> (('q, 'b) failback \<times> 'w, 'l) cluster_env \<Rightarrow>
   ((('q, 'b) failback \<times> 'w, 'l) cluster, RPCResult) proc" where
  "Failback_Invoke L now env = (\<lambda>s.
     if stopped (fst (world s)) then (Inr (error_result err_stopped), s)
     else proc_bind (CheckWhetherDestroyed env) (\<lambda>err. case err of
         Some e \<Rightarrow> proc_return (error_result e)
       | None \<Rightarrow> proc_bind (Directory_List env) (\<lambda>ivks. proc_bind (check env ivks) (\<lambda>err. case err of
           Some e \<Rightarrow> proc_return empty_result
         | None \<Rightarrow> proc_bind (balancer_for env ivks MethodName) (\<lambda>lb.
             proc_bind (DoSelect env lb ivks []) (\<lambda>sel. case sel of
                 None \<Rightarrow> proc_return (error_result err_nil_invoker)
               | Some ivk \<Rightarrow> proc_bind (Invoke env ivk) (\<lambda>res s.
                   if Err res \<noteq> None
                   then (Inr empty_result,
                         s\<lparr>world := (enqueueInitialRetry L (Destroyed s)
                             (newRetryTimerTask L now (lb_name (GetURL (ivks ! 0)) (MethodName (invocation s)))
                                (invocation s) ivks ivk (fst (world s)))
                             (fst (world s)), snd (world s))\<rparr>)
                   else (Inr res, s))))))) s)"

section \<open>Interleavings\<close>

text \<open>
  The processor runs once the queue exists.  A goroutine leaves \<open>fb_running\<close> when its call has ended
  and it has looked at the context.
\<close>

inductive fb_step :: "('q, 'b) retry_lib \<Rightarrow> ('q, 'b) failback \<Rightarrow> ('q, 'b) failback \<Rightarrow> bool" for L where
  enqueue: "fb_step L fb (enqueueInitialRetry L destroyed (newRetryTimerTask L now lb call ivks ivk fb) fb)"
| process: "taskList fb = Some q \<Longrightarrow> fb_step L fb (processRetryTask L now q fb)"
| given_up: "t \<in> set (fb_running fb) \<Longrightarrow> after_retry L t outcome fb = None \<Longrightarrow>
    fb_step L fb (fb\<lparr>fb_running := remove1 t (fb_running fb), fb_finishing := Suc (fb_finishing fb)\<rparr>)"
| failed: "t \<in> set (fb_running fb) \<Longrightarrow> after_retry L t outcome fb = Some t' \<Longrightarrow>
    fb_step L fb (fb\<lparr>fb_running := remove1 t (fb_running fb), fb_requeue := fb_requeue fb @ [t']\<rparr>)"
| requeue: "t \<in> set (fb_requeue fb) \<Longrightarrow> snd (enqueueRetry L now t fb) = fb' \<Longrightarrow>
    fb_step L fb (fb'\<lparr>fb_requeue := remove1 t (fb_requeue fb'), fb_finishing := Suc (fb_finishing fb')\<rparr>)"
| finish: "0 < fb_finishing fb \<Longrightarrow> fb_step L fb (finishRetry fb)"
| destroy: "fb_step L fb (Failback_Destroy L fb)"

inductive fb_reachable :: "('q, 'b) retry_lib \<Rightarrow> ('q, 'b) failback \<Rightarrow> bool" for L where
  initial: "fb_reachable L (newFailbackClusterInvoker u)"
| step: "fb_reachable L fb \<Longrightarrow> fb_step L fb fb' \<Longrightarrow> fb_reachable L fb'"

definition queued :: "('q \<Rightarrow> 'b retryTimerTask list) \<Rightarrow> ('q, 'b) failback \<Rightarrow> 'b retryTimerTask list" where
  "queued items fb = (case taskList fb of None \<Rightarrow> [] | Some q \<Rightarrow> items q)"

definition processor_tasks :: "'b processor \<Rightarrow> 'b retryTimerTask list" where
  "processor_tasks p = (case p of Peeked t \<Rightarrow> [t] | Taken t \<Rightarrow> [t] | _ \<Rightarrow> [])"

text \<open>Every task the invoker holds, wherever it is on its way.\<close>

definition held_tasks :: "('q \<Rightarrow> 'b retryTimerTask list) \<Rightarrow> ('q, 'b) failback \<Rightarrow> 'b retryTimerTask set" where
  "held_tasks items fb =
     set (queued items fb) \<union> set (processor_tasks (fb_processor fb)) \<union> set (fb_running fb) \<union> set (fb_requeue fb)"

text \<open>
  A task that is queued or being retried has retries left, its first retry apart.  The counter
  stays non-negative unless the limit is the largest number, where it wraps around.
\<close>

definition task_ok :: "'b retryTimerTask \<Rightarrow> bool" where
  "task_ok t \<longleftrightarrow> t_retries t \<le> max 0 (t_maxRetries t) \<and> t_maxRetries t \<le> MaxInt64 \<and>
     (t_maxRetries t < MaxInt64 \<longrightarrow> 0 \<le> t_retries t)"

definition fb_ok :: "('q \<Rightarrow> 'b retryTimerTask list) \<Rightarrow> ('q, 'b) failback \<Rightarrow> bool" where
  "fb_ok items fb \<longleftrightarrow>
     activeRetries fb = int (length (fb_running fb) + length (fb_requeue fb) + fb_finishing fb) \<and>
     (\<forall>t \<in> held_tasks items fb. task_ok t) \<and>
     0 \<le> maxRetries fb \<and> maxRetries fb \<le> MaxInt64 \<and> 0 < failbackTasks fb \<and>
     (stopped fb \<longrightarrow> queued items fb = []) \<and>
     (fb_cancelled fb \<longrightarrow> stopped fb)"

section \<open>Invariants\<close>

lemma retry_lib_okD:
  assumes "retry_lib_ok L items"
  shows "items (q_New L n) = []" "q_Put L t q = Some q' \<Longrightarrow> items q' = items q @ [t]"
    "q_Peek L q = Inr t \<Longrightarrow> items q = t # tl (items q)" "q_Get L q = Some q' \<Longrightarrow> items q' = tl (items q)"
    "items (q_Dispose L q) = []" "q_Len L q = int (length (items q))"
  using assms by (auto simp: retry_lib_ok_def) (metis list.collapse)

lemma task_ok_new:
  assumes "0 \<le> maxRetries fb" "maxRetries fb \<le> MaxInt64"
  shows "task_ok (newRetryTimerTask L now lb call ivks ivk fb)"
proof -
  have "Atoi_value r \<le> MaxInt64" for r
    using ParseInt_bounds [of r] by (auto simp: Atoi_value_def Atoi_def in_int64_def Let_def split: option.split)
  then show ?thesis
    using assms by (auto simp: newRetryTimerTask_def task_ok_def split: prod.split option.split)
qed

lemmas fb_ok_defs = fb_ok_def held_tasks_def queued_def processor_tasks_def

lemma fb_ok_enqueueInitial:
  assumes "retry_lib_ok L items" "fb_ok items fb" "task_ok t"
  shows "fb_ok items (enqueueInitialRetry L destroyed t fb)"
  using assms(2,3)
  by (auto simp: enqueueInitialRetry_def fb_ok_defs Let_def retry_lib_okD(1,2) [OF assms(1)] split: option.splits)

lemma fb_ok_process:
  assumes "retry_lib_ok L items" "fb_ok items fb" "taskList fb = Some q"
  shows "fb_ok items (processRetryTask L now q fb)"
proof (cases "fb_processor fb")
  case Checked
  have "task_ok t" if "q_Peek L q = Inr t" for t
  proof -
    have "t \<in> set (items q)" using retry_lib_okD(3) [OF assms(1) that] by (metis list.set_intros(1))
    then show ?thesis using assms(2,3) by (auto simp: fb_ok_defs)
  qed
  then show ?thesis
    using assms(2,3) Checked by (auto simp: processRetryTask_def fb_ok_defs split: sum.split)
next
  case (Peeked t)
  have "set (items q') \<subseteq> set (items q)" if "q_Get L q = Some q'" for q'
    using retry_lib_okD(4) [OF assms(1) that] by (cases "items q") auto
  moreover have "items q' = []" if "q_Get L q = Some q'" "items q = []" for q'
    using retry_lib_okD(4) [OF assms(1) that(1)] that(2) by simp
  ultimately show ?thesis
    using assms(2,3) Peeked by (auto simp: processRetryTask_def fb_ok_defs split: option.split)
qed (use assms(2,3) in \<open>auto simp: processRetryTask_def startRetry_def fb_ok_defs\<close>)

lemma enqueueRetry_keeps [simp]:
  "fb_running (snd (enqueueRetry L now t fb)) = fb_running fb"
  "fb_requeue (snd (enqueueRetry L now t fb)) = fb_requeue fb"
  "stopped (snd (enqueueRetry L now t fb)) = stopped fb"
  "activeRetries (snd (enqueueRetry L now t fb)) = activeRetries fb"
  by (auto simp: enqueueRetry_def split: option.split)

lemma fb_ok_enqueueRetry:
  assumes "retry_lib_ok L items" "fb_ok items fb" "task_ok t"
  shows "fb_ok items (snd (enqueueRetry L now t fb))"
  using assms(2,3)
  by (auto simp: enqueueRetry_def fb_ok_defs retry_lib_okD(2) [OF assms(1)] task_ok_def split: option.splits)

lemma task_ok_after_retry:
  assumes "task_ok t" "after_retry L t outcome fb = Some t'"
  shows "task_ok t'"
proof -
  obtain u where u: "checkRetry L u = Some t'" "t_retries u = t_retries t" "t_maxRetries u = t_maxRetries t"
    using assms(2) by (auto simp: after_retry_def split: option.split_asm if_split_asm)
  have "t_maxRetries u < MaxInt64 \<Longrightarrow> wrap64 (t_retries u + 1) = t_retries u + 1"
    using assms(1) u by (intro wrap64_id) (auto simp: task_ok_def in_int64_def)
  then show ?thesis
    using assms(1) u by (auto simp: checkRetry_def task_ok_def Let_def split: prod.split_asm if_split_asm)
qed

lemma length_remove1_Suc: "t \<in> set ts \<Longrightarrow> length ts = Suc (length (remove1 t ts))"
  using length_pos_if_in_set [of t ts] by (simp add: length_remove1)

lemma fb_ok_step:
  assumes "retry_lib_ok L items" "fb_ok items fb" "fb_step L fb fb'"
  shows "fb_ok items fb'"
  using assms(3)
proof (cases rule: fb_step.cases)
  case (enqueue destroyed now lb call ivks ivk)
  have "task_ok (newRetryTimerTask L now lb call ivks ivk fb)"
    using assms(2) by (intro task_ok_new) (auto simp: fb_ok_def)
  with enqueue show ?thesis using fb_ok_enqueueInitial [OF assms(1,2)] by simp
next
  case (process q now)
  then show ?thesis using fb_ok_process [OF assms(1,2)] by simp
next
  case (given_up t outcome)
  then show ?thesis
    using assms(2) length_remove1_Suc [OF given_up(2)]
    by (auto simp: fb_ok_defs dest: set_remove1_subset [THEN subsetD])
next
  case (failed t outcome t')
  then have "task_ok t'" using assms(2) task_ok_after_retry by (fastforce simp: fb_ok_defs)
  then show ?thesis
    using assms(2) length_remove1_Suc [OF failed(2)] failed(1)
    by (auto simp: fb_ok_defs dest: set_remove1_subset [THEN subsetD])
next
  case (requeue t now fb'')
  then have "task_ok t" using assms(2) by (auto simp: fb_ok_defs)
  then have "fb_ok items fb''" using fb_ok_enqueueRetry [OF assms(1,2)] requeue by blast
  moreover have "t \<in> set (fb_requeue fb'')" using requeue(2,3) by auto
  ultimately show ?thesis
    using length_remove1_Suc [of t "fb_requeue fb''"]
    by (auto simp: requeue(1) fb_ok_defs dest: set_remove1_subset [THEN subsetD])
next
  case finish
  then show ?thesis using assms(2) by (auto simp: fb_ok_defs finishRetry_def)
next
  case destroy
  then show ?thesis
    using assms(2)
    by (auto simp: fb_ok_defs Failback_Destroy_def retry_lib_okD(5) [OF assms(1)] split: option.splits)
qed

lemma fb_ok_new: "retry_lib_ok L items \<Longrightarrow> fb_ok items (newFailbackClusterInvoker u)"
  using ParseInt_bounds [of "GetParam u RetriesKey ''3''"]
  by (auto simp: fb_ok_defs newFailbackClusterInvoker_def Let_def Atoi_def in_int64_def split: option.split)

lemma fb_reachable_ok:
  assumes "retry_lib_ok L items" "fb_reachable L fb"
  shows "fb_ok items fb"
  using assms(2) by induction (auto intro: fb_ok_new fb_ok_step assms(1))

text \<open>
  C14.  In every interleaving of calls, the retry processor, the retry goroutines and \<^verbatim>\<open>Destroy\<close>:
  the counter of active retries is the number of goroutines that have not signed off; a task that
  waits, is on its way from the queue or back to it, or runs has failed at most as often as its
  limit allows (so it is retried at most once more than its limit says, and once even when the
  limit is zero); and a stopped invoker has an empty queue.
\<close>

theorem failback_invariant:
  assumes "retry_lib_ok L items" "fb_reachable L fb"
  shows "activeRetries fb = int (length (fb_running fb) + length (fb_requeue fb) + fb_finishing fb) \<and>
    (\<forall>t \<in> held_tasks items fb. t_retries t \<le> max 0 (t_maxRetries t)) \<and>
    (stopped fb \<longrightarrow> queued items fb = [])"
  using fb_reachable_ok [OF assms] by (auto simp: fb_ok_def task_ok_def)

lemma mset_remove1_le: "mset (remove1 t ts) \<subseteq># mset ts"
  by simp

lemma stopped_step:
  assumes "retry_lib_ok L items" "fb_ok items fb" "stopped fb" "fb_step L fb fb'"
  shows "stopped fb' \<and> mset (fb_running fb') \<subseteq># mset (fb_running fb) \<and> activeRetries fb' \<le> activeRetries fb"
  using assms(4)
proof (cases rule: fb_step.cases)
  case (process q now)
  then show ?thesis
    using assms(3) by (auto simp: processRetryTask_def startRetry_def split: processor.split option.split sum.split)
qed (use assms(3) mset_remove1_le in \<open>auto simp: enqueueInitialRetry_def finishRetry_def Failback_Destroy_def\<close>)

text \<open>
  C15.  After \<^verbatim>\<open>Destroy\<close> no retry starts, whatever the processor and the goroutines were doing when it
  ran: in every later state the invoker is stopped, nothing is queued, the goroutines that make a
  call are among those that did before, and the number of active retries has not grown.  A task
  the processor has removed from the queue and not started yet is dropped.
\<close>

theorem failback_stops:
  assumes "retry_lib_ok L items" "fb_reachable L fb" "stopped fb" "(fb_step L)\<^sup>*\<^sup>* fb fb'"
  shows "stopped fb' \<and> queued items fb' = [] \<and> mset (fb_running fb') \<subseteq># mset (fb_running fb) \<and>
    activeRetries fb' \<le> activeRetries fb"
proof -
  from assms(4) have "fb_ok items fb' \<and> stopped fb' \<and> mset (fb_running fb') \<subseteq># mset (fb_running fb) \<and>
    activeRetries fb' \<le> activeRetries fb"
  proof induction
    case base
    show ?case using fb_reachable_ok [OF assms(1,2)] assms(3) by simp
  next
    case (step fb1 fb2)
    then show ?case
      using stopped_step [OF assms(1) _ _ step(2)] fb_ok_step [OF assms(1) _ step(2)]
      by (meson order_trans subset_mset.order_trans)
  qed
  then show ?thesis by (simp add: fb_ok_def)
qed

text \<open>A queue of the required kind: a list of tasks until it is disposed.\<close>

definition list_lib :: "(unit retryTimerTask list option, unit) retry_lib" where
  "list_lib =
     \<lparr>q_New = (\<lambda>_. Some []),
      q_Put = (\<lambda>t q. map_option (\<lambda>ts. Some (ts @ [t])) q),
      q_Peek = (\<lambda>q. case q of None \<Rightarrow> Inl ErrDisposed | Some [] \<Rightarrow> Inl ErrEmptyQueue | Some (t # _) \<Rightarrow> Inr t),
      q_Get = (\<lambda>q. map_option (\<lambda>ts. Some (tl ts)) q),
      q_Len = (\<lambda>q. case q of None \<Rightarrow> 0 | Some ts \<Rightarrow> int (length ts)),
      q_Dispose = (\<lambda>_. None),
      NewExponentialBackOff = (), NextBackOff = (\<lambda>_. (1000000000, ())), backoff_Stop = -1\<rparr>"

definition list_items :: "unit retryTimerTask list option \<Rightarrow> unit retryTimerTask list" where
  "list_items q = (case q of None \<Rightarrow> [] | Some ts \<Rightarrow> ts)"

lemma list_lib_ok: "retry_lib_ok list_lib list_items"
  by (auto simp: retry_lib_ok_def list_lib_def list_items_def split: option.splits list.splits)

text \<open>
  A call fails at time zero with a limit of no retries.  One second later the processor takes its
  task off the queue and, unless \<^verbatim>\<open>Destroy\<close> comes in between, starts the retry.
\<close>

definition queued_failback :: "(unit retryTimerTask list option, unit) failback" where
  "queued_failback =
     (let fb = newFailbackClusterInvoker sample_consumer;
          call = SetAttachment sample_call RetriesKey (GStr ''0'')
      in enqueueInitialRetry list_lib False
           (newRetryTimerTask list_lib 0 DefaultLoadBalance call [sample_invoker 1] (sample_invoker 1) fb) fb)"

definition process_once ::
  "(unit retryTimerTask list option, unit) failback \<Rightarrow> (unit retryTimerTask list option, unit) failback" where
  "process_once fb = (case taskList fb of Some q \<Rightarrow> processRetryTask list_lib 1000000000 q fb | None \<Rightarrow> fb)"

definition taken_failback :: "(unit retryTimerTask list option, unit) failback" where
  "taken_failback = process_once (process_once (process_once queued_failback))"

lemma process_once_steps: "(fb_step list_lib)\<^sup>*\<^sup>* fb (process_once fb)"
  by (auto simp: process_once_def split: option.split intro: fb_step.process)

lemma fb_reachable_process: "fb_reachable list_lib fb \<Longrightarrow> fb_reachable list_lib (process_once fb)"
  by (auto simp: process_once_def split: option.split intro: fb_reachable.step fb_step.process)

lemma taken_failback_reachable: "fb_reachable list_lib taken_failback"
proof -
  have "fb_reachable list_lib queued_failback"
    unfolding queued_failback_def Let_def by (rule fb_reachable.step [OF fb_reachable.initial fb_step.enqueue])
  then show ?thesis unfolding taken_failback_def by (intro fb_reachable_process)
qed

theorem failback_invariant_witness:
  "let fb = process_once taken_failback
   in activeRetries fb = 1 \<and>
      activeRetries fb = int (length (fb_running fb) + length (fb_requeue fb) + fb_finishing fb) \<and>
      map t_maxRetries (fb_running fb) = [0]"
proof -
  let ?fb = "process_once taken_failback"
  have "activeRetries ?fb = 1" "map t_maxRetries (fb_running ?fb) = [0]" by code_simp+
  with failback_invariant [OF list_lib_ok fb_reachable_process [OF taken_failback_reachable]]
  show ?thesis by (simp add: Let_def)
qed

theorem failback_stops_witness:
  "(\<exists>t. fb_processor taken_failback = Taken t) \<and> fb_running (process_once taken_failback) \<noteq> [] \<and>
   (let fb = process_once (Failback_Destroy list_lib taken_failback)
    in stopped fb \<and> queued list_items fb = [] \<and> fb_running fb = [])"
proof -
  let ?fb = "Failback_Destroy list_lib taken_failback"
  have "case fb_processor taken_failback of Taken _ \<Rightarrow> True | _ \<Rightarrow> False" by code_simp
  then have taken: "\<exists>t. fb_processor taken_failback = Taken t" by (simp split: processor.splits)
  have run: "map t_retries (fb_running (process_once taken_failback)) = [0]" "fb_running ?fb = []" by code_simp+
  have "fb_reachable list_lib ?fb" by (rule fb_reachable.step [OF taken_failback_reachable fb_step.destroy])
  moreover have "stopped ?fb" by (simp add: Failback_Destroy_def)
  ultimately show ?thesis
    using failback_stops [OF list_lib_ok _ _ process_once_steps, of ?fb] taken run by (auto simp: Let_def)
qed

end
