(* ===== verification/Version.thy ===== *)
theory Version
  imports Go_Prelude
begin

text \<open>
  \<^verbatim>\<open>cluster/utils/version.go\<close>: the versions of router rules.
\<close>

type_synonym version = "int list"

definition version_char :: "char \<Rightarrow> bool" where
  "version_char c \<longleftrightarrow> c = CHR ''V'' \<or> c = CHR ''v'' \<or> is_digit c \<or> c = CHR ''.''"

definition versionContainsIllegalCharacters :: "string \<Rightarrow> bool" where
  "versionContainsIllegalCharacters s \<longleftrightarrow> \<not> (s \<noteq> [] \<and> list_all version_char s)"

text \<open>
  The pattern asks for the letter and then groups of digits separated by single dots; each group
  is read as a number.
\<close>

fun version_parts :: "string list \<Rightarrow> version option" where
  "version_parts [] = Some []"
| "version_parts (p # ps) =
     (case Atoi p of None \<Rightarrow> None | Some n \<Rightarrow> map_option (\<lambda>ns. n # ns) (version_parts ps))"

definition ParseVersion :: "string \<Rightarrow> version option" where
  "ParseVersion s =
     (if versionContainsIllegalCharacters s then None
      else case s of
        [] \<Rightarrow> None
      | c # digits \<Rightarrow>
          (let parts = Split digits ''.''
           in if (c = CHR ''V'' \<or> c = CHR ''v'') \<and> list_all (\<lambda>p. p \<noteq> [] \<and> list_all is_digit p) parts
              then version_parts parts else None))"

text \<open>The loop of \<^verbatim>\<open>compareVersions\<close> from an index on, with missing numbers read as zero.\<close>

fun compare_loop :: "version \<Rightarrow> version \<Rightarrow> int" where
  "compare_loop [] [] = 0"
| "compare_loop (a # v) [] = (if a > 0 then 1 else if a < 0 then -1 else compare_loop v [])"
| "compare_loop [] (b # w) = (if 0 > b then 1 else if 0 < b then -1 else compare_loop [] w)"
| "compare_loop (a # v) (b # w) = (if a > b then 1 else if a < b then -1 else compare_loop v w)"

definition compareVersions :: "version \<Rightarrow> version \<Rightarrow> int" where
  "compareVersions v target =
     (let c = compare_loop v target
      in if c \<noteq> 0 then c
         else if length v > length target then 1
         else if length v < length target then -1
         else 0)"

definition version_Equal :: "version \<Rightarrow> version \<Rightarrow> bool" where
  "version_Equal v w \<longleftrightarrow> compareVersions v w = 0"

definition version_Less :: "version \<Rightarrow> version \<Rightarrow> bool" where
  "version_Less v w \<longleftrightarrow> compareVersions v w = -1"

definition version_Greater :: "version \<Rightarrow> version \<Rightarrow> bool" where
  "version_Greater v w \<longleftrightarrow> compareVersions v w = 1"

definition V3_1 :: version where
  "V3_1 = [3, 1]"

lemma V3_1_parsed: "ParseVersion ''v3.1'' = Some V3_1"
  by code_simp

section \<open>A linear order\<close>

lemma compare_loop_range: "compare_loop v w \<in> {-1, 0, 1}"
  by (induction v w rule: compare_loop.induct) auto

lemma compare_loop_swap: "compare_loop w v = - compare_loop v w"
  by (induction v w rule: compare_loop.induct) auto

lemma compare_loop_equal: "length v = length w \<Longrightarrow> compare_loop v w = 0 \<Longrightarrow> v = w"
  by (induction v w rule: compare_loop.induct) (auto split: if_splits)

lemma compare_loop_trans:
  "compare_loop u v \<le> 0 \<Longrightarrow> compare_loop v w \<le> 0 \<Longrightarrow>
   compare_loop u w \<le> 0 \<and> (compare_loop u w = 0 \<longrightarrow> compare_loop u v = 0 \<and> compare_loop v w = 0)"
proof (induction "length u + length v + length w" arbitrary: u v w rule: less_induct)
  case less
  let ?h = "\<lambda>xs :: version. case xs of [] \<Rightarrow> 0 | x # _ \<Rightarrow> x"
  have unfold: "compare_loop xs ys =
      (if xs = [] \<and> ys = [] then 0 else if ?h xs > ?h ys then 1 else if ?h xs < ?h ys then -1
       else compare_loop (tl xs) (tl ys))" for xs ys
    by (cases "(xs, ys)" rule: compare_loop.cases) auto
  show ?case
  proof (cases "u = [] \<and> v = [] \<and> w = []")
    case False
    then have "length (tl u) + length (tl v) + length (tl w) < length u + length v + length w"
      by (auto simp: less_Suc_eq_le neq_Nil_conv)
    note IH = less.hyps [OF this]
    have nil: "compare_loop [] [] = 0" by simp
    show ?thesis
      using less.prems IH False unfolding unfold [of u v] unfold [of v w] unfold [of u w]
      by (auto split: if_split_asm)
  qed simp
qed

text \<open>
  The comparison is a strict linear order on versions: exactly one of less, equal and greater
  holds, equal versions are the same list, and less is transitive.
\<close>

lemma compareVersions_range: "compareVersions v w \<in> {-1, 0, 1}"
  using compare_loop_range [of v w] by (auto simp: compareVersions_def Let_def)

lemma compareVersions_swap: "compareVersions w v = - compareVersions v w"
  using compare_loop_swap [of w v] by (auto simp: compareVersions_def Let_def)

lemma version_Equal_iff: "version_Equal v w \<longleftrightarrow> v = w"
proof
  assume "version_Equal v w"
  then have "compare_loop v w = 0" "length v = length w"
    by (auto simp: version_Equal_def compareVersions_def Let_def split: if_splits)
  then show "v = w" using compare_loop_equal by blast
next
  assume "v = w"
  moreover have "compare_loop w w = 0" using compare_loop_swap [of w w] by simp
  ultimately show "version_Equal v w" by (simp add: version_Equal_def compareVersions_def)
qed

lemma version_Less_trans:
  assumes "version_Less u v" "version_Less v w"
  shows "version_Less u w"
proof -
  have less: "compare_loop x y < 0 \<or> compare_loop x y = 0 \<and> length x < length y" if "version_Less x y" for x y
    using that compare_loop_range [of x y] by (auto simp: version_Less_def compareVersions_def Let_def split: if_splits)
  have "compare_loop u w < 0 \<or> compare_loop u w = 0 \<and> length u < length w"
    using compare_loop_trans [of u v w] less [OF assms(1)] less [OF assms(2)] by linarith
  then show ?thesis using compare_loop_range [of u w] by (auto simp: version_Less_def compareVersions_def Let_def)
qed

end
