(* ===== verification/Condition_Match.thy ===== *)
theory Condition_Match
  imports Rpc_Types
begin

text \<open>
  The conditions of routing rules (\<^verbatim>\<open>cluster/router/condition\<close> and its package \<^verbatim>\<open>matcher\<close>): the rule
  language, the matchers it is parsed into, and their evaluation on a request or on a provider.
  Go maps that the code walks without depending on the order are association lists here, walked
  in the order of insertion.  \<open>fmt\<close> is \<^verbatim>\<open>fmt.Sprint\<close> on values that are not strings.
\<close>

section \<open>Value patterns\<close>

text \<open>\<^verbatim>\<open>matcher/pattern_value/scope.go\<close>\<close>

definition scope_ShouldMatch :: "string \<Rightarrow> bool" where
  "scope_ShouldMatch pattern \<longleftrightarrow> Contains pattern ''~''"

definition matchRange :: "int \<Rightarrow> string \<Rightarrow> string \<Rightarrow> bool \<Rightarrow> bool" where
  "matchRange intValue rawStart rawEnd defaultValue =
     (if rawStart = '''' then
        (case Atoi rawEnd of None \<Rightarrow> defaultValue | Some end \<Rightarrow> \<not> intValue > end)
      else if rawEnd = '''' then
        (case Atoi rawStart of None \<Rightarrow> defaultValue | Some start \<Rightarrow> \<not> intValue < start)
      else
        (case (Atoi rawStart, Atoi rawEnd) of
           (Some start, Some end) \<Rightarrow> \<not> (intValue < start \<or> intValue > end)
         | _ \<Rightarrow> defaultValue))"

definition scope_Match :: "string \<Rightarrow> string \<Rightarrow> bool \<Rightarrow> bool" where
  "scope_Match pattern value isWhenCondition =
     (let defaultValue = (\<not> isWhenCondition)
      in case Atoi value of
           None \<Rightarrow> defaultValue
         | Some intValue \<Rightarrow>
             (case Split pattern ''~'' of
                rawStart # rawEnd # _ \<Rightarrow>
                  if rawStart = '''' \<and> rawEnd = '''' then defaultValue
                  else matchRange intValue rawStart rawEnd defaultValue
              | _ \<Rightarrow> defaultValue))"

text \<open>\<^verbatim>\<open>matcher/pattern_value/wildcard.go\<close>; a pattern \<open>$key\<close> stands for a parameter of the other URL.\<close>

definition wildcard_Match :: "string \<Rightarrow> string \<Rightarrow> url option \<Rightarrow> bool" where
  "wildcard_Match pattern value u =
     (let pattern = (case u of
            Some u \<Rightarrow> if HasPrefix pattern ''$'' then GetRawParam u (tl pattern) else pattern
          | None \<Rightarrow> pattern)
      in if pattern = ''*'' then True
         else if pattern = '''' \<and> value = '''' then True
         else if pattern = '''' \<or> value = '''' then False
         else case LastIndex pattern ''*'' of
                None \<Rightarrow> value = pattern
              | Some i \<Rightarrow>
                  if i = length pattern - 1 then HasPrefix value (take i pattern)
                  else if i = 0 then HasSuffix value (drop (i + 1) pattern)
                  else HasPrefix value (take i pattern) \<and> HasSuffix value (drop (i + 1) pattern))"

definition doPatternMatch :: "string \<Rightarrow> string \<Rightarrow> url option \<Rightarrow> bool \<Rightarrow> bool" where
  "doPatternMatch pattern value u isWhenCondition =
     (if scope_ShouldMatch pattern then scope_Match pattern value isWhenCondition
      else wildcard_Match pattern value u)"

section \<open>Matchers\<close>

datatype matcher_kind = AttachmentConditionMatcher | ArgumentConditionMatcher | ParamConditionMatcher

record cond_matcher =
  m_kind :: matcher_kind
  m_key :: string
  m_matches :: "string list"
  m_misMatches :: "string list"

text \<open>The factories in the order of their priorities.\<close>

definition getMatcher :: "string \<Rightarrow> cond_matcher" where
  "getMatcher key =
     \<lparr>m_kind = (if HasPrefix key ''attachments'' then AttachmentConditionMatcher
               else if HasPrefix key ''arguments'' then ArgumentConditionMatcher
               else ParamConditionMatcher),
      m_key = key, m_matches = [], m_misMatches = []\<rparr>"

definition patternMatches :: "cond_matcher \<Rightarrow> string \<Rightarrow> url option \<Rightarrow> bool \<Rightarrow> bool" where
  "patternMatches b value param isWhen \<longleftrightarrow> list_ex (\<lambda>p. doPatternMatch p value param isWhen) (m_matches b)"

definition patternMisMatches :: "cond_matcher \<Rightarrow> string \<Rightarrow> url option \<Rightarrow> bool \<Rightarrow> bool" where
  "patternMisMatches b value param isWhen \<longleftrightarrow> \<not> list_ex (\<lambda>p. doPatternMatch p value param isWhen) (m_misMatches b)"

definition IsMatch :: "cond_matcher \<Rightarrow> string \<Rightarrow> url option \<Rightarrow> bool \<Rightarrow> bool" where
  "IsMatch b value param isWhen =
     (if value = '''' then False
      else if length (m_matches b) \<noteq> 0 \<and> length (m_misMatches b) = 0 then patternMatches b value param isWhen
      else if length (m_misMatches b) \<noteq> 0 \<and> length (m_matches b) = 0 then patternMisMatches b value param isWhen
      else if length (m_matches b) \<noteq> 0 \<and> length (m_misMatches b) \<noteq> 0
      then patternMisMatches b value param isWhen \<and> patternMatches b value param isWhen
      else False)"

text \<open>The first \<open>prefix[group]\<close> in a string, as the two regular expressions find it.\<close>

fun find_group :: "string \<Rightarrow> (char \<Rightarrow> bool) \<Rightarrow> string \<Rightarrow> string option" where
  "find_group prefix P [] = None"
| "find_group prefix P (c # s) =
     (let rest = drop (length prefix + 1) (c # s);
          grp = takeWhile P rest
      in if HasPrefix (c # s) (prefix @ ''['') \<and> grp \<noteq> [] \<and> HasPrefix (dropWhile P rest) '']''
         then Some grp else find_group prefix P s)"

definition word_char :: "char \<Rightarrow> bool" where
  "word_char c \<longleftrightarrow> is_digit c \<or> 65 \<le> (of_char c :: nat) \<and> (of_char c :: nat) \<le> 90 \<or>
     97 \<le> (of_char c :: nat) \<and> (of_char c :: nat) \<le> 122 \<or> c = CHR ''_''"

abbreviation key_express :: "string \<Rightarrow> string" where
  "key_express key \<equiv> fst (Cut key [CHR 0x5C, CHR ''.''])"

definition argument_GetValue :: "(go_any \<Rightarrow> string) \<Rightarrow> string \<Rightarrow> RPCInvocation option \<Rightarrow> string go" where
  "argument_GetValue fmt key call =
     (case find_group ''arguments'' is_digit (key_express key) of
        None \<Rightarrow> Inr ''''
      | Some digits \<Rightarrow>
          (case Atoi digits of
             None \<Rightarrow> Inr ''''
           | Some index \<Rightarrow>
               (case call of
                  None \<Rightarrow> if index < 0 then Inr '''' else Inl NilDereference
                | Some rpc \<Rightarrow>
                    if index < 0 \<or> index > int (length (Arguments rpc)) then Inr ''''
                    else go_bind (go_nth (Arguments rpc) index)
                           (\<lambda>v. Inr (case v of GStr str \<Rightarrow> str | _ \<Rightarrow> fmt v)))))"

definition attachment_GetValue :: "string \<Rightarrow> RPCInvocation option \<Rightarrow> string go" where
  "attachment_GetValue key call =
     (case find_group ''attachments'' word_char (key_express key) of
        None \<Rightarrow> Inr ''''
      | Some k \<Rightarrow>
          (case call of
             None \<Rightarrow> Inl NilDereference
           | Some rpc \<Rightarrow> Inr (case GetAttachment rpc k of Some v \<Rightarrow> v | None \<Rightarrow> '''')))"

definition GetSampleValueFromURL :: "string \<Rightarrow> (string \<times> string) list \<Rightarrow> RPCInvocation option \<Rightarrow> string" where
  "GetSampleValueFromURL key sample call =
     (case call of
        Some rpc \<Rightarrow>
          if key = ''method'' \<or> key = ''methods'' then MethodName rpc
          else (case map_of sample key of Some v \<Rightarrow> v | None \<Rightarrow> '''')
      | None \<Rightarrow> (case map_of sample key of Some v \<Rightarrow> v | None \<Rightarrow> ''''))"

definition GetValue ::
  "(go_any \<Rightarrow> string) \<Rightarrow> cond_matcher \<Rightarrow> (string \<times> string) list \<Rightarrow> RPCInvocation option \<Rightarrow> string go" where
  "GetValue fmt m sample call =
     (case m_kind m of
        AttachmentConditionMatcher \<Rightarrow> attachment_GetValue (m_key m) call
      | ArgumentConditionMatcher \<Rightarrow> argument_GetValue fmt (m_key m) call
      | ParamConditionMatcher \<Rightarrow> Inr (GetSampleValueFromURL (m_key m) sample call))"

definition Match ::
  "(go_any \<Rightarrow> string) \<Rightarrow> cond_matcher \<Rightarrow> (string \<times> string) list \<Rightarrow> url option \<Rightarrow> RPCInvocation option \<Rightarrow>
   bool \<Rightarrow> bool go" where
  "Match fmt m sample param call isWhen =
     go_bind (GetValue fmt m sample call) (\<lambda>value. Inr (IsMatch m value param isWhen))"

type_synonym conditions = "(string \<times> cond_matcher) list"

fun match_all ::
  "(go_any \<Rightarrow> string) \<Rightarrow> conditions \<Rightarrow> (string \<times> string) list \<Rightarrow> url option \<Rightarrow> RPCInvocation option \<Rightarrow>
   bool \<Rightarrow> bool go" where
  "match_all fmt [] sample param call isWhen = Inr True"
| "match_all fmt ((_, m) # ms) sample param call isWhen =
     go_bind (Match fmt m sample param call isWhen)
       (\<lambda>ok. if ok then match_all fmt ms sample param call isWhen else Inr False)"

definition doMatch ::
  "(go_any \<Rightarrow> string) \<Rightarrow> url \<Rightarrow> url option \<Rightarrow> RPCInvocation option \<Rightarrow> conditions \<Rightarrow> bool \<Rightarrow> bool go" where
  "doMatch fmt u param call conditions isWhen =
     go_bind (ToMap u) (\<lambda>sample. match_all fmt conditions sample param call isWhen)"

section \<open>The rule language\<close>

definition sep_char :: "char \<Rightarrow> bool" where
  "sep_char c \<longleftrightarrow> c \<in> {CHR ''&'', CHR ''!'', CHR ''='', CHR '',''}"

definition space_char :: "char \<Rightarrow> bool" where
  "space_char c \<longleftrightarrow> c \<in> {CHR '' '', CHR 0x09, CHR 0x0A, CHR 0x0C, CHR 0x0D}"

definition content_char :: "char \<Rightarrow> bool" where
  "content_char c \<longleftrightarrow> \<not> sep_char c \<and> \<not> space_char c"

text \<open>
  \<^verbatim>\<open>FindAllStringSubmatch\<close> of the route pattern: separators, optional white space, content.  Where
  the pattern does not match, the search goes on one character further.
\<close>

function route_tokens :: "string \<Rightarrow> (string \<times> string) list" where
  "route_tokens s =
     (let rest = dropWhile space_char (dropWhile sep_char s);
          content = takeWhile content_char rest
      in if content \<noteq> [] then (takeWhile sep_char s, content) # route_tokens (dropWhile content_char rest)
         else case s of [] \<Rightarrow> [] | _ # s' \<Rightarrow> route_tokens s')"
  by pat_completeness auto

termination
proof (relation "measure length")
  fix s rest content
  assume r: "rest = dropWhile space_char (dropWhile sep_char s)" "content = takeWhile content_char rest" "content \<noteq> []"
  have "length (dropWhile content_char rest) < length rest"
    using r(2,3) by (metis length_append length_greater_0_conv less_add_same_cancel2 takeWhile_dropWhile_id)
  also have "\<dots> \<le> length s"
    unfolding r(1) by (rule le_trans [OF length_dropWhile_le length_dropWhile_le])
  finally show "(dropWhile content_char rest, s) \<in> measure length" by simp
qed auto

declare route_tokens.simps [simp del]

text \<open>
  The parser shares the sets of values of a matcher by reference: \<open>heap\<close> holds the matchers made so
  far, \<open>cond\<close> the map from keys to them, \<open>cur\<close> the current one and \<open>vals\<close> the matcher whose
  matches (or mismatches, when the flag is set) a comma adds to.
\<close>

record parse_state =
  heap :: "cond_matcher list"
  cond :: "(string \<times> nat) list"
  cur :: "nat option"
  vals :: "(nat \<times> bool) option"

definition err_illegal :: "string \<Rightarrow> string \<Rightarrow> string \<Rightarrow> go_error" where
  "err_illegal rule separator content =
     PlainError (''Illegal route rule '' @ rule @ '', The error char '' @ separator @ '' before '' @ content)"

definition new_matcher :: "string \<Rightarrow> parse_state \<Rightarrow> parse_state" where
  "new_matcher content st =
     st\<lparr>heap := heap st @ [getMatcher content], cond := map_put content (length (heap st)) (cond st),
        cur := Some (length (heap st))\<rparr>"

definition processAndSeparator :: "string \<Rightarrow> parse_state \<Rightarrow> parse_state" where
  "processAndSeparator content st =
     (case map_of (cond st) content of
        Some i \<Rightarrow> st\<lparr>cur := Some i\<rparr>
      | None \<Rightarrow> new_matcher content st)"

definition add_value :: "string \<Rightarrow> nat \<times> bool \<Rightarrow> parse_state \<Rightarrow> parse_state" where
  "add_value content r st =
     (case r of (i, mismatch) \<Rightarrow>
        let m = heap st ! i
        in st\<lparr>heap := (heap st)[i := (if mismatch then m\<lparr>m_misMatches := List.insert content (m_misMatches m)\<rparr>
                                     else m\<lparr>m_matches := List.insert content (m_matches m)\<rparr>)]\<rparr>)"

definition processEqualNotEqualSeparator ::
  "string \<Rightarrow> string \<Rightarrow> string \<Rightarrow> parse_state \<Rightarrow> go_error + parse_state" where
  "processEqualNotEqualSeparator rule separator content st =
     (case cur st of
        None \<Rightarrow> Inl (err_illegal rule separator content)
      | Some i \<Rightarrow>
          let r = (i, separator = ''!='')
          in Inr ((add_value content r st)\<lparr>vals := Some r\<rparr>))"

definition values_of :: "parse_state \<Rightarrow> string list" where
  "values_of st =
     (case vals st of
        None \<Rightarrow> []
      | Some (i, mismatch) \<Rightarrow> if mismatch then m_misMatches (heap st ! i) else m_matches (heap st ! i))"

definition processCommaSeparator :: "string \<Rightarrow> string \<Rightarrow> parse_state \<Rightarrow> go_error + parse_state" where
  "processCommaSeparator rule content st =
     (if length (values_of st) = 0 then Inl (err_illegal rule '','' content)
      else case vals st of None \<Rightarrow> Inr st | Some r \<Rightarrow> Inr (add_value content r st))"

fun process_tokens :: "string \<Rightarrow> (string \<times> string) list \<Rightarrow> parse_state \<Rightarrow> go_error + parse_state" where
  "process_tokens rule [] st = Inr st"
| "process_tokens rule ((separator, content) # toks) st =
     (case (if separator = '''' then Inr (new_matcher content st)
            else if separator = ''&'' then Inr (processAndSeparator content st)
            else if separator = ''='' \<or> separator = ''!='' then processEqualNotEqualSeparator rule separator content st
            else if separator = '','' then processCommaSeparator rule content st
            else Inl (err_illegal rule separator content)) of
        Inl e \<Rightarrow> Inl e
      | Inr st \<Rightarrow> process_tokens rule toks st)"

definition processMatchers :: "string \<Rightarrow> go_error + conditions" where
  "processMatchers rule =
     (case process_tokens rule (route_tokens rule) \<lparr>heap = [], cond = [], cur = None, vals = None\<rparr> of
        Inl e \<Rightarrow> Inl e
      | Inr st \<Rightarrow> Inr (map (\<lambda>(k, i). (k, heap st ! i)) (cond st)))"

definition isRuleEmpty :: "string \<Rightarrow> bool" where
  "isRuleEmpty rule \<longleftrightarrow> rule = '''' \<or> rule = '' ''"

definition parseRule :: "string \<Rightarrow> go_error + conditions" where
  "parseRule rule = (if isRuleEmpty rule then Inr [] else processMatchers rule)"

section \<open>Rules mean what they say\<close>

text \<open>
  A clause asks a key to have one of some values, or none of them; a rule is a conjunction of
  clauses.  \<open>print_rule\<close> writes it in the rule language.
\<close>

type_synonym clause = "string \<times> bool \<times> string list"

definition word :: "string \<Rightarrow> bool" where
  "word w \<longleftrightarrow> w \<noteq> [] \<and> list_all content_char w"

definition print_values :: "string list \<Rightarrow> string" where
  "print_values vs = concat (map (\<lambda>v. '','' @ v) vs)"

fun print_clause :: "clause \<Rightarrow> string" where
  "print_clause (k, neg, vs) = k @ (if neg then ''!='' else ''='') @ hd vs @ print_values (tl vs)"

fun print_rule :: "clause list \<Rightarrow> string" where
  "print_rule [] = ''''"
| "print_rule (c # cs) = print_clause c @ concat (map (\<lambda>c. ''&'' @ print_clause c) cs)"

definition clause_ok :: "clause \<Rightarrow> bool" where
  "clause_ok c \<longleftrightarrow> (case c of (k, _, vs) \<Rightarrow> word k \<and> vs \<noteq> [] \<and> list_all word vs)"

fun clause_matcher :: "clause \<Rightarrow> cond_matcher" where
  "clause_matcher (k, neg, vs) =
     (let values = fold List.insert vs []
      in if neg then (getMatcher k)\<lparr>m_misMatches := values\<rparr> else (getMatcher k)\<lparr>m_matches := values\<rparr>)"

fun clause_tokens :: "clause \<Rightarrow> (string \<times> string) list" where
  "clause_tokens (k, neg, vs) =
     (if neg then ''!='' else ''='', hd vs) # map (\<lambda>v. ('','', v)) (tl vs)"

definition sep_start :: "string \<Rightarrow> bool" where
  "sep_start s \<longleftrightarrow> (case s of [] \<Rightarrow> True | c # _ \<Rightarrow> sep_char c)"

lemma route_tokens_word:
  assumes "list_all sep_char sep" "word w" "sep_start rest"
  shows "route_tokens (sep @ w @ rest) = (sep, w) # route_tokens rest"
proof -
  obtain c w' where w: "w = c # w'" "content_char c" using assms(2) by (cases w) (auto simp: word_def)
  have sep: "takeWhile sep_char (sep @ w @ rest) = sep" "dropWhile sep_char (sep @ w @ rest) = w @ rest"
    using assms(1) w by (auto simp: takeWhile_append dropWhile_append list_all_iff content_char_def)
  have space: "dropWhile space_char (w @ rest) = w @ rest" using w by (simp add: content_char_def)
  have content: "takeWhile content_char (w @ rest) = w" "dropWhile content_char (w @ rest) = rest"
    using assms(2,3)
    by (auto simp: takeWhile_append dropWhile_append list_all_iff word_def sep_start_def content_char_def split: list.splits)
  have "w \<noteq> []" using w by simp
  then show ?thesis by (subst route_tokens.simps) (simp add: Let_def sep space content)
qed

lemma sep_start_simps [simp]:
  "sep_start []" "sep_char c \<Longrightarrow> sep_start (c # s)" "sep_start (print_values vs @ rest) \<longleftrightarrow> vs \<noteq> [] \<or> sep_start rest"
  by (cases vs; auto simp: sep_start_def print_values_def sep_char_def)+

lemma route_tokens_values:
  "list_all word vs \<Longrightarrow> sep_start rest \<Longrightarrow>
   route_tokens (print_values vs @ rest) = map (\<lambda>v. ('','', v)) vs @ route_tokens rest"
proof (induction vs)
  case (Cons v vs)
  then have "route_tokens ('','' @ v @ (print_values vs @ rest)) = ('','', v) # route_tokens (print_values vs @ rest)"
    by (intro route_tokens_word) (auto simp: sep_char_def)
  with Cons show ?case by (simp add: print_values_def)
qed (simp add: print_values_def)

lemma route_tokens_clause:
  assumes "clause_ok c" "list_all sep_char sep" "sep_start rest"
  shows "route_tokens (sep @ print_clause c @ rest) = (sep, fst c) # clause_tokens c @ route_tokens rest"
proof -
  obtain k neg v vs where c: "c = (k, neg, v # vs)" "word k" "word v" "list_all word vs"
    using assms(1) by (cases c) (auto simp: clause_ok_def neq_Nil_conv)
  let ?op = "if neg then ''!='' else ''=''"
  have op: "list_all sep_char ?op" "sep_start (?op @ t)" for t by (auto simp: sep_char_def)
  have "route_tokens (?op @ v @ (print_values vs @ rest)) = (?op, v) # route_tokens (print_values vs @ rest)"
    using c(3) assms(3) by (intro route_tokens_word op) auto
  moreover have "route_tokens (sep @ k @ (?op @ v @ print_values vs @ rest)) = (sep, k) # route_tokens (?op @ v @ print_values vs @ rest)"
    using route_tokens_word [OF assms(2) c(2) op(2)] by blast
  ultimately show ?thesis using route_tokens_values [OF c(4) assms(3)] by (simp add: c(1))
qed

lemma route_tokens_clauses:
  "list_all clause_ok cs \<Longrightarrow>
   route_tokens (concat (map (\<lambda>c. ''&'' @ print_clause c) cs)) = concat (map (\<lambda>c. (''&'', fst c) # clause_tokens c) cs)"
proof (induction cs)
  case (Cons c cs)
  let ?rest = "concat (map (\<lambda>c. ''&'' @ print_clause c) cs)"
  have "sep_start ?rest" by (cases cs) (auto simp: sep_char_def)
  with Cons have "route_tokens (''&'' @ print_clause c @ ?rest) = (''&'', fst c) # clause_tokens c @ route_tokens ?rest"
    by (intro route_tokens_clause) (auto simp: sep_char_def)
  with Cons show ?case by simp
qed (simp add: route_tokens.simps)

text \<open>The state after a clause: its matcher is the last one made, and commas add to it.\<close>

definition at_clause :: "cond_matcher list \<Rightarrow> (string \<times> nat) list \<Rightarrow> clause \<Rightarrow> parse_state" where
  "at_clause h cs c =
     (case c of (k, neg, _) \<Rightarrow>
        \<lparr>heap = h @ [clause_matcher c], cond = cs @ [(k, length h)], cur = Some (length h), vals = Some (length h, neg)\<rparr>)"

lemma add_value_at_clause:
  "add_value v (length h, neg) (at_clause h cs (k, neg, vs)) = at_clause h cs (k, neg, vs @ [v])"
  by (simp add: add_value_def at_clause_def Let_def)

lemma process_commas:
  assumes "vs \<noteq> []"
  shows "process_tokens rule (map (\<lambda>v. ('','', v)) ws @ toks) (at_clause h cs (k, neg, vs)) =
    process_tokens rule toks (at_clause h cs (k, neg, vs @ ws))"
  using assms
proof (induction ws arbitrary: vs)
  case (Cons w ws)
  have "fold List.insert vs [] \<noteq> []" using Cons.prems by (cases vs rule: rev_cases) (auto simp: List.insert_def)
  then have "values_of (at_clause h cs (k, neg, vs)) \<noteq> []"
    by (auto simp: values_of_def at_clause_def getMatcher_def Let_def)
  then have "processCommaSeparator rule w (at_clause h cs (k, neg, vs)) = Inr (at_clause h cs (k, neg, vs @ [w]))"
    using add_value_at_clause [of w h neg cs k vs] by (simp add: processCommaSeparator_def at_clause_def)
  with Cons.IH [of "vs @ [w]"] show ?case by simp
qed simp

lemma process_clause:
  assumes "clause_ok c" "fst c \<notin> fst ` set (cond st)" "separator = '''' \<or> separator = ''&''"
  shows "process_tokens rule ((separator, fst c) # clause_tokens c @ toks) st =
    process_tokens rule toks (at_clause (heap st) (cond st) c)"
proof -
  obtain k neg v vs where c: "c = (k, neg, v # vs)" using assms(1) by (cases c) (auto simp: clause_ok_def neq_Nil_conv)
  have "map_of (cond st) k = None" using assms(2) by (simp add: c map_of_eq_None_iff)
  then have made: "processAndSeparator k st = new_matcher k st" by (simp add: processAndSeparator_def)
  have "processEqualNotEqualSeparator rule (if neg then ''!='' else ''='') v (new_matcher k st) =
      Inr (at_clause (heap st) (cond st) (k, neg, [v]))"
    using assms(2)
    by (auto simp: processEqualNotEqualSeparator_def new_matcher_def add_value_def at_clause_def Let_def c map_put_notin
        getMatcher_def)
  then show ?thesis using assms(3) made process_commas [of "[v]" rule vs toks] by (auto simp: c)
qed

text \<open>The conditions a state stands for.\<close>

definition conditions_of :: "parse_state \<Rightarrow> conditions" where
  "conditions_of st = map (\<lambda>(k, i). (k, heap st ! i)) (cond st)"

lemma conditions_at_clause:
  assumes "\<forall>(k, i) \<in> set (cond st). i < length (heap st)"
  shows "conditions_of (at_clause (heap st) (cond st) c) = conditions_of st @ [(fst c, clause_matcher c)]"
    "\<forall>(k, i) \<in> set (cond (at_clause (heap st) (cond st) c)). i < length (heap (at_clause (heap st) (cond st) c))"
    "fst ` set (cond (at_clause (heap st) (cond st) c)) = insert (fst c) (fst ` set (cond st))"
  using assms by (cases c; auto simp: conditions_of_def at_clause_def nth_append)+

lemma process_clauses:
  assumes "list_all clause_ok cs" "distinct (map fst cs)" "fst ` set cs \<inter> fst ` set (cond st) = {}"
    "\<forall>(k, i) \<in> set (cond st). i < length (heap st)"
  shows "\<exists>st'. process_tokens rule (concat (map (\<lambda>c. (''&'', fst c) # clause_tokens c) cs)) st = Inr st' \<and>
    conditions_of st' = conditions_of st @ map (\<lambda>c. (fst c, clause_matcher c)) cs"
  using assms
proof (induction cs arbitrary: st)
  case (Cons c cs)
  let ?st = "at_clause (heap st) (cond st) c"
  note at = conditions_at_clause [OF Cons.prems(4), of c]
  have "\<exists>st'. process_tokens rule (concat (map (\<lambda>c. (''&'', fst c) # clause_tokens c) cs)) ?st = Inr st' \<and>
      conditions_of st' = conditions_of ?st @ map (\<lambda>c. (fst c, clause_matcher c)) cs"
    using Cons.prems at(2,3) by (intro Cons.IH) auto
  moreover have "process_tokens rule ((''&'', fst c) # clause_tokens c @ toks) st = process_tokens rule toks ?st" for toks
    using Cons.prems by (intro process_clause) auto
  ultimately show ?case by (auto simp: at(1))
qed simp

lemma parseRule_clauses:
  assumes "cs \<noteq> []" "list_all clause_ok cs" "distinct (map fst cs)"
  shows "parseRule (print_rule cs) = Inr (map (\<lambda>c. (fst c, clause_matcher c)) cs)"
proof -
  obtain c cs' where cs: "cs = c # cs'" using assms(1) by (cases cs) auto
  let ?rest = "concat (map (\<lambda>c. ''&'' @ print_clause c) cs')" and ?toks = "concat (map (\<lambda>c. (''&'', fst c) # clause_tokens c) cs')"
  let ?init = "\<lparr>heap = [], cond = [], cur = None, vals = None\<rparr>"
  have ok: "clause_ok c" "list_all clause_ok cs'" using assms(2) by (simp_all add: cs)
  have "sep_start ?rest" by (cases cs') (auto simp: sep_char_def)
  then have "route_tokens (print_rule cs) = ('''', fst c) # clause_tokens c @ ?toks"
    using route_tokens_clause [OF ok(1), of "''''" ?rest] route_tokens_clauses [OF ok(2)] by (simp add: cs)
  then have toks: "process_tokens r (route_tokens (print_rule cs)) ?init = process_tokens r ?toks (at_clause [] [] c)" for r
    using process_clause [OF ok(1), of ?init "''''"] by simp
  have at: "conditions_of (at_clause [] [] c) = [(fst c, clause_matcher c)]" "fst ` set (cond (at_clause [] [] c)) = {fst c}"
    "\<forall>(k, i) \<in> set (cond (at_clause [] [] c)). i < length (heap (at_clause [] [] c))"
    using conditions_at_clause [of ?init c] by (simp_all add: conditions_of_def)
  obtain st where st: "process_tokens (print_rule cs) ?toks (at_clause [] [] c) = Inr st"
    "conditions_of st = (fst c, clause_matcher c) # map (\<lambda>c. (fst c, clause_matcher c)) cs'"
    using process_clauses [OF ok(2) _ _ at(3), of "print_rule cs"] assms(3) at(1,2) by (auto simp: cs)
  have "\<not> isRuleEmpty (print_rule cs)"
  proof -
    obtain k neg v vs where c: "c = (k, neg, v # vs)" "k \<noteq> []" "v \<noteq> []" using ok(1)
      by (cases c) (auto simp: clause_ok_def word_def neq_Nil_conv)
    then have "1 < length (print_rule cs)" by (cases k) (auto simp: cs)
    then show ?thesis by (auto simp: isRuleEmpty_def)
  qed
  then show ?thesis using toks st by (simp add: parseRule_def processMatchers_def conditions_of_def cs)
qed

text \<open>
  C22.  The rule parser reads back what a rule says: a rule written from clauses on different keys
  is parsed into one matcher per clause, with exactly the values of the clause as its matches or
  mismatches, in the order of the clauses.
\<close>

theorem parseRule_print_rule:
  assumes "cs \<noteq> []" "list_all clause_ok cs" "distinct (map fst cs)"
  shows "parseRule (print_rule cs) = Inr (map (\<lambda>c. (fst c, clause_matcher c)) cs)"
  using assms by (rule parseRule_clauses)

theorem parseRule_print_rule_witness:
  "parseRule ''method=find*,list*&host!=10.20.153.10'' =
     Inr [(''method'', (getMatcher ''method'')\<lparr>m_matches := [''list*'', ''find*'']\<rparr>),
          (''host'', (getMatcher ''host'')\<lparr>m_misMatches := [''10.20.153.10'']\<rparr>)]"
  using parseRule_print_rule [of "[(''method'', False, [''find*'', ''list*'']), (''host'', True, [''10.20.153.10''])]"]
  by (simp add: clause_ok_def word_def content_char_def sep_char_def space_char_def print_values_def)

section \<open>Conditions on arguments\<close>

lemma nat_digits_digits: "list_all is_digit (nat_digits n)"
proof (induction n rule: nat_digits.induct)
  case (1 n)
  then show ?case
    by (cases "n < 10") (auto simp: nat_digits.simps [of n] is_digit_def of_char_of)
qed

lemma Atoi_nat_digits: "n < 2 ^ 63 \<Longrightarrow> Atoi (nat_digits n) = Some (int n)"
  using ParseInt_Itoa [of "int n"] by (simp add: Atoi_def Itoa_def in_int64_def)

lemma Index_absent: "p \<notin> set s \<Longrightarrow> Index s (p # ps) = None"
  by (induction s) auto

lemma key_express_plain: "CHR 0x5C \<notin> set key \<Longrightarrow> key_express key = key"
  by (simp add: Cut_def Index_absent)

lemma find_group_digits: "find_group ''arguments'' is_digit (''arguments['' @ nat_digits n @ '']'') = Some (nat_digits n)"
proof -
  have all: "list_all is_digit (nat_digits n)" "nat_digits n \<noteq> []" using nat_digits_digits nat_digits_hd by auto
  have "takeWhile is_digit (nat_digits n @ '']'') = nat_digits n" "dropWhile is_digit (nat_digits n @ '']'') = '']''"
    using all(1) by (auto simp: takeWhile_append dropWhile_append list_all_iff is_digit_def)
  with all(2) show ?thesis by (simp add: Let_def)
qed

text \<open>
  C40.  A condition on an argument reads the argument with that index; an index beyond the
  arguments gives the empty value, which matches nothing, except that the first index beyond them
  makes routing panic.
\<close>

theorem argument_GetValue_bounds:
  assumes "n < 2 ^ 63"
  shows "argument_GetValue fmt (''arguments['' @ nat_digits n @ '']'') (Some rpc) =
    (if n < length (Arguments rpc)
     then Inr (case Arguments rpc ! n of GStr str \<Rightarrow> str | _ \<Rightarrow> fmt (Arguments rpc ! n))
     else if n = length (Arguments rpc) then Inl IndexOutOfRange
     else Inr '''')"
proof -
  let ?key = "''arguments['' @ nat_digits n @ '']''"
  have "CHR 0x5C \<notin> set (nat_digits n)" using nat_digits_digits [of n] by (auto simp: list_all_iff is_digit_def)
  then have "key_express ?key = ?key" by (intro key_express_plain) simp
  then show ?thesis
    using Atoi_nat_digits [OF assms]
    unfolding argument_GetValue_def by (simp add: find_group_digits go_nth_def del: find_group.simps append.simps)
qed

theorem argument_GetValue_bounds_witness:
  "argument_GetValue (\<lambda>_. '''') (''arguments['' @ nat_digits 1 @ '']'') (Some (NewRPCInvocation ''Greet'' (Some [GStr ''hi'']) None)) =
     Inl IndexOutOfRange \<and>
   argument_GetValue (\<lambda>_. '''') (''arguments['' @ nat_digits 0 @ '']'') (Some (NewRPCInvocation ''Greet'' (Some [GStr ''hi'']) None)) =
     Inr ''hi''"
  using argument_GetValue_bounds [of 1 "\<lambda>_. ''''" "NewRPCInvocation ''Greet'' (Some [GStr ''hi'']) None"]
    argument_GetValue_bounds [of 0 "\<lambda>_. ''''" "NewRPCInvocation ''Greet'' (Some [GStr ''hi'']) None"]
  by (simp add: Arguments_def NewRPCInvocation_def)

end
