(* ===== verification/Router_Config.thy ===== *)
theory Router_Config
  imports Rpc_Types
begin

text \<open>
  The configuration of routers (\<^verbatim>\<open>global/router_config.go\<close>, \<^verbatim>\<open>cluster/router/options.go\<close>), the parameter
  matches it holds (\<^verbatim>\<open>common/match.go\<close>), and the interface of a router that the chain relies on.
\<close>

section \<open>Matches on parameters\<close>

record StringMatch =
  sm_Exact :: string
  sm_Prefix :: string
  sm_Regex :: string
  sm_Noempty :: string
  sm_Empty :: string
  sm_Wildcard :: string

record ParamMatch =
  pm_Key :: string
  pm_Value :: StringMatch

text \<open>\<open>regex\<close> is \<^verbatim>\<open>regexp.MatchString\<close>, false for a pattern that does not compile.\<close>

definition StringMatch_IsMatch :: "(string \<Rightarrow> string \<Rightarrow> bool) \<Rightarrow> StringMatch \<Rightarrow> string \<Rightarrow> bool" where
  "StringMatch_IsMatch regex p value =
     (if sm_Exact p \<noteq> '''' then sm_Exact p = value
      else if sm_Prefix p \<noteq> '''' then HasPrefix value (sm_Prefix p)
      else if sm_Regex p \<noteq> '''' then regex (sm_Regex p) value
      else if sm_Wildcard p \<noteq> '''' then value = sm_Wildcard p \<or> AnyValue = sm_Wildcard p
      else if sm_Empty p \<noteq> '''' then value = ''''
      else if sm_Noempty p \<noteq> '''' then value \<noteq> ''''
      else False)"

definition ParamMatch_IsMatch :: "(string \<Rightarrow> string \<Rightarrow> bool) \<Rightarrow> ParamMatch \<Rightarrow> url \<Rightarrow> bool" where
  "ParamMatch_IsMatch regex p u = StringMatch_IsMatch regex (pm_Value p) (GetParam u (pm_Key p) '''')"

definition ListStringMatch_IsMatch :: "(string \<Rightarrow> string \<Rightarrow> bool) \<Rightarrow> StringMatch list \<Rightarrow> string \<Rightarrow> bool" where
  "ListStringMatch_IsMatch regex oneof value \<longleftrightarrow> list_ex (\<lambda>m. StringMatch_IsMatch regex m value) oneof"

section \<open>Rules\<close>

text \<open>\<^const>\<open>None\<close> in a list of matches is a nil pointer.\<close>

record Tag =
  tag_Name :: string
  tag_Match :: "ParamMatch option list"
  tag_Addresses :: "string list"

record RouterConfig =
  rc_Scope :: string
  rc_Key :: string
  rc_Force :: "bool option"
  rc_Runtime :: "bool option"
  rc_Enabled :: "bool option"
  rc_Valid :: "bool option"
  rc_Priority :: int
  rc_Conditions :: "string list"
  rc_Tags :: "Tag list"
  rc_ScriptType :: string
  rc_Script :: string

definition DefaultRouterConfig :: RouterConfig where
  "DefaultRouterConfig =
     \<lparr>rc_Scope = '''', rc_Key = '''', rc_Force = None, rc_Runtime = None, rc_Enabled = None, rc_Valid = None,
      rc_Priority = 0, rc_Conditions = [], rc_Tags = [], rc_ScriptType = '''', rc_Script = ''''\<rparr>"

record ConditionRuleTo =
  to_Match :: string
  to_Weight :: int

record ConditionRule =
  from_Match :: string
  rule_To :: "ConditionRuleTo list"

record ConditionRouter =
  cr_Force :: bool
  cr_Enabled :: bool
  cr_Conditions :: "ConditionRule option list"

record AffinityRouter =
  ar_Enabled :: bool
  ar_Key :: string
  ar_Ratio :: int

definition ConditionRule_Equal :: "ConditionRule option \<Rightarrow> ConditionRule option \<Rightarrow> bool" where
  "ConditionRule_Equal x t =
     (case (x, t) of
        (Some x, Some t) \<Rightarrow>
          from_Match x = from_Match t \<and> length (rule_To x) = length (rule_To t) \<and>
          list_all2 (\<lambda>a b. a = b) (rule_To x) (rule_To t)
      | (None, None) \<Rightarrow> True
      | _ \<Rightarrow> False)"

text \<open>A deep copy, so that a router may keep and change its configuration.\<close>

definition RouterConfig_Clone :: "RouterConfig option \<Rightarrow> RouterConfig option" where
  "RouterConfig_Clone cfg =
     (case cfg of
        None \<Rightarrow> None
      | Some c \<Rightarrow>
          let copy_flag = (\<lambda>f. case f of None \<Rightarrow> None | Some b \<Rightarrow> Some b);
              newTags = map (\<lambda>t. t\<lparr>tag_Match := map (\<lambda>m. case m of None \<Rightarrow> None | Some pm \<Rightarrow> Some pm) (tag_Match t),
                                   tag_Addresses := map (\<lambda>a. a) (tag_Addresses t)\<rparr>) (rc_Tags c)
          in Some \<lparr>rc_Scope = rc_Scope c, rc_Key = rc_Key c, rc_Force = copy_flag (rc_Force c),
               rc_Runtime = copy_flag (rc_Runtime c), rc_Enabled = copy_flag (rc_Enabled c),
               rc_Valid = copy_flag (rc_Valid c), rc_Priority = rc_Priority c,
               rc_Conditions = map (\<lambda>x. x) (rc_Conditions c), rc_Tags = newTags,
               rc_ScriptType = rc_ScriptType c, rc_Script = rc_Script c\<rparr>)"

lemma RouterConfig_Clone_id [simp]: "RouterConfig_Clone cfg = cfg"
proof (cases cfg)
  case (Some c)
  have flag: "(case f of None \<Rightarrow> None | Some b \<Rightarrow> Some b) = f" for f :: "'b option" by (cases f) auto
  have "map (case_option None Some) ms = ms" for ms :: "ParamMatch option list"
    by (rule map_idI) (simp split: option.split)
  then show ?thesis using Some by (simp add: RouterConfig_Clone_def flag)
qed (simp add: RouterConfig_Clone_def)

text \<open>\<^verbatim>\<open>cluster/router/options.go\<close>: an option changes one field.\<close>

type_synonym router_option = "RouterConfig \<Rightarrow> RouterConfig"

definition NewOptions :: "router_option list \<Rightarrow> RouterConfig" where
  "NewOptions opts = fold (\<lambda>opt cfg. opt cfg) opts DefaultRouterConfig"

definition WithScope :: "string \<Rightarrow> router_option" where "WithScope v c = c\<lparr>rc_Scope := v\<rparr>"
definition WithKey :: "string \<Rightarrow> router_option" where "WithKey v c = c\<lparr>rc_Key := v\<rparr>"
definition WithForce :: "bool \<Rightarrow> router_option" where "WithForce v c = c\<lparr>rc_Force := Some v\<rparr>"
definition WithRuntime :: "bool \<Rightarrow> router_option" where "WithRuntime v c = c\<lparr>rc_Runtime := Some v\<rparr>"
definition WithEnabled :: "bool \<Rightarrow> router_option" where "WithEnabled v c = c\<lparr>rc_Enabled := Some v\<rparr>"
definition WithValid :: "bool \<Rightarrow> router_option" where "WithValid v c = c\<lparr>rc_Valid := Some v\<rparr>"
definition WithPriority :: "int \<Rightarrow> router_option" where "WithPriority v c = c\<lparr>rc_Priority := v\<rparr>"
definition WithConditions :: "string list \<Rightarrow> router_option" where "WithConditions v c = c\<lparr>rc_Conditions := v\<rparr>"
definition WithTags :: "Tag list \<Rightarrow> router_option" where "WithTags v c = c\<lparr>rc_Tags := v\<rparr>"
definition WithScript :: "string \<Rightarrow> router_option" where "WithScript v c = c\<lparr>rc_Script := v\<rparr>"
definition WithScriptType :: "string \<Rightarrow> router_option" where "WithScriptType v c = c\<lparr>rc_ScriptType := v\<rparr>"

section \<open>Changes of rules\<close>

text \<open>What the YAML decoder makes of a rule text: its version field, and the three kinds of rules.\<close>

record yaml_decoder =
  y_configVersion :: "string \<Rightarrow> go_error + go_any option"
  y_RouterConfig :: "string \<Rightarrow> go_error + RouterConfig"
  y_ConditionRouter :: "string \<Rightarrow> go_error + ConditionRouter"
  y_AffinityRouter :: "string \<Rightarrow> go_error + AffinityRouter"

text \<open>\<^verbatim>\<open>remoting.EventType\<close> with the events a configuration center sends.\<close>

datatype event_type = EventTypeAdd | EventTypeDel | EventTypeUpdate

record ConfigChangeEvent =
  ev_Key :: string
  ev_Value :: go_any
  ev_ConfigType :: event_type

text \<open>
  The configuration center as a router sees it: the subscriptions made so far, oldest first, and
  the rule it returns for a key.  A listener is named by the address of its router.  There is no
  configuration center before it is started, which is \<^const>\<open>None\<close> below.
\<close>

datatype subscription = AddListener string nat | RemoveListener string nat

record conf_center =
  cc_calls :: "subscription list"
  cc_GetRule :: "string \<Rightarrow> go_error + string"

definition subscribe :: "subscription \<Rightarrow> conf_center \<Rightarrow> conf_center" where
  "subscribe c cc = cc\<lparr>cc_calls := cc_calls cc @ [c]\<rparr>"

abbreviation ApplicationKey :: string where "ApplicationKey \<equiv> ''application''"

section \<open>The interface of a router\<close>

text \<open>
  A router returns some of the invokers it was given, and may write to the invocation.  \<open>'e\<close> is
  what it depends on besides its arguments: its rule, the draws, its caches.  \<open>coherent\<close> says which
  caches fit the invokers at hand.
\<close>

type_synonym route = "invoker list \<Rightarrow> url \<Rightarrow> RPCInvocation \<Rightarrow> (invoker list \<times> RPCInvocation) go"

locale priority_router =
  fixes Route :: "'e \<Rightarrow> route" and coherent :: "'e \<Rightarrow> invoker list \<Rightarrow> RPCInvocation \<Rightarrow> bool"
  assumes route_subset:
    "Route e ivks u call = Inr (ivks', call') \<Longrightarrow> coherent e ivks call \<Longrightarrow> set ivks' \<subseteq> set ivks"
begin

lemma route_empty: "Route e [] u call = Inr (ivks', call') \<Longrightarrow> coherent e [] call \<Longrightarrow> ivks' = []"
  using route_subset [of e "[]" u call ivks' call'] by simp

end

end
