(* ===== verification/Condition_Router.thy ===== *)
theory Condition_Router
  imports Condition_Match Router_Config Version
begin

text \<open>
  \<^verbatim>\<open>cluster/router/condition\<close>: routers driven by condition rules.  A rule of the older kind sends the
  requests that match its left side to the providers that match its right side; a rule of the
  newer kind has several weighted destinations.  The service and application routers apply the
  rules of the configuration center.  Decoding YAML is a parameter.
\<close>

section \<open>Rules with one destination\<close>

record StateRouter =
  whenCondition :: conditions
  thenCondition :: conditions

definition parseWhen :: "string \<Rightarrow> go_error + conditions" where
  "parseWhen whenRule = (if whenRule = '''' \<or> whenRule = '' '' \<or> whenRule = ''true'' then Inr [] else parseRule whenRule)"

definition parseThen :: "string \<Rightarrow> go_error + conditions" where
  "parseThen thenRule = (if thenRule = '''' \<or> thenRule = '' '' \<or> thenRule = ''false'' then Inr [] else parseRule thenRule)"

definition generateMatcher :: "string \<Rightarrow> go_error + conditions \<times> conditions" where
  "generateMatcher rule =
     (if rule = '''' \<or> length (Trim rule CHR '' '') = 0 then Inl (PlainError ''illegal route rule'')
      else let rule = ReplaceAll (ReplaceAll rule ''consumer.'' '''') ''provider.'' ''''
           in case Cut rule ''=>'' of (before, after, ok) \<Rightarrow>
              let whenRule = (if ok then Trim before CHR '' '' else '''');
                  thenRule = (if ok then Trim after CHR '' '' else Trim rule CHR '' '')
              in case parseWhen whenRule of
                   Inl e \<Rightarrow> Inl e
                 | Inr w \<Rightarrow> (case parseThen thenRule of Inl e \<Rightarrow> Inl e | Inr t \<Rightarrow> Inr (w, t)))"

text \<open>The URL the constructor is given carries the rule and nothing else.\<close>

definition NewConditionStateRouter :: "string \<Rightarrow> go_error + StateRouter" where
  "NewConditionStateRouter rule =
     (case generateMatcher rule of
        Inl e \<Rightarrow> Inl e
      | Inr (w, t) \<Rightarrow> Inr \<lparr>whenCondition = w, thenCondition = t\<rparr>)"

definition matchWhen :: "(go_any \<Rightarrow> string) \<Rightarrow> StateRouter \<Rightarrow> url \<Rightarrow> RPCInvocation \<Rightarrow> bool go" where
  "matchWhen fmt s u call =
     (if length (whenCondition s) = 0 then Inr True else doMatch fmt u None (Some call) (whenCondition s) True)"

definition matchThen :: "(go_any \<Rightarrow> string) \<Rightarrow> StateRouter \<Rightarrow> url \<Rightarrow> url \<Rightarrow> bool go" where
  "matchThen fmt s u param =
     (if length (thenCondition s) = 0 then Inr False else doMatch fmt u (Some param) None (thenCondition s) False)"

fun go_filter :: "('a \<Rightarrow> bool go) \<Rightarrow> 'a list \<Rightarrow> 'a list go" where
  "go_filter P [] = Inr []"
| "go_filter P (x # xs) =
     go_bind (P x) (\<lambda>ok. go_bind (go_filter P xs) (\<lambda>ys. Inr (if ok then x # ys else ys)))"

definition StateRouter_Route :: "(go_any \<Rightarrow> string) \<Rightarrow> StateRouter \<Rightarrow> invoker list \<Rightarrow> url \<Rightarrow> RPCInvocation \<Rightarrow> invoker list go" where
  "StateRouter_Route fmt s ivks u call =
     (if length ivks = 0 then Inr ivks
      else go_bind (matchWhen fmt s u call) (\<lambda>ok.
        if \<not> ok then Inr ivks
        else if length (thenCondition s) = 0 then Inr []
        else go_filter (\<lambda>ivk. matchThen fmt s (GetURL ivk) u) ivks))"

fun stateRouters_loop ::
  "(go_any \<Rightarrow> string) \<Rightarrow> StateRouter list \<Rightarrow> invoker list \<Rightarrow> url \<Rightarrow> RPCInvocation \<Rightarrow> invoker list go" where
  "stateRouters_loop fmt [] ivks u call = Inr ivks"
| "stateRouters_loop fmt (s # ss) ivks u call =
     go_bind (StateRouter_Route fmt s ivks u call) (\<lambda>ivks.
       if length ivks = 0 then Inr ivks else stateRouters_loop fmt ss ivks u call)"

definition stateRouters_route ::
  "(go_any \<Rightarrow> string) \<Rightarrow> StateRouter list \<Rightarrow> invoker list \<Rightarrow> url \<Rightarrow> RPCInvocation \<Rightarrow> invoker list go" where
  "stateRouters_route fmt p ivks u call =
     (if length ivks = 0 \<or> length p = 0 then Inr ivks else stateRouters_loop fmt p ivks u call)"

section \<open>Rules with weighted destinations\<close>

record FieldMatcher =
  fm_rule :: string
  fm_match :: conditions

definition NewFieldMatcher :: "string \<Rightarrow> go_error + FieldMatcher" where
  "NewFieldMatcher rule =
     (case parseRule rule of Inl e \<Rightarrow> Inl e | Inr m \<Rightarrow> Inr \<lparr>fm_rule = rule, fm_match = m\<rparr>)"

definition MatchRequest :: "(go_any \<Rightarrow> string) \<Rightarrow> FieldMatcher \<Rightarrow> url \<Rightarrow> RPCInvocation \<Rightarrow> bool go" where
  "MatchRequest fmt m u call = doMatch fmt u None (Some call) (fm_match m) True"

definition MatchInvoker :: "(go_any \<Rightarrow> string) \<Rightarrow> FieldMatcher \<Rightarrow> url \<Rightarrow> invoker \<Rightarrow> bool go" where
  "MatchInvoker fmt m u ivk = doMatch fmt (GetURL ivk) (Some u) None (fm_match m) False"

record condSet = FieldMatcher +
  subSetWeight :: int

abbreviation DefaultRouteConditionSubSetWeight :: int where "DefaultRouteConditionSubSetWeight \<equiv> 100"

definition newCondSet :: "string \<Rightarrow> int \<Rightarrow> go_error + condSet" where
  "newCondSet rule weight =
     (case NewFieldMatcher rule of
        Inl e \<Rightarrow> Inl e
      | Inr m \<Rightarrow> Inr \<lparr>fm_rule = fm_rule m, fm_match = fm_match m,
          subSetWeight = (if weight \<le> 0 then DefaultRouteConditionSubSetWeight else weight)\<rparr>)"

record destination =
  matchRule :: string
  dest_weight :: int
  dest_ivks :: "invoker list"

record destSets =
  destinations :: "destination list"
  weightSum :: int

definition newDestSets :: destSets where
  "newDestSets = \<lparr>destinations = [], weightSum = 0\<rparr>"

definition addDest :: "int \<Rightarrow> string \<Rightarrow> invoker list \<Rightarrow> destSets \<Rightarrow> destSets" where
  "addDest weight rule ivks s =
     \<lparr>destinations = destinations s @ [\<lparr>matchRule = rule, dest_weight = weight, dest_ivks = ivks\<rparr>],
      weightSum = wrap64 (weightSum s + weight)\<rparr>"

fun rand_pick :: "int \<Rightarrow> destination list \<Rightarrow> destination option" where
  "rand_pick x [] = None"
| "rand_pick x (d # ds) =
     (let x = wrap64 (x - dest_weight d) in if x \<le> 0 then Some d else rand_pick x ds)"

definition randDest :: "nat \<Rightarrow> destSets \<Rightarrow> destination option go" where
  "randDest r s =
     (if weightSum s = 0 then Inr None
      else if length (destinations s) = 1 then Inr (Some (destinations s ! 0))
      else go_bind (Intn r (weightSum s)) (\<lambda>x. Inr (rand_pick x (destinations s))))"

record MultiDestRouter =
  md_when :: FieldMatcher
  md_then :: "condSet list"

abbreviation condition_chain :: string where "condition_chain \<equiv> ''condition-chain''"

definition chain_of :: "RPCInvocation \<Rightarrow> string list" where
  "chain_of call = (case Inv_GetAttribute call condition_chain of Some (GStrs l) \<Rightarrow> l | _ \<Rightarrow> [])"

text \<open>Writing to the attributes of an invocation that has none panics.\<close>

definition set_chain :: "string list \<Rightarrow> RPCInvocation \<Rightarrow> RPCInvocation go" where
  "set_chain l call =
     (case inv_attributes call of
        None \<Rightarrow> Inl (Panicked ''assignment to entry in nil map'')
      | Some m \<Rightarrow> Inr (call\<lparr>inv_attributes := Some (map_put condition_chain (GStrs l) m)\<rparr>))"

fun join :: "string \<Rightarrow> string list \<Rightarrow> string" where
  "join sep [] = ''''"
| "join sep [x] = x"
| "join sep (x # y # xs) = x @ sep @ join sep (y # xs)"

fun collect_dests ::
  "(go_any \<Rightarrow> string) \<Rightarrow> condSet list \<Rightarrow> invoker list \<Rightarrow> url \<Rightarrow> destSets \<Rightarrow> destSets go" where
  "collect_dests fmt [] ivks u ds = Inr ds"
| "collect_dests fmt (c # cs) ivks u ds =
     go_bind (go_filter (MatchInvoker fmt (FieldMatcher.truncate c) u) ivks) (\<lambda>res.
       collect_dests fmt cs ivks u (if length res \<noteq> 0 then addDest (subSetWeight c) (fm_rule c) res ds else ds))"

definition MultiDest_Route ::
  "(go_any \<Rightarrow> string) \<Rightarrow> nat \<Rightarrow> MultiDestRouter \<Rightarrow> invoker list \<Rightarrow> url \<Rightarrow> RPCInvocation \<Rightarrow>
   (invoker list \<times> bool \<times> RPCInvocation) go" where
  "MultiDest_Route fmt r m ivks u call =
     (if length ivks = 0 then Inr (ivks, False, call)
      else go_bind (MatchRequest fmt (md_when m) u call) (\<lambda>ok.
        if \<not> ok then Inr (ivks, False, call)
        else if length (md_then m) = 0 then Inr ([], True, call)
        else go_bind (collect_dests fmt (md_then m) ivks u newDestSets) (\<lambda>dests.
          go_bind (randDest r dests) (\<lambda>d.
            let i = chain_of call
            in case d of
                 Some d \<Rightarrow>
                   go_bind (set_chain (i @ [''request='' @ fm_rule (md_when m) @ '',invokers='' @ matchRule d]) call)
                     (\<lambda>call. Inr (dest_ivks d, True, call))
               | None \<Rightarrow>
                   go_bind (set_chain (i @ [''request='' @ fm_rule (md_when m) @ '',invokers!='' @
                       join '','' (map fm_rule (md_then m))]) call)
                     (\<lambda>call. Inr ([], True, call))))))"

fun newCondSets :: "ConditionRuleTo list \<Rightarrow> go_error + condSet list" where
  "newCondSets [] = Inr []"
| "newCondSets (t # ts) =
     (case newCondSet (to_Match t) (to_Weight t) of
        Inl e \<Rightarrow> Inl e
      | Inr c \<Rightarrow> (case newCondSets ts of Inl e \<Rightarrow> Inl e | Inr cs \<Rightarrow> Inr (c # cs)))"

text \<open>\<^const>\<open>None\<close> is the nil router of a rule without any content.\<close>

definition NewConditionMultiDestRouter :: "ConditionRule \<Rightarrow> go_error + MultiDestRouter option" where
  "NewConditionMultiDestRouter condConf =
     (if length (rule_To condConf) = 0 \<and> from_Match condConf = '''' then Inr None
      else case NewFieldMatcher (from_Match condConf) of
             Inl e \<Rightarrow> Inl e
           | Inr w \<Rightarrow>
               (case newCondSets (rule_To condConf) of
                  Inl e \<Rightarrow> Inl e
                | Inr t \<Rightarrow> Inr (Some \<lparr>md_when = w, md_then = t\<rparr>)))"

record multiplyConditionRoute =
  trafficDisabled :: "FieldMatcher list"
  mc_routes :: "MultiDestRouter list"

abbreviation TrafficDisableKey :: string where "TrafficDisableKey \<equiv> ''trafficDisable''"

fun any_match :: "(go_any \<Rightarrow> string) \<Rightarrow> FieldMatcher list \<Rightarrow> url \<Rightarrow> RPCInvocation \<Rightarrow> bool go" where
  "any_match fmt [] u call = Inr False"
| "any_match fmt (m # ms) u call =
     go_bind (MatchRequest fmt m u call) (\<lambda>ok. if ok then Inr True else any_match fmt ms u call)"

text \<open>The loop over the rules; the flag says that it ended early with no invokers left.\<close>

fun multi_loop ::
  "(go_any \<Rightarrow> string) \<Rightarrow> (nat \<Rightarrow> nat) \<Rightarrow> nat \<Rightarrow> MultiDestRouter list \<Rightarrow> invoker list \<Rightarrow> url \<Rightarrow> RPCInvocation \<Rightarrow>
   (invoker list \<times> bool \<times> RPCInvocation) go" where
  "multi_loop fmt draws n [] ivks u call = Inr (ivks, False, call)"
| "multi_loop fmt draws n (m # ms) ivks u call =
     go_bind (MultiDest_Route fmt (draws n) m ivks u call) (\<lambda>(ivks, isMatchWhen, call).
       if isMatchWhen \<and> length ivks = 0 then Inr ([], True, call)
       else multi_loop fmt draws (Suc n) ms ivks u call)"

definition del_chain :: "RPCInvocation \<Rightarrow> RPCInvocation" where
  "del_chain call = call\<lparr>inv_attributes := map_option (map_del condition_chain) (inv_attributes call)\<rparr>"

definition multiply_route ::
  "(go_any \<Rightarrow> string) \<Rightarrow> (nat \<Rightarrow> nat) \<Rightarrow> multiplyConditionRoute \<Rightarrow> route" where
  "multiply_route fmt draws m ivks u call =
     go_bind (any_match fmt (trafficDisabled m) u call) (\<lambda>disabled.
       if disabled then Inr ([], SetAttachment call TrafficDisableKey (GOther 0))
       else if length ivks \<noteq> 0 \<and> length (mc_routes m) \<noteq> 0
       then go_bind (multi_loop fmt draws 0 (mc_routes m) ivks u call) (\<lambda>(ivks, stop, call).
              Inr (ivks, if stop then call else del_chain call))
       else Inr (ivks, call))"

section \<open>Rules from the configuration center\<close>

datatype condRouter = stateRouters "StateRouter list" | multiplyRoute multiplyConditionRoute

record DynamicRouter =
  d_force :: bool
  d_enable :: bool
  d_router :: "condRouter option"

definition condRouter_route :: "(go_any \<Rightarrow> string) \<Rightarrow> (nat \<Rightarrow> nat) \<Rightarrow> condRouter \<Rightarrow> route" where
  "condRouter_route fmt draws cr ivks u call =
     (case cr of
        stateRouters p \<Rightarrow> go_bind (stateRouters_route fmt p ivks u call) (\<lambda>ivks. Inr (ivks, call))
      | multiplyRoute m \<Rightarrow> multiply_route fmt draws m ivks u call)"

definition DynamicRouter_Route :: "(go_any \<Rightarrow> string) \<Rightarrow> (nat \<Rightarrow> nat) \<Rightarrow> DynamicRouter \<Rightarrow> route" where
  "DynamicRouter_Route fmt draws d ivks u call =
     (if length ivks = 0 then Inr (ivks, call)
      else if \<not> d_enable d then Inr (ivks, call)
      else case d_router d of
             None \<Rightarrow> Inr (ivks, call)
           | Some cr \<Rightarrow>
               go_bind (condRouter_route fmt draws cr ivks u call) (\<lambda>(res, call).
                 if length res = 0 \<and> GetAttachmentInterface call TrafficDisableKey = GNil \<and> \<not> d_force d
                 then Inr (ivks, call) else Inr (res, call)))"

text \<open>Rules given in code: those that do not parse are skipped.\<close>

definition DynamicRouter_SetStaticConfig :: "RouterConfig option \<Rightarrow> DynamicRouter \<Rightarrow> DynamicRouter" where
  "DynamicRouter_SetStaticConfig cfg d =
     (case cfg of
        None \<Rightarrow> d
      | Some cfg \<Rightarrow>
          if length (rc_Conditions cfg) = 0 then d
          else let force = (rc_Force cfg = Some True); enable = (rc_Enabled cfg \<noteq> Some False)
               in if \<not> enable then \<lparr>d_force = force, d_enable = False, d_router = None\<rparr>
                  else \<lparr>d_force = force, d_enable = enable,
                        d_router = Some (stateRouters (List.map_filter
                          (\<lambda>rule. case NewConditionStateRouter rule of Inl _ \<Rightarrow> None | Inr s \<Rightarrow> Some s)
                          (rc_Conditions cfg)))\<rparr>)"

fun removeDuplicates :: "ConditionRule option list \<Rightarrow> ConditionRule option list" where
  "removeDuplicates [] = []"
| "removeDuplicates (x # xs) =
     (case x of
        None \<Rightarrow> None # removeDuplicates xs
      | Some _ \<Rightarrow> x # removeDuplicates (map (\<lambda>y. if y \<noteq> None \<and> ConditionRule_Equal x y then None else y) xs))"

fun multi_routers :: "ConditionRule option list \<Rightarrow> go_error + MultiDestRouter list \<times> FieldMatcher list" where
  "multi_routers [] = Inr ([], [])"
| "multi_routers (None # cs) = multi_routers cs"
| "multi_routers (Some c # cs) =
     (case NewConditionMultiDestRouter c of
        Inl e \<Rightarrow> Inl e
      | Inr None \<Rightarrow> multi_routers cs
      | Inr (Some m) \<Rightarrow>
          (case multi_routers cs of
             Inl e \<Rightarrow> Inl e
           | Inr (ms, ds) \<Rightarrow> if length (md_then m) \<noteq> 0 then Inr (m # ms, ds) else Inr (ms, md_when m # ds)))"

text \<open>
  The results are the router, whether it is forced and whether it is enabled.  A disabled rule
  gives no router.
\<close>

definition generateMultiConditionRoute ::
  "yaml_decoder \<Rightarrow> string \<Rightarrow> (go_error + condRouter option \<times> bool \<times> bool) go" where
  "generateMultiConditionRoute yaml rawConfig =
     (case y_ConditionRouter yaml rawConfig of
        Inl e \<Rightarrow> Inr (Inl e)
      | Inr cfg \<Rightarrow>
          if \<not> cr_Enabled cfg then Inr (Inr (None, False, False))
          else case multi_routers (removeDuplicates (cr_Conditions cfg)) of
                 Inl e \<Rightarrow> Inr (Inl e)
               | Inr (ms, ds) \<Rightarrow>
                   Inr (Inr (Some (multiplyRoute \<lparr>trafficDisabled = ds, mc_routes = ms\<rparr>), cr_Force cfg, True)))"

fun state_routers :: "string list \<Rightarrow> go_error + StateRouter list" where
  "state_routers [] = Inr []"
| "state_routers (rule # rules) =
     (case NewConditionStateRouter rule of
        Inl e \<Rightarrow> Inl e
      | Inr s \<Rightarrow> (case state_routers rules of Inl e \<Rightarrow> Inl e | Inr ss \<Rightarrow> Inr (s # ss)))"

text \<open>The pointers to the force and enabled flags are dereferenced, set or not.\<close>

definition generateConditionsRoute ::
  "yaml_decoder \<Rightarrow> string \<Rightarrow> (go_error + condRouter option \<times> bool \<times> bool) go" where
  "generateConditionsRoute yaml rawConfig =
     (case y_RouterConfig yaml rawConfig of
        Inl e \<Rightarrow> Inr (Inl e)
      | Inr cfg \<Rightarrow>
          (case (rc_Force cfg, rc_Enabled cfg) of
             (Some force, Some enable) \<Rightarrow>
               if \<not> enable then Inr (Inr (None, False, False))
               else (case state_routers (rc_Conditions cfg) of
                       Inl e \<Rightarrow> Inr (Inl e)
                     | Inr ss \<Rightarrow> Inr (Inr (Some (stateRouters ss), force, enable)))
           | _ \<Rightarrow> Inl NilDereference))"

definition generateCondition ::
  "yaml_decoder \<Rightarrow> string \<Rightarrow> (go_error + condRouter option \<times> bool \<times> bool) go" where
  "generateCondition yaml rawConfig =
     (case y_configVersion yaml rawConfig of
        Inl e \<Rightarrow> Inr (Inl e)
      | Inr None \<Rightarrow> Inr (Inl (PlainError ''miss `ConfigVersion`''))
      | Inr (Some (GStr version)) \<Rightarrow>
          (case ParseVersion version of
             None \<Rightarrow> Inr (Inl (PlainError (''invalid version '' @ version)))
           | Some v \<Rightarrow>
               if version_Equal v V3_1 \<or> version_Greater v V3_1 then generateMultiConditionRoute yaml rawConfig
               else if version_Less v V3_1 then generateConditionsRoute yaml rawConfig
               else Inl (Panicked ''invalid version compare return''))
      | Inr (Some _) \<Rightarrow> Inr (Inl (PlainError ''`ConfigVersion` should be of type `string`'')))"

definition DynamicRouter_Process :: "yaml_decoder \<Rightarrow> ConfigChangeEvent \<Rightarrow> DynamicRouter \<Rightarrow> DynamicRouter go" where
  "DynamicRouter_Process yaml ev d =
     (if ev_ConfigType ev = EventTypeDel then Inr (d\<lparr>d_router := None\<rparr>)
      else case ev_Value ev of
             GStr raw \<Rightarrow>
               go_bind (generateCondition yaml raw) (\<lambda>res.
                 case res of
                   Inl _ \<Rightarrow> Inr (d\<lparr>d_router := None\<rparr>)
                 | Inr (rc, force, enable) \<Rightarrow> Inr \<lparr>d_force = force, d_enable = enable, d_router = rc\<rparr>)
           | _ \<Rightarrow> Inl (Panicked ''interface conversion''))"

definition NewServiceRouter :: DynamicRouter where
  "NewServiceRouter = \<lparr>d_force = False, d_enable = False, d_router = None\<rparr>"

definition ServiceRouter_SetStaticConfig :: "RouterConfig option \<Rightarrow> DynamicRouter \<Rightarrow> DynamicRouter" where
  "ServiceRouter_SetStaticConfig cfg s =
     (case cfg of
        None \<Rightarrow> s
      | Some c \<Rightarrow>
          if rc_Scope c \<noteq> ''service'' \<or> length (rc_Conditions c) = 0 then s
          else DynamicRouter_SetStaticConfig cfg s)"

text \<open>
  The rule of a service is looked up under the service's key, and its listener registered again
  with every notification.  \<open>self\<close> is the address of the router.
\<close>

abbreviation ConditionRouterRuleSuffix :: string where "ConditionRouterRuleSuffix \<equiv> ''.condition-router''"

definition ServiceRouter_Notify ::
  "yaml_decoder \<Rightarrow> nat \<Rightarrow> invoker list \<Rightarrow> DynamicRouter \<times> conf_center option \<Rightarrow>
   (DynamicRouter \<times> conf_center option) go" where
  "ServiceRouter_Notify yaml self ivks = (\<lambda>(s, cc).
     if length ivks = 0 then Inr (s, cc)
     else case cc of
            None \<Rightarrow> Inr (s, cc)
          | Some c \<Rightarrow>
              let key = ColonSeparatedKey (GetURL (ivks ! 0)) @ ConditionRouterRuleSuffix;
                  c = subscribe (AddListener key self) c
              in case cc_GetRule c key of
                   Inl _ \<Rightarrow> Inr (s, Some c)
                 | Inr value \<Rightarrow>
                     if value = '''' then Inr (s, Some c)
                     else go_bind (DynamicRouter_Process yaml
                         \<lparr>ev_Key = key, ev_Value = GStr value, ev_ConfigType = EventTypeAdd\<rparr> s)
                       (\<lambda>s. Inr (s, Some c)))"

record ApplicationRouter =
  app_router :: DynamicRouter
  app_application :: string
  app_currentApplication :: string

definition NewApplicationRouter ::
  "nat \<Rightarrow> url \<Rightarrow> conf_center option \<Rightarrow> ApplicationRouter \<times> conf_center option" where
  "NewApplicationRouter self u cc =
     (let name = GetParam u ApplicationKey '''';
          name = (if name = '''' then case SubURL u of Some sub \<Rightarrow> GetParam sub ApplicationKey '''' | None \<Rightarrow> name
                  else name)
      in (\<lparr>app_router = NewServiceRouter, app_application = '''', app_currentApplication = name\<rparr>,
          case cc of
            None \<Rightarrow> None
          | Some c \<Rightarrow> Some (if name \<noteq> '''' then subscribe (AddListener (name @ ConditionRouterRuleSuffix) self) c
                            else c)))"

definition ApplicationRouter_SetStaticConfig :: "RouterConfig option \<Rightarrow> ApplicationRouter \<Rightarrow> ApplicationRouter" where
  "ApplicationRouter_SetStaticConfig cfg a =
     (case cfg of
        None \<Rightarrow> a
      | Some c \<Rightarrow>
          if rc_Scope c \<noteq> ''application'' \<or> length (rc_Conditions c) = 0 then a
          else a\<lparr>app_router := DynamicRouter_SetStaticConfig cfg (app_router a)\<rparr>)"

text \<open>An application router listens to one provider application at a time, and not to its own.\<close>

definition ApplicationRouter_Notify ::
  "yaml_decoder \<Rightarrow> nat \<Rightarrow> invoker list \<Rightarrow> ApplicationRouter \<times> conf_center option \<Rightarrow>
   (ApplicationRouter \<times> conf_center option) go" where
  "ApplicationRouter_Notify yaml self ivks = (\<lambda>(a, cc).
     if length ivks = 0 then Inr (a, cc)
     else case cc of
            None \<Rightarrow> Inr (a, cc)
          | Some c \<Rightarrow>
              let provider = GetParam (GetURL (ivks ! 0)) ApplicationKey ''''
              in if provider = '''' \<or> provider = app_currentApplication a then Inr (a, cc)
                 else if provider = app_application a then Inr (a, cc)
                 else
                   let c = (if app_application a \<noteq> ''''
                            then subscribe (RemoveListener (app_application a @ ConditionRouterRuleSuffix) self) c
                            else c);
                       key = provider @ ConditionRouterRuleSuffix;
                       c = subscribe (AddListener key self) c;
                       a = a\<lparr>app_application := provider\<rparr>
                   in case cc_GetRule c key of
                        Inl _ \<Rightarrow> Inr (a, Some c)
                      | Inr value \<Rightarrow>
                          if value = '''' then Inr (a, Some c)
                          else go_bind (DynamicRouter_Process yaml
                              \<lparr>ev_Key = key, ev_Value = GStr value, ev_ConfigType = EventTypeUpdate\<rparr>
                              (app_router a))
                            (\<lambda>d. Inr (a\<lparr>app_router := d\<rparr>, Some c)))"

definition ServiceRouter_Priority :: int where "ServiceRouter_Priority = 140"
definition ApplicationRouter_Priority :: int where "ApplicationRouter_Priority = 145"

section \<open>Routing keeps to the given invokers\<close>

lemma go_filter_subset: "go_filter P xs = Inr ys \<Longrightarrow> set ys \<subseteq> set xs"
  by (induction xs arbitrary: ys) (fastforce elim!: go_bindE split: if_split_asm)+

lemma StateRouter_subset: "StateRouter_Route fmt s ivks u call = Inr res \<Longrightarrow> set res \<subseteq> set ivks"
  by (auto simp: StateRouter_Route_def elim!: go_bindE split: if_split_asm dest!: go_filter_subset)

lemma stateRouters_loop_subset: "stateRouters_loop fmt ss ivks u call = Inr res \<Longrightarrow> set res \<subseteq> set ivks"
proof (induction ss arbitrary: ivks)
  case (Cons s ss)
  then obtain mid where mid: "StateRouter_Route fmt s ivks u call = Inr mid"
    "(if length mid = 0 then Inr mid else stateRouters_loop fmt ss mid u call) = Inr res" by (auto elim!: go_bindE)
  have "set res \<subseteq> set mid" using Cons.IH [of mid] mid(2) by (auto split: if_split_asm)
  then show ?case using StateRouter_subset [OF mid(1)] by blast
qed simp

text \<open>Each destination holds some of the invokers, and its rule has a positive weight.\<close>

definition dests_in :: "invoker list \<Rightarrow> destSets \<Rightarrow> bool" where
  "dests_in ivks ds \<longleftrightarrow> (\<forall>d \<in> set (destinations ds). set (dest_ivks d) \<subseteq> set ivks)"

lemma addDest_in: "dests_in ivks ds \<Longrightarrow> set res \<subseteq> set ivks \<Longrightarrow> dests_in ivks (addDest w rule res ds)"
  by (auto simp: dests_in_def addDest_def)

lemma collect_dests_in:
  "collect_dests fmt cs ivks u ds = Inr ds' \<Longrightarrow> dests_in ivks ds \<Longrightarrow> dests_in ivks ds'"
proof (induction cs arbitrary: ds)
  case (Cons c cs)
  then obtain res where res: "go_filter (MatchInvoker fmt (FieldMatcher.truncate c) u) ivks = Inr res"
    "collect_dests fmt cs ivks u (if length res \<noteq> 0 then addDest (subSetWeight c) (fm_rule c) res ds else ds) = Inr ds'"
    by (auto elim!: go_bindE)
  show ?case
    by (rule Cons.IH [OF res(2)]) (simp add: Cons.prems addDest_in go_filter_subset [OF res(1)])
qed simp

lemma rand_pick_in: "rand_pick x ds = Some d \<Longrightarrow> d \<in> set ds"
  by (induction ds arbitrary: x) (auto simp: Let_def split: if_split_asm)

lemma randDest_in:
  assumes "randDest r s = Inr (Some d)"
  shows "d \<in> set (destinations s)"
  using assms rand_pick_in [of _ "destinations s" d]
  by (cases "destinations s") (auto simp: randDest_def elim!: go_bindE split: if_split_asm)

lemma MultiDest_subset:
  assumes "MultiDest_Route fmt r m ivks u call = Inr (res, matched, call')"
  shows "set res \<subseteq> set ivks"
proof -
  have "set (dest_ivks d) \<subseteq> set ivks"
    if "collect_dests fmt (md_then m) ivks u newDestSets = Inr ds" "randDest r ds = Inr (Some d)" for ds d
    using collect_dests_in [OF that(1)] randDest_in [OF that(2)] by (auto simp: dests_in_def newDestSets_def)
  with assms show ?thesis
    by (fastforce simp: MultiDest_Route_def Let_def elim!: go_bindE split: if_split_asm option.split_asm)
qed

lemma multi_loop_subset:
  "multi_loop fmt draws n ms ivks u call = Inr (res, stop, call') \<Longrightarrow> set res \<subseteq> set ivks"
proof (induction ms arbitrary: n ivks call)
  case (Cons m ms)
  then obtain mid matched c where mid: "MultiDest_Route fmt (draws n) m ivks u call = Inr (mid, matched, c)"
    "(if matched \<and> length mid = 0 then Inr ([], True, c) else multi_loop fmt draws (Suc n) ms mid u c) = Inr (res, stop, call')"
    by (auto elim!: go_bindE)
  have "set res \<subseteq> set mid" using mid(2) Cons.IH [of "Suc n" mid c] by (auto split: if_split_asm)
  then show ?case using MultiDest_subset [OF mid(1)] by blast
qed simp

lemma condRouter_subset:
  "condRouter_route fmt draws cr ivks u call = Inr (res, call') \<Longrightarrow> set res \<subseteq> set ivks"
  by (cases cr)
    (auto simp: condRouter_route_def stateRouters_route_def multiply_route_def elim!: go_bindE split: if_split_asm
      dest!: stateRouters_loop_subset multi_loop_subset)

lemma DynamicRouter_subset:
  "DynamicRouter_Route fmt draws d ivks u call = Inr (res, call') \<Longrightarrow> set res \<subseteq> set ivks"
  by (auto simp: DynamicRouter_Route_def elim!: go_bindE split: if_split_asm option.split_asm dest!: condRouter_subset)

interpretation condition_router:
  priority_router "\<lambda>(fmt, draws, d). DynamicRouter_Route fmt draws d" "\<lambda>_ _ _. True"
  by unfold_locales (auto dest: DynamicRouter_subset)

text \<open>
  C23.  A condition rule that is not forced never leaves a call without providers: the router
  returns some of the invokers it was given, and not none of them unless a rule that disables the
  traffic matched and marked the invocation.
\<close>

theorem DynamicRouter_keeps_providers:
  assumes "DynamicRouter_Route fmt draws d ivks u call = Inr (res, call')" "ivks \<noteq> []" "\<not> d_force d"
  shows "set res \<subseteq> set ivks \<and> (res \<noteq> [] \<or> GetAttachmentInterface call' TrafficDisableKey \<noteq> GNil)"
  using assms condition_router.route_subset [of "(fmt, draws, d)" ivks u call res call']
  by (auto simp: DynamicRouter_Route_def elim!: go_bindE split: if_split_asm option.split_asm)

definition sample_rule_router :: DynamicRouter where
  "sample_rule_router = DynamicRouter_SetStaticConfig
     (Some (NewOptions [WithConditions [''method=Greet => port=1'']])) NewServiceRouter"

definition sample_route :: "invoker list \<Rightarrow> (invoker list \<times> RPCInvocation) go" where
  "sample_route ivks = DynamicRouter_Route (\<lambda>_. '''') (\<lambda>_. 0) sample_rule_router ivks sample_consumer
     (NewRPCInvocation ''Greet'' (Some []) None)"

theorem DynamicRouter_keeps_providers_witness:
  "\<exists>res call. sample_route [\<lparr>ivk_id = 1, GetURL = sample_provider\<rparr>] = Inr (res, call) \<and> res \<noteq> []"
proof -
  let ?call = "NewRPCInvocation ''Greet'' (Some []) None"
  let ?ivk = "\<lparr>ivk_id = 1, GetURL = sample_provider\<rparr>"
  have r: "sample_route [?ivk] = Inr ([?ivk], ?call)" "\<not> d_force sample_rule_router" by code_simp+
  have "GetAttachmentInterface ?call TrafficDisableKey = GNil"
    by (simp add: GetAttachmentInterface_def NewRPCInvocation_def)
  with DynamicRouter_keeps_providers [OF r(1) [unfolded sample_route_def] _ r(2)] r(1) show ?thesis by auto
qed

section \<open>The weighted draw of a destination\<close>

abbreviation weight_before :: "destination list \<Rightarrow> nat \<Rightarrow> int" where
  "weight_before ds i \<equiv> sum_list (map dest_weight (take i ds))"

definition dests_ok :: "destSets \<Rightarrow> bool" where
  "dests_ok s \<longleftrightarrow> distinct (destinations s) \<and> (\<forall>d \<in> set (destinations s). 0 < dest_weight d) \<and>
     weightSum s = sum_list (map dest_weight (destinations s)) \<and> weightSum s < 2 ^ 63"

lemma weight_before_nonneg: "\<forall>d \<in> set ds. 0 < dest_weight d \<Longrightarrow> 0 \<le> weight_before ds i"
  by (rule sum_list_nonneg) (auto dest!: in_set_takeD intro: less_imp_le)

lemma weight_before_Suc:
  "i < length ds \<Longrightarrow> weight_before ds (Suc i) = weight_before ds i + dest_weight (ds ! i)"
  by (simp add: take_Suc_conv_app_nth)

lemma rand_pick_nth:
  "\<lbrakk>distinct ds; \<forall>d \<in> set ds. 0 < dest_weight d \<and> dest_weight d < 2 ^ 63; 0 \<le> x; x < 2 ^ 63; i < length ds\<rbrakk>
   \<Longrightarrow> rand_pick x ds = Some (ds ! i) \<longleftrightarrow> (i = 0 \<or> weight_before ds i < x) \<and> x \<le> weight_before ds (Suc i)"
proof (induction ds arbitrary: x i)
  case (Cons d ds)
  have w: "wrap64 (x - dest_weight d) = x - dest_weight d" using Cons.prems by (simp add: in_int64_def)
  have nonneg: "0 \<le> weight_before ds j" for j using Cons.prems(2) by (intro weight_before_nonneg) simp
  show ?case
  proof (cases i)
    case 0
    then show ?thesis using Cons.prems(1) w rand_pick_in [of "x - dest_weight d" ds d] by (auto simp: Let_def)
  next
    case (Suc j)
    have "ds ! j \<noteq> d" using Cons.prems(1,5) Suc by auto
    moreover have "rand_pick (x - dest_weight d) ds = Some (ds ! j) \<longleftrightarrow>
      (j = 0 \<or> weight_before ds j < x - dest_weight d) \<and> x - dest_weight d \<le> weight_before ds (Suc j)"
      if "dest_weight d < x" using Cons.prems Suc that by (intro Cons.IH) auto
    ultimately show ?thesis using w nonneg [of j] nonneg [of "Suc j"] Suc by (auto simp: Let_def)
  qed
qed simp

lemma dests_okD:
  assumes "dests_ok s"
  shows "distinct (destinations s)" "\<And>d. d \<in> set (destinations s) \<Longrightarrow> 0 < dest_weight d"
    "\<And>d. d \<in> set (destinations s) \<Longrightarrow> dest_weight d < 2 ^ 63"
    "\<And>j. weightSum s = weight_before (destinations s) j + sum_list (map dest_weight (drop j (destinations s)))"
    "\<And>j. 0 \<le> sum_list (map dest_weight (drop j (destinations s)))" "weightSum s < 2 ^ 63"
proof -
  note ok = assms [unfolded dests_ok_def]
  show "distinct (destinations s)" "weightSum s < 2 ^ 63" using ok by blast+
  show pos: "0 < dest_weight d" if "d \<in> set (destinations s)" for d using ok that by blast
  show "weightSum s = weight_before (destinations s) j + sum_list (map dest_weight (drop j (destinations s)))" for j
    using ok by (metis append_take_drop_id map_append sum_list_append)
  show "0 \<le> sum_list (map dest_weight (drop j (destinations s)))" for j
    by (rule sum_list_nonneg) (auto dest!: in_set_dropD pos)
  show "dest_weight d < 2 ^ 63" if "d \<in> set (destinations s)" for d
  proof -
    have "dest_weight d \<le> sum_list (map dest_weight (destinations s))"
      by (rule member_le_sum_list) (use that pos in \<open>auto intro: less_imp_le\<close>)
    with ok show ?thesis by simp
  qed
qed

lemma weight_before_less:
  assumes "dests_ok s" "Suc i < length (destinations s)"
  shows "weight_before (destinations s) (Suc i) < weightSum s"
proof -
  have "drop (Suc i) (destinations s) = destinations s ! Suc i # drop (Suc (Suc i)) (destinations s)"
    using assms(2) by (rule Cons_nth_drop_Suc [symmetric])
  then show ?thesis
    using dests_okD(2) [OF assms(1) nth_mem [OF assms(2)]] dests_okD(4) [OF assms(1), of "Suc i"]
      dests_okD(5) [OF assms(1), of "Suc (Suc i)"] by simp
qed

lemma randDest_nth:
  assumes "dests_ok s" "1 < length (destinations s)" "i < length (destinations s)" "int r < weightSum s"
  shows "randDest r s = Inr (Some (destinations s ! i)) \<longleftrightarrow>
    (i = 0 \<or> weight_before (destinations s) i < int r) \<and> int r \<le> weight_before (destinations s) (Suc i)"
proof -
  have "randDest r s = Inr (rand_pick (int r) (destinations s))" using assms by (simp add: randDest_def)
  moreover have "rand_pick (int r) (destinations s) = Some (destinations s ! i) \<longleftrightarrow>
    (i = 0 \<or> weight_before (destinations s) i < int r) \<and> int r \<le> weight_before (destinations s) (Suc i)"
    using dests_okD [OF assms(1)] assms(3,4) by (intro rand_pick_nth) auto
  ultimately show ?thesis by simp
qed

text \<open>
  C27.  The draw of a destination among several is off by one against the weights: of the
  \<open>weightSum\<close> equally likely draws the first destination gets one more than its weight and the
  last one less, so two destinations of weight 1 never split the traffic.
\<close>

theorem randDest_shares:
  assumes "dests_ok s" "1 < length (destinations s)" "i < length (destinations s)"
  shows "int (card {r. r < nat (weightSum s) \<and> randDest r s = Inr (Some (destinations s ! i))}) =
    dest_weight (destinations s ! i) + (if i = 0 then 1 else 0) -
    (if Suc i = length (destinations s) then 1 else 0)"
proof -
  let ?ds = "destinations s" and ?S = "{r. r < nat (weightSum s) \<and> randDest r s = Inr (Some (destinations s ! i))}"
  define before where "before = weight_before ?ds i"
  define w where "w = dest_weight (?ds ! i)"
  define lo where "lo = (if i = 0 then 0 else before + 1)"
  define up where "up = (if Suc i = length ?ds then before + w else before + w + 1)"
  have step: "weight_before ?ds (Suc i) = before + w"
    unfolding before_def w_def by (rule weight_before_Suc [OF assms(3)])
  have lo: "0 \<le> before" unfolding before_def using dests_okD(2) [OF assms(1)] by (intro weight_before_nonneg) blast
  have pos: "0 < w" unfolding w_def using dests_okD(2) [OF assms(1) nth_mem [OF assms(3)]] .
  have tot: "weightSum s = before + w" if "Suc i = length ?ds"
    using dests_okD(4) [OF assms(1), of "Suc i"] step that by simp
  have less: "before + w < weightSum s" if "Suc i \<noteq> length ?ds"
    using weight_before_less [OF assms(1), of i] assms(3) that unfolding step by linarith
  have iff: "r \<in> ?S \<longleftrightarrow> lo \<le> int r \<and> int r < up" for r
  proof -
    have "r \<in> ?S \<longleftrightarrow> int r < weightSum s \<and> (i = 0 \<or> before < int r) \<and> int r \<le> before + w"
      using randDest_nth [OF assms(1-3), of r] unfolding step before_def [symmetric]
      by (auto simp: zless_nat_eq_int_zless)
    also have "\<dots> \<longleftrightarrow> lo \<le> int r \<and> int r < up"
      unfolding lo_def up_def using tot less lo by (cases "Suc i = length ?ds") auto
    finally show ?thesis .
  qed
  have "?S = {nat lo..<nat up}"
    by (rule set_eqI, subst iff) (simp add: nat_le_iff zless_nat_eq_int_zless)
  moreover have "int (nat up - nat lo) = up - lo" using lo pos unfolding lo_def up_def by auto
  moreover have "before = 0" if "i = 0" using that by (simp add: before_def)
  ultimately show ?thesis using assms(2) by (simp add: lo_def up_def w_def)
qed

definition sample_dests :: destSets where
  "sample_dests = addDest 1 ''b'' [] (addDest 1 ''a'' [] newDestSets)"

theorem randDest_shares_witness:
  "card {r. r < nat (weightSum sample_dests) \<and> randDest r sample_dests = Inr (Some (destinations sample_dests ! 1))} = 0"
proof -
  have "dests_ok sample_dests" by code_simp
  from randDest_shares [OF this, of 1] show ?thesis by (simp add: sample_dests_def addDest_def newDestSets_def)
qed

end
