(* ===== verification/Tag_Router.thy ===== *)
theory Tag_Router
  imports Router_Config
begin

text \<open>
  The tag router (\<^verbatim>\<open>cluster/router/tag\<close>): it keeps the providers that carry the tag of a call, by
  their own tag or by the addresses and parameters that a rule gives the tag.  The router computes
  its answer over the list of invokers, or from an index of bitmaps that the chain keeps for its
  current invokers (\<^verbatim>\<open>tag/cache.go\<close>); the two agree.
\<close>

section \<open>Bitmaps\<close>

text \<open>
  The operations of \<^verbatim>\<open>roaring.Bitmap\<close> that the code calls, on an unknown representation, and what
  its documentation says of them in terms of the numbers a bitmap holds: the iterator returns
  them in increasing order.
\<close>

record 'b roaring =
  NewBitmap :: 'b
  bm_Add :: "32 word \<Rightarrow> 'b \<Rightarrow> 'b"
  bm_Or :: "'b \<Rightarrow> 'b \<Rightarrow> 'b"
  bm_AndNot :: "'b \<Rightarrow> 'b \<Rightarrow> 'b"
  bm_IsEmpty :: "'b \<Rightarrow> bool"
  bm_Iterator :: "'b \<Rightarrow> 32 word list"

definition roaring_ok :: "'b roaring \<Rightarrow> ('b \<Rightarrow> 32 word set) \<Rightarrow> bool" where
  "roaring_ok R bits \<longleftrightarrow>
     bits (NewBitmap R) = {} \<and> (\<forall>i b. bits (bm_Add R i b) = insert i (bits b)) \<and>
     (\<forall>a b. bits (bm_Or R a b) = bits a \<union> bits b) \<and> (\<forall>a b. bits (bm_AndNot R a b) = bits a - bits b) \<and>
     (\<forall>b. bm_IsEmpty R b \<longleftrightarrow> bits b = {}) \<and>
     (\<forall>b. set (bm_Iterator R b) = bits b \<and> sorted_wrt (<) (bm_Iterator R b))"

section \<open>Matching over the list of invokers\<close>

abbreviation Tagkey :: string where "Tagkey \<equiv> ''dubbo.tag''"
abbreviation ForceUseTag :: string where "ForceUseTag \<equiv> ''dubbo.force.tag''"
abbreviation TagRouterRuleSuffix :: string where "TagRouterRuleSuffix \<equiv> ''.tag-router''"
abbreviation AnyHost :: string where "AnyHost \<equiv> ''0.0.0.0''"

abbreviation tag_of :: "invoker \<Rightarrow> string" where "tag_of ivk \<equiv> GetParam (GetURL ivk) Tagkey ''''"

text \<open>
  The loop that removes the invokers on which the predicate holds.  A predicate may panic.
\<close>

function filter_loop :: "(invoker \<Rightarrow> bool go) \<Rightarrow> nat \<Rightarrow> invoker list \<Rightarrow> invoker list go" where
  "filter_loop predicate i result =
     (if i < length result
      then go_bind (predicate (result ! i)) (\<lambda>drops.
        if drops then filter_loop predicate i (take i result @ drop (Suc i) result)
        else filter_loop predicate (Suc i) result)
      else Inr result)"
  by pat_completeness auto

termination by (relation "measure (\<lambda>(_, i, result). length result - i)") auto

declare filter_loop.simps [simp del]

definition filterInvokers :: "invoker list \<Rightarrow> (invoker \<Rightarrow> bool go) \<Rightarrow> invoker list go" where
  "filterInvokers ivks predicate = filter_loop predicate 0 ivks"

definition requestIsForce :: "url \<Rightarrow> RPCInvocation \<Rightarrow> bool" where
  "requestIsForce u call =
     (case ParseBool (GetAttachmentWithDefaultValue call ForceUseTag (GetParam u ForceUseTag ''false'')) of
        Some ok \<Rightarrow> ok
      | None \<Rightarrow> False)"

definition getAddressPredicate :: "bool \<Rightarrow> string list \<Rightarrow> invoker \<Rightarrow> bool go" where
  "getAddressPredicate result address ivk =
     Inr (if list_ex (\<lambda>v. v = Location (GetURL ivk) \<or> v = AnyHost @ '':'' @ Port (GetURL ivk)) address
          then result else \<not> result)"

definition staticTag :: "invoker list \<Rightarrow> url \<Rightarrow> RPCInvocation \<Rightarrow> invoker list go" where
  "staticTag ivks u call =
     (let tag = (case GetAttachment call Tagkey of Some tag \<Rightarrow> tag | None \<Rightarrow> GetParam u Tagkey '''')
      in go_bind (if tag \<noteq> '''' then filterInvokers ivks (\<lambda>ivk. Inr (tag_of ivk \<noteq> tag)) else Inr []) (\<lambda>result.
        if (length result = 0 \<and> \<not> requestIsForce u call) \<or> tag = ''''
        then filterInvokers ivks (\<lambda>ivk. Inr (tag_of ivk \<noteq> '''')) else Inr result))"

fun drop_addresses :: "Tag list \<Rightarrow> invoker list \<Rightarrow> invoker list go" where
  "drop_addresses [] result = Inr result"
| "drop_addresses (tagCfg # tags) result =
     (if length (tag_Addresses tagCfg) = 0 then drop_addresses tags result
      else go_bind (filterInvokers result (getAddressPredicate True (tag_Addresses tagCfg))) (drop_addresses tags))"

definition requestEmptyTag :: "invoker list \<Rightarrow> RouterConfig \<Rightarrow> invoker list go" where
  "requestEmptyTag ivks cfg =
     go_bind (filterInvokers ivks (\<lambda>ivk. Inr (tag_of ivk \<noteq> ''''))) (\<lambda>result.
       if length result = 0 then Inr result else drop_addresses (rc_Tags cfg) result)"

text \<open>The addresses and the matches of the last tag with the name.\<close>

definition find_tag :: "string \<Rightarrow> Tag list \<Rightarrow> string list \<times> ParamMatch option list" where
  "find_tag tag tags =
     fold (\<lambda>tagCfg acc. if tag_Name tagCfg = tag then (tag_Addresses tagCfg, tag_Match tagCfg) else acc) tags ([], [])"

text \<open>An invoker is dropped at the first match that it fails; a nil match panics.\<close>

fun match_predicate :: "(string \<Rightarrow> string \<Rightarrow> bool) \<Rightarrow> ParamMatch option list \<Rightarrow> invoker \<Rightarrow> bool go" where
  "match_predicate regex [] ivk = Inr False"
| "match_predicate regex (None # ms) ivk = Inl NilDereference"
| "match_predicate regex (Some m # ms) ivk =
     (if \<not> ParamMatch_IsMatch regex m (GetURL ivk) then Inr True else match_predicate regex ms ivk)"

definition requestTag ::
  "(string \<Rightarrow> string \<Rightarrow> bool) \<Rightarrow> invoker list \<Rightarrow> url \<Rightarrow> RPCInvocation \<Rightarrow> RouterConfig \<Rightarrow> string \<Rightarrow> invoker list go" where
  "requestTag regex ivks u call cfg tag =
     (let (addresses, match) = find_tag tag (rc_Tags cfg)
      in go_bind (if length match \<noteq> 0 then filterInvokers ivks (match_predicate regex match)
                  else if length addresses = 0 then filterInvokers ivks (\<lambda>ivk. Inr (tag_of ivk \<noteq> tag))
                  else filterInvokers ivks (getAddressPredicate False addresses)) (\<lambda>result.
        if rc_Force cfg = Some True \<or> requestIsForce u call then Inr result
        else if length result \<noteq> 0 then Inr result
        else go_bind (filterInvokers ivks (\<lambda>ivk. Inr (tag_of ivk \<noteq> ''''))) (\<lambda>result.
          if length addresses = 0 then Inr result
          else filterInvokers result (getAddressPredicate True addresses))))"

definition dynamicTag ::
  "(string \<Rightarrow> string \<Rightarrow> bool) \<Rightarrow> invoker list \<Rightarrow> url \<Rightarrow> RPCInvocation \<Rightarrow> RouterConfig \<Rightarrow> invoker list go" where
  "dynamicTag regex ivks u call cfg =
     (let tag = GetAttachmentWithDefaultValue call Tagkey (GetParam u Tagkey '''')
      in if tag = '''' then requestEmptyTag ivks cfg else requestTag regex ivks u call cfg tag)"

section \<open>The index of bitmaps\<close>

abbreviation PoolKeyAll :: string where "PoolKeyAll \<equiv> ''*''"
abbreviation PoolKeyTagPrefix :: string where "PoolKeyTagPrefix \<equiv> ''tag'' @ [CHR 0x00]"
abbreviation PoolKeyAddrPrefix :: string where "PoolKeyAddrPrefix \<equiv> ''addr'' @ [CHR 0x00]"
abbreviation PoolKeyPortPrefix :: string where "PoolKeyPortPrefix \<equiv> ''port'' @ [CHR 0x00]"

type_synonym 'b AddrPool = "(string \<times> 'b) list"

definition upsertBM :: "'b roaring \<Rightarrow> string \<Rightarrow> nat \<Rightarrow> 'b AddrPool \<Rightarrow> 'b AddrPool" where
  "upsertBM R key idx pool =
     map_put key (bm_Add R (of_nat idx) (case map_of pool key of None \<Rightarrow> NewBitmap R | Some bm \<Rightarrow> bm)) pool"

definition pool_invoker :: "'b roaring \<Rightarrow> nat \<Rightarrow> url \<Rightarrow> 'b AddrPool \<Rightarrow> 'b AddrPool" where
  "pool_invoker R i u pool =
     (let pool = upsertBM R PoolKeyAll i pool;
          pool = upsertBM R (PoolKeyTagPrefix @ GetParam u Tagkey '''') i pool;
          addr = Location u
      in if addr \<noteq> ''''
         then let pool = upsertBM R (PoolKeyAddrPrefix @ addr) i pool
              in case LastIndex addr '':'' of
                   Some idx \<Rightarrow> if idx > 0 then upsertBM R (PoolKeyPortPrefix @ drop (idx + 1) addr) i pool else pool
                 | None \<Rightarrow> pool
         else pool)"

definition Pool :: "'b roaring \<Rightarrow> invoker list \<Rightarrow> 'b AddrPool" where
  "Pool R ivks = fold (\<lambda>(i, ivk). pool_invoker R i (GetURL ivk)) (List.enumerate 0 ivks) []"

definition collectInvokers :: "'b roaring \<Rightarrow> invoker list \<Rightarrow> 'b option \<Rightarrow> invoker list" where
  "collectInvokers R ivks bm =
     (case bm of
        None \<Rightarrow> []
      | Some b \<Rightarrow>
          if bm_IsEmpty R b then []
          else map (\<lambda>idx. ivks ! unat idx) (filter (\<lambda>idx. unat idx < length ivks) (bm_Iterator R b)))"

definition address_bitmap :: "'b roaring \<Rightarrow> 'b AddrPool \<Rightarrow> string \<Rightarrow> 'b \<Rightarrow> 'b" where
  "address_bitmap R pool addr bm =
     (let bm = (case map_of pool (PoolKeyAddrPrefix @ addr) of Some ab \<Rightarrow> bm_Or R bm ab | None \<Rightarrow> bm)
      in case LastIndex addr '':'' of
           Some idx \<Rightarrow>
             if idx > 0 \<and> take idx addr = AnyHost
             then (case map_of pool (PoolKeyPortPrefix @ drop (idx + 1) addr) of
                     Some pb \<Rightarrow> bm_Or R bm pb
                   | None \<Rightarrow> bm)
             else bm
         | None \<Rightarrow> bm)"

definition addressesBM :: "'b roaring \<Rightarrow> 'b AddrPool \<Rightarrow> string list \<Rightarrow> 'b" where
  "addressesBM R pool addrs = fold (address_bitmap R pool) addrs (NewBitmap R)"

definition staticTagMatchBM :: "'b roaring \<Rightarrow> 'b AddrPool \<Rightarrow> string \<Rightarrow> url \<Rightarrow> RPCInvocation \<Rightarrow> 'b option" where
  "staticTagMatchBM R pool tag u call =
     (case (if tag \<noteq> '''' then map_of pool (PoolKeyTagPrefix @ tag) else None) of
        Some bm \<Rightarrow>
          if \<not> bm_IsEmpty R bm then Some bm
          else if requestIsForce u call then None else map_of pool PoolKeyTagPrefix
      | None \<Rightarrow> if tag \<noteq> '''' \<and> requestIsForce u call then None else map_of pool PoolKeyTagPrefix)"

text \<open>The addresses and the matches of the first tag with the name.\<close>

definition find_tag_BM :: "string \<Rightarrow> Tag list \<Rightarrow> string list \<times> ParamMatch option list" where
  "find_tag_BM tag tags =
     (case find (\<lambda>tagCfg. tag_Name tagCfg = tag) tags of
        Some tagCfg \<Rightarrow> (tag_Addresses tagCfg, tag_Match tagCfg)
      | None \<Rightarrow> ([], []))"

definition requestTagMatchBM ::
  "'b roaring \<Rightarrow> 'b AddrPool \<Rightarrow> url \<Rightarrow> RPCInvocation \<Rightarrow> RouterConfig \<Rightarrow> string \<Rightarrow> 'b option" where
  "requestTagMatchBM R pool u call cfg tag =
     (let (addresses, match) = find_tag_BM tag (rc_Tags cfg)
      in if length match \<noteq> 0 then None
         else
           let resultBM = (if length addresses \<noteq> 0 then Some (addressesBM R pool addresses)
                           else map_of pool (PoolKeyTagPrefix @ tag))
           in if rc_Force cfg = Some True \<or> requestIsForce u call then resultBM
              else if (case resultBM of Some bm \<Rightarrow> \<not> bm_IsEmpty R bm | None \<Rightarrow> False) then resultBM
              else case map_of pool PoolKeyTagPrefix of
                     None \<Rightarrow> None
                   | Some emptyBM \<Rightarrow>
                       if length addresses = 0 then Some emptyBM
                       else Some (bm_AndNot R emptyBM (addressesBM R pool addresses)))"

fun drop_addresses_BM :: "'b roaring \<Rightarrow> 'b AddrPool \<Rightarrow> Tag list \<Rightarrow> 'b \<Rightarrow> 'b" where
  "drop_addresses_BM R pool [] bm = bm"
| "drop_addresses_BM R pool (tagCfg # tags) bm =
     (if length (tag_Addresses tagCfg) = 0 then drop_addresses_BM R pool tags bm
      else let addrBM = addressesBM R pool (tag_Addresses tagCfg)
           in drop_addresses_BM R pool tags (if \<not> bm_IsEmpty R addrBM then bm_AndNot R bm addrBM else bm))"

definition emptyTagMatchBM :: "'b roaring \<Rightarrow> 'b AddrPool \<Rightarrow> RouterConfig \<Rightarrow> 'b option" where
  "emptyTagMatchBM R pool cfg =
     (case map_of pool PoolKeyTagPrefix of
        None \<Rightarrow> None
      | Some bm \<Rightarrow> Some (if bm_IsEmpty R bm then bm else drop_addresses_BM R pool (rc_Tags cfg) bm))"

section \<open>The router\<close>

type_synonym tag_rules = "(string \<times> RouterConfig) list"

definition rule_in_force :: "RouterConfig \<Rightarrow> bool" where
  "rule_in_force cfg \<longleftrightarrow> rc_Enabled cfg \<noteq> Some False \<and>
     (rc_Valid cfg = Some True \<or> rc_Valid cfg = None \<and> length (rc_Tags cfg) > 0)"

definition rule_key :: "invoker list \<Rightarrow> string" where
  "rule_key ivks = GetParam (GetURL (ivks ! 0)) ApplicationKey '''' @ TagRouterRuleSuffix"

definition routeWithPool ::
  "(string \<Rightarrow> string \<Rightarrow> bool) \<Rightarrow> 'b roaring \<Rightarrow> tag_rules \<Rightarrow> invoker list \<Rightarrow> 'b AddrPool \<Rightarrow> url \<Rightarrow> RPCInvocation \<Rightarrow>
   invoker list go" where
  "routeWithPool regex R rules ivks pool u call =
     (if length ivks = 0 then Inr ivks
      else
        let tag = GetAttachmentWithDefaultValue call Tagkey (GetParam u Tagkey '''')
        in case map_of rules (rule_key ivks) of
             None \<Rightarrow> Inr (collectInvokers R ivks (staticTagMatchBM R pool tag u call))
           | Some cfg \<Rightarrow>
               if \<not> rule_in_force cfg then Inr (collectInvokers R ivks (staticTagMatchBM R pool tag u call))
               else if tag = '''' then Inr (collectInvokers R ivks (emptyTagMatchBM R pool cfg))
               else case requestTagMatchBM R pool u call cfg tag of
                      None \<Rightarrow> requestTag regex ivks u call cfg tag
                    | Some bm \<Rightarrow> Inr (collectInvokers R ivks (Some bm)))"

definition tag_match ::
  "(string \<Rightarrow> string \<Rightarrow> bool) \<Rightarrow> tag_rules \<Rightarrow> invoker list \<Rightarrow> url \<Rightarrow> RPCInvocation \<Rightarrow> invoker list go" where
  "tag_match regex rules ivks u call =
     (case map_of rules (rule_key ivks) of
        None \<Rightarrow> staticTag ivks u call
      | Some cfg \<Rightarrow>
          if \<not> rule_in_force cfg then staticTag ivks u call else dynamicTag regex ivks u call cfg)"

text \<open>
  The cache of the chain as the router finds it: the generation of the snapshot of invokers it was
  built from, the snapshot, and the pools by the names of the routers.
\<close>

record 'b routerCache =
  rcache_generation :: "64 word"
  rcache_invokers :: "invoker list"
  rcache_pools :: "(string \<times> 'b AddrPool) list"

abbreviation RouterCacheDisable :: string where "RouterCacheDisable \<equiv> ''routerCacheDisable''"
abbreviation RouterChainCacheGeneration :: string where
  "RouterChainCacheGeneration \<equiv> ''routerChainCacheGeneration''"

definition FindAddrPool :: "'b routerCache \<Rightarrow> string \<Rightarrow> ('b AddrPool \<times> invoker list) option \<times> 64 word" where
  "FindAddrPool c name =
     (case map_of (rcache_pools c) name of
        None \<Rightarrow> (None, rcache_generation c)
      | Some pool \<Rightarrow> (Some (pool, rcache_invokers c), rcache_generation c))"

definition as_bool :: "go_any \<Rightarrow> bool go" where
  "as_bool v = (case v of GBool b \<Rightarrow> Inr b | _ \<Rightarrow> Inl (Panicked ''interface conversion''))"

definition as_uint64 :: "go_any \<Rightarrow> 64 word go" where
  "as_uint64 v = (case v of GUint64 n \<Rightarrow> Inr n | _ \<Rightarrow> Inl (Panicked ''interface conversion''))"

text \<open>The pool to route with, if the cache may be used for the call.\<close>

definition usable_pool :: "'b routerCache option \<Rightarrow> RPCInvocation \<Rightarrow> ('b AddrPool \<times> invoker list) option go" where
  "usable_pool cache call =
     (case cache of
        None \<Rightarrow> Inr None
      | Some c \<Rightarrow>
          go_bind (as_bool (Inv_GetAttributeWithDefaultValue call RouterCacheDisable (GBool False))) (\<lambda>disabled.
            if disabled then Inr None
            else go_bind (as_uint64 (Inv_GetAttributeWithDefaultValue call RouterChainCacheGeneration (GUint64 0)))
              (\<lambda>snapshotGen.
                let (found, cacheGen) = FindAddrPool c ''tag'' in
                Inr (if cacheGen = snapshotGen then found else None))))"

definition Tag_Route ::
  "(string \<Rightarrow> string \<Rightarrow> bool) \<Rightarrow> 'b roaring \<Rightarrow> 'b routerCache option \<Rightarrow> tag_rules \<Rightarrow> route" where
  "Tag_Route regex R cache rules ivks u call =
     (if length ivks = 0 then Inr (ivks, call)
      else go_bind (usable_pool cache call) (\<lambda>found.
        go_bind (case found of
                   Some (pool, fullInvokers) \<Rightarrow> routeWithPool regex R rules fullInvokers pool u call
                 | None \<Rightarrow> tag_match regex rules ivks u call) (\<lambda>res. Inr (res, call))))"

definition Tag_Priority :: int where "Tag_Priority = 0"

definition Tag_SetStaticConfig :: "RouterConfig option \<Rightarrow> tag_rules \<Rightarrow> tag_rules" where
  "Tag_SetStaticConfig cfg rules =
     (case cfg of
        None \<Rightarrow> rules
      | Some c \<Rightarrow>
          if rc_Scope c \<noteq> ''application'' \<or> length (rc_Tags c) = 0 then rules
          else case RouterConfig_Clone (Some c) of
                 None \<Rightarrow> rules
               | Some copy \<Rightarrow>
                   map_put (rc_Key c @ TagRouterRuleSuffix)
                     (copy\<lparr>rc_Valid := Some (length (rc_Tags copy) > 0),
                           rc_Enabled := (case rc_Enabled copy of None \<Rightarrow> Some True | Some b \<Rightarrow> Some b)\<rparr>) rules)"

definition Tag_parseRoute :: "yaml_decoder \<Rightarrow> string \<Rightarrow> go_error + RouterConfig" where
  "Tag_parseRoute yaml content =
     (case y_RouterConfig yaml content of
        Inl e \<Rightarrow> Inl e
      | Inr cfg \<Rightarrow> Inr (cfg\<lparr>rc_Valid := Some (length (rc_Tags cfg) \<noteq> 0)\<rparr>))"

definition Tag_Process :: "yaml_decoder \<Rightarrow> ConfigChangeEvent \<Rightarrow> tag_rules \<Rightarrow> tag_rules go" where
  "Tag_Process yaml ev rules =
     (if ev_ConfigType ev = EventTypeDel then Inr (map_del (ev_Key ev) rules)
      else case ev_Value ev of
             GStr content \<Rightarrow>
               Inr (case Tag_parseRoute yaml content of Inl _ \<Rightarrow> rules | Inr cfg \<Rightarrow> map_put (ev_Key ev) cfg rules)
           | _ \<Rightarrow> Inl (Panicked ''interface conversion''))"

definition Tag_Notify ::
  "yaml_decoder \<Rightarrow> nat \<Rightarrow> invoker list \<Rightarrow> tag_rules \<times> conf_center option \<Rightarrow> (tag_rules \<times> conf_center option) go" where
  "Tag_Notify yaml self ivks = (\<lambda>(rules, cc).
     if length ivks = 0 then Inr (rules, cc)
     else if GetParam (GetURL (ivks ! 0)) ApplicationKey '''' = '''' then Inr (rules, cc)
     else case cc of
            None \<Rightarrow> Inr (rules, cc)
          | Some c \<Rightarrow>
              let key = rule_key ivks; c = subscribe (AddListener key self) c
              in case cc_GetRule c key of
                   Inl _ \<Rightarrow> Inr (rules, Some c)
                 | Inr value \<Rightarrow>
                     if value = '''' then Inr (rules, Some c)
                     else go_bind (Tag_Process yaml
                         \<lparr>ev_Key = key, ev_Value = GStr value, ev_ConfigType = EventTypeAdd\<rparr> rules)
                       (\<lambda>rules. Inr (rules, Some c)))"

section \<open>Filtering\<close>

lemma filter_loop_eq:
  "\<lbrakk>\<And>x. x \<in> set xs \<Longrightarrow> P x = Inr (Q x); i \<le> length xs\<rbrakk>
   \<Longrightarrow> filter_loop P i xs = Inr (take i xs @ filter (\<lambda>x. \<not> Q x) (drop i xs))"
proof (induction P i xs rule: filter_loop.induct)
  case (1 P i xs)
  show ?case
  proof (cases "i < length xs")
    case True
    have P: "P (xs ! i) = Inr (Q (xs ! i))" using True by (intro "1.prems") simp
    have less: "P x = Inr (Q x)" if "x \<in> set (take i xs @ drop (Suc i) xs)" for x
      using that "1.prems"(1) by (auto dest: in_set_takeD in_set_dropD)
    have rest: "drop i xs = xs ! i # drop (Suc i) xs" using True by (simp add: Cons_nth_drop_Suc)
    show ?thesis
    proof (cases "Q (xs ! i)")
      case Q: True
      have "filter_loop P i (take i xs @ drop (Suc i) xs) = Inr (take i xs @ filter (\<lambda>x. \<not> Q x) (drop (Suc i) xs))"
        using "1.IH"(1) [OF True, of True] less True by simp
      then show ?thesis using True P Q rest by (subst filter_loop.simps) simp
    next
      case Q: False
      have "filter_loop P (Suc i) xs = Inr (take (Suc i) xs @ filter (\<lambda>x. \<not> Q x) (drop (Suc i) xs))"
        using "1.IH"(2) [OF True, of False] "1.prems" True by simp
      then show ?thesis using True P Q rest by (subst filter_loop.simps) (simp add: take_Suc_conv_app_nth)
    qed
  next
    case False
    then show ?thesis using "1.prems"(2) by (subst filter_loop.simps) simp
  qed
qed

lemma filterInvokers_eq [simp]: "filterInvokers xs (\<lambda>x. Inr (Q x)) = Inr (filter (\<lambda>x. \<not> Q x) xs)"
  using filter_loop_eq [of xs "\<lambda>x. Inr (Q x)" Q 0] by (simp add: filterInvokers_def)

lemma filter_loop_subset: "filter_loop P i xs = Inr ys \<Longrightarrow> set ys \<subseteq> set xs"
proof (induction P i xs arbitrary: ys rule: filter_loop.induct)
  case (1 P i xs)
  show ?case
  proof (cases "i < length xs")
    case True
    then obtain b where "P (xs ! i) = Inr b"
      "(if b then filter_loop P i (take i xs @ drop (Suc i) xs) else filter_loop P (Suc i) xs) = Inr ys"
      using "1.prems" by (subst (asm) filter_loop.simps) (auto elim!: go_bindE)
    then show ?thesis
      using "1.IH" [OF True, of b] by (cases b) (auto dest: in_set_takeD in_set_dropD)
  qed (use "1.prems" in \<open>subst (asm) filter_loop.simps, simp\<close>)
qed

lemma filterInvokers_subset: "filterInvokers xs P = Inr ys \<Longrightarrow> set ys \<subseteq> set xs"
  unfolding filterInvokers_def by (rule filter_loop_subset)

definition addr_match :: "string list \<Rightarrow> invoker \<Rightarrow> bool" where
  "addr_match address ivk \<longleftrightarrow>
     list_ex (\<lambda>v. v = Location (GetURL ivk) \<or> v = AnyHost @ '':'' @ Port (GetURL ivk)) address"

lemma addr_match_Nil [simp]: "addr_match [] = (\<lambda>_. False)"
  by (simp add: addr_match_def [abs_def])

lemma filterInvokers_address [simp]:
  "filterInvokers xs (getAddressPredicate True address) = Inr (filter (\<lambda>x. \<not> addr_match address x) xs)"
  "filterInvokers xs (getAddressPredicate False address) = Inr (filter (addr_match address) xs)"
  by (simp_all add: getAddressPredicate_def [abs_def] addr_match_def [abs_def] if_bool_eq_disj)

lemma drop_addresses_eq:
  "drop_addresses tags xs = Inr (filter (\<lambda>x. \<forall>t \<in> set tags. \<not> addr_match (tag_Addresses t) x) xs)"
proof (induction tags arbitrary: xs)
  case (Cons t tags)
  have none: "\<not> addr_match [] x" for x by (simp add: addr_match_def)
  show ?case using Cons none by (cases "tag_Addresses t") (simp_all add: conj_commute)
qed simp

section \<open>What the index holds\<close>

definition index_set :: "invoker list \<Rightarrow> (invoker \<Rightarrow> bool) \<Rightarrow> 32 word set" where
  "index_set ivks Q = of_nat ` {i. i < length ivks \<and> Q (ivks ! i)}"

lemma index_set_ops:
  "index_set ivks P \<union> index_set ivks Q = index_set ivks (\<lambda>x. P x \<or> Q x)"
  by (auto simp: index_set_def)

lemma index_set_False [simp]: "index_set ivks (\<lambda>_. False) = {}"
  by (simp add: index_set_def)

lemma unat_word32 [simp]: "i < 2 ^ 32 \<Longrightarrow> unat (of_nat i :: 32 word) = i"
  by (simp add: unat_of_nat)

lemma of_nat_word32_eq: "i < 2 ^ 32 \<Longrightarrow> j < 2 ^ 32 \<Longrightarrow> (of_nat i :: 32 word) = of_nat j \<longleftrightarrow> i = j"
  by (metis unat_word32)

lemma index_set_diff:
  assumes "length ivks \<le> 2 ^ 32"
  shows "index_set ivks P - index_set ivks Q = index_set ivks (\<lambda>x. P x \<and> \<not> Q x)"
  using assms by (auto simp: index_set_def of_nat_word32_eq)

lemma index_set_cong: "(\<And>x. x \<in> set ivks \<Longrightarrow> P x = Q x) \<Longrightarrow> index_set ivks P = index_set ivks Q"
  by (auto simp: index_set_def)


lemma index_set_empty: "index_set ivks Q = {} \<longleftrightarrow> filter Q ivks = []"
  unfolding index_set_def filter_empty_conv by (force simp: in_set_conv_nth)

lemma roaring_okD:
  assumes "roaring_ok R bits"
  shows "bits (NewBitmap R) = {}" "bits (bm_Add R i b) = insert i (bits b)" "bits (bm_Or R a b) = bits a \<union> bits b"
    "bits (bm_AndNot R a b) = bits a - bits b" "bm_IsEmpty R b \<longleftrightarrow> bits b = {}"
    "set (bm_Iterator R b) = bits b" "sorted_wrt (<) (bm_Iterator R b)"
  using assms by (auto simp: roaring_ok_def)

lemma filter_as_indices: "filter Q xs = map ((!) xs) (filter (\<lambda>i. Q (xs ! i)) [0..<length xs])"
proof -
  have "filter Q (map ((!) xs) [0..<length xs]) = map ((!) xs) (filter (\<lambda>i. Q (xs ! i)) [0..<length xs])"
    by (simp add: filter_map comp_def)
  then show ?thesis by (simp add: map_nth)
qed

lemma collectInvokers_eq:
  assumes "roaring_ok R bits" "length ivks \<le> 2 ^ 32" "bits b = index_set ivks Q"
  shows "collectInvokers R ivks (Some b) = filter Q ivks"
proof -
  let ?it = "bm_Iterator R b" and ?ixs = "filter (\<lambda>i. Q (ivks ! i)) [0..<length ivks]"
  have "sorted_wrt (<) (map unat ?it)"
    using roaring_okD(7) [OF assms(1), of b] by (auto simp: sorted_wrt_map word_less_nat_alt elim: sorted_wrt_mono_rel [rotated])
  moreover have sorted: "sorted_wrt (<) ?ixs" by (intro sorted_wrt_filter) simp
  moreover have "set (map unat ?it) = set ?ixs"
    using roaring_okD(6) [OF assms(1), of b] assms(2,3)
    by (force simp: index_set_def image_iff)
  ultimately have it: "map unat ?it = ?ixs"
    by (intro strict_sorted_equal) auto
  then have "\<forall>i \<in> set ?it. unat i < length ivks" by (metis (no_types, lifting) atLeastLessThan_iff filter_is_subset image_eqI list.set_map set_upt subsetD)
  then have "filter (\<lambda>idx. unat idx < length ivks) ?it = ?it" by (simp add: filter_id_conv)
  moreover have "map (\<lambda>idx. ivks ! unat idx) ?it = map ((!) ivks) (map unat ?it)" by simp
  ultimately have "map (\<lambda>idx. ivks ! unat idx) (filter (\<lambda>idx. unat idx < length ivks) ?it) = filter Q ivks"
    by (simp only: it filter_as_indices [of Q ivks])
  moreover have "filter Q ivks = []" if "bits b = {}"
    using that assms(3) by (auto simp: index_set_def filter_empty_conv in_set_conv_nth)
  ultimately show ?thesis using roaring_okD(5) [OF assms(1), of b] by (simp add: collectInvokers_def)
qed


text \<open>The keys under which an invoker is entered.\<close>

definition pool_keys :: "url \<Rightarrow> string list" where
  "pool_keys u =
     [PoolKeyAll, PoolKeyTagPrefix @ GetParam u Tagkey ''''] @
     (if Location u = '''' then []
      else (PoolKeyAddrPrefix @ Location u) #
        (case LastIndex (Location u) '':'' of
           Some idx \<Rightarrow> if idx > 0 then [PoolKeyPortPrefix @ drop (idx + 1) (Location u)] else []
         | None \<Rightarrow> []))"

lemma pool_invoker_keys: "pool_invoker R i u pool = fold (\<lambda>k. upsertBM R k i) (pool_keys u) pool"
  by (auto simp: pool_invoker_def pool_keys_def Let_def split: option.split)

definition bits_at :: "('b \<Rightarrow> 32 word set) \<Rightarrow> 'b AddrPool \<Rightarrow> string \<Rightarrow> 32 word set" where
  "bits_at bits pool key = (case map_of pool key of None \<Rightarrow> {} | Some b \<Rightarrow> bits b)"

lemma bits_at_upsert:
  assumes "roaring_ok R bits"
  shows "bits_at bits (upsertBM R k i pool) key = bits_at bits pool key \<union> (if k = key then {of_nat i} else {})"
  using roaring_okD(1,2) [OF assms] by (auto simp: bits_at_def upsertBM_def split: option.split)

lemma bits_at_upserts:
  assumes "roaring_ok R bits"
  shows "bits_at bits (fold (\<lambda>k. upsertBM R k i) ks pool) key =
    bits_at bits pool key \<union> (if key \<in> set ks then {of_nat i} else {})"
  by (induction ks arbitrary: pool) (auto simp: bits_at_upsert [OF assms])

lemma bits_at_Pool:
  assumes "roaring_ok R bits"
  shows "bits_at bits (Pool R ivks) key = index_set ivks (\<lambda>ivk. key \<in> set (pool_keys (GetURL ivk)))"
proof (induction ivks rule: rev_induct)
  case Nil
  show ?case by (simp add: Pool_def bits_at_def index_set_def)
next
  case (snoc ivk ivks)
  have "{i. i < length (ivks @ [ivk]) \<and> Q ((ivks @ [ivk]) ! i)} =
    {i. i < length ivks \<and> Q (ivks ! i)} \<union> (if Q ivk then {length ivks} else {})" for Q
    by (auto simp: nth_append less_Suc_eq)
  then have "index_set (ivks @ [ivk]) Q = index_set ivks Q \<union> (if Q ivk then {of_nat (length ivks)} else {})" for Q
    by (simp add: index_set_def image_Un)
  moreover have "Pool R (ivks @ [ivk]) = fold (\<lambda>k. upsertBM R k (length ivks)) (pool_keys (GetURL ivk)) (Pool R ivks)"
    by (simp add: Pool_def enumerate_append_eq pool_invoker_keys)
  ultimately show ?case by (simp only: bits_at_upserts [OF assms] snoc)
qed

lemma tag_key_iff [simp]: "PoolKeyTagPrefix @ tag \<in> set (pool_keys u) \<longleftrightarrow> GetParam u Tagkey '''' = tag"
  by (auto simp: pool_keys_def split: option.split)

lemma addr_key_iff: "PoolKeyAddrPrefix @ addr \<in> set (pool_keys u) \<longleftrightarrow> Location u = addr \<and> addr \<noteq> ''''"
  by (auto simp: pool_keys_def split: option.split)

lemma port_key_iff:
  "PoolKeyPortPrefix @ p \<in> set (pool_keys u) \<longleftrightarrow>
   (\<exists>idx. LastIndex (Location u) '':'' = Some idx \<and> 0 < idx \<and> drop (idx + 1) (Location u) = p)"
  by (cases "LastIndex (Location u) '':''") (auto simp: pool_keys_def)

text \<open>An invoker at a host and a port, as every provider URL is.\<close>

definition host_port :: "url \<Rightarrow> bool" where
  "host_port u \<longleftrightarrow> (\<exists>host. host \<noteq> '''' \<and> Location u = host @ '':'' @ Port u) \<and> CHR '':'' \<notin> set (Port u)"

lemma LastIndex_char_Some:
  "LastIndex s [c] = Some i \<Longrightarrow> s = take i s @ c # drop (Suc i) s \<and> c \<notin> set (drop (Suc i) s)"
proof (induction s arbitrary: i)
  case (Cons x s)
  show ?case
  proof (cases "LastIndex s [c]")
    case None
    then have "c \<notin> set s" by (simp add: LastIndex_char_None)
    with None Cons.prems show ?thesis by (auto split: if_splits)
  next
    case (Some j)
    with Cons.prems Cons.IH [OF Some] show ?thesis by auto
  qed
qed simp

lemma any_host_iff:
  assumes "CHR '':'' \<notin> set port"
  shows "addr = AnyHost @ '':'' @ port \<longleftrightarrow>
    (\<exists>idx. LastIndex addr '':'' = Some idx \<and> 0 < idx \<and> take idx addr = AnyHost \<and> drop (idx + 1) addr = port)"
proof
  assume addr: "addr = AnyHost @ '':'' @ port"
  have "LastIndex addr '':'' = Some (length AnyHost)"
    unfolding addr using LastIndex_char_append [OF assms, of AnyHost] by simp
  then show "\<exists>idx. LastIndex addr '':'' = Some idx \<and> 0 < idx \<and> take idx addr = AnyHost \<and> drop (idx + 1) addr = port"
    using addr by auto
next
  assume "\<exists>idx. LastIndex addr '':'' = Some idx \<and> 0 < idx \<and> take idx addr = AnyHost \<and> drop (idx + 1) addr = port"
  then obtain idx where "LastIndex addr '':'' = Some idx" "take idx addr = AnyHost" "drop (Suc idx) addr = port" by auto
  with LastIndex_char_Some [of addr "CHR '':''" idx] show "addr = AnyHost @ '':'' @ port" by simp
qed

lemma host_port_keys:
  assumes "host_port u"
  shows "PoolKeyAddrPrefix @ addr \<in> set (pool_keys u) \<longleftrightarrow> addr = Location u"
    "PoolKeyPortPrefix @ p \<in> set (pool_keys u) \<longleftrightarrow> p = Port u"
proof -
  obtain host where h: "host \<noteq> ''''" "Location u = host @ '':'' @ Port u" "CHR '':'' \<notin> set (Port u)"
    using assms by (auto simp: host_port_def)
  show "PoolKeyAddrPrefix @ addr \<in> set (pool_keys u) \<longleftrightarrow> addr = Location u"
    unfolding addr_key_iff using h(2) by auto
  have "LastIndex (Location u) '':'' = Some (length host)" using LastIndex_char_append [OF h(3), of host] h(2) by simp
  then show "PoolKeyPortPrefix @ p \<in> set (pool_keys u) \<longleftrightarrow> p = Port u"
    unfolding port_key_iff using h(1,2) by auto
qed

lemma pool_Or_bits:
  assumes "roaring_ok R bits"
  shows "bits (case map_of (Pool R ivks) k of Some b \<Rightarrow> bm_Or R c b | None \<Rightarrow> c) =
    bits c \<union> index_set ivks (\<lambda>ivk. k \<in> set (pool_keys (GetURL ivk)))"
  unfolding bits_at_Pool [OF assms, symmetric] bits_at_def
  using roaring_okD(3) [OF assms] by (auto split: option.split)

lemma address_bits:
  assumes "roaring_ok R bits" "\<forall>ivk \<in> set ivks. host_port (GetURL ivk)"
  shows "bits (address_bitmap R (Pool R ivks) addr bm) = bits bm \<union> index_set ivks (addr_match [addr])"
proof -
  let ?any = "\<lambda>ivk. addr = AnyHost @ '':'' @ Port (GetURL ivk)"
  have any: "?any ivk \<longleftrightarrow> (\<exists>idx. LastIndex addr '':'' = Some idx \<and> 0 < idx \<and> take idx addr = AnyHost \<and>
    drop (idx + 1) addr = Port (GetURL ivk))" if "ivk \<in> set ivks" for ivk
    using assms(2) that by (intro any_host_iff) (simp add: host_port_def)
  have addrs: "index_set ivks (\<lambda>ivk. PoolKeyAddrPrefix @ addr \<in> set (pool_keys (GetURL ivk))) =
    index_set ivks (\<lambda>ivk. addr = Location (GetURL ivk))"
    using assms(2) by (intro index_set_cong host_port_keys(1)) blast
  have ports: "index_set ivks (\<lambda>ivk. PoolKeyPortPrefix @ drop (idx + 1) addr \<in> set (pool_keys (GetURL ivk))) =
    index_set ivks ?any" if "LastIndex addr '':'' = Some idx" "0 < idx" "take idx addr = AnyHost" for idx
    using assms(2) that by (intro index_set_cong) (simp only: host_port_keys(2) any, auto)
  have none: "index_set ivks ?any = {}"
    if "\<not> (\<exists>idx. LastIndex addr '':'' = Some idx \<and> 0 < idx \<and> take idx addr = AnyHost)"
    using that any by (subst index_set_cong [of ivks ?any "\<lambda>_. False"]) auto
  have "bits (address_bitmap R (Pool R ivks) addr bm) =
    bits bm \<union> index_set ivks (\<lambda>ivk. addr = Location (GetURL ivk)) \<union> index_set ivks ?any"
  proof (cases "\<exists>idx. LastIndex addr '':'' = Some idx \<and> 0 < idx \<and> take idx addr = AnyHost")
    case True
    then obtain idx where idx: "LastIndex addr '':'' = Some idx" "0 < idx" "take idx addr = AnyHost" by blast
    then show ?thesis
      by (simp only: address_bitmap_def Let_def idx option.case simp_thms if_True pool_Or_bits [OF assms(1)] addrs ports [OF idx])
  next
    case False
    then have "address_bitmap R (Pool R ivks) addr bm =
      (case map_of (Pool R ivks) (PoolKeyAddrPrefix @ addr) of Some ab \<Rightarrow> bm_Or R bm ab | None \<Rightarrow> bm)"
      unfolding address_bitmap_def Let_def by (cases "LastIndex addr '':''") auto
    then show ?thesis by (simp only: pool_Or_bits [OF assms(1)] addrs none [OF False] Un_empty_right)
  qed
  also have "\<dots> = bits bm \<union> index_set ivks (addr_match [addr])"
    by (simp add: Un_assoc index_set_ops addr_match_def [abs_def])
  finally show ?thesis .
qed


lemma addresses_bits:
  assumes "roaring_ok R bits" "\<forall>ivk \<in> set ivks. host_port (GetURL ivk)"
  shows "bits (addressesBM R (Pool R ivks) addrs) = index_set ivks (addr_match addrs)"
proof -
  have "bits (fold (address_bitmap R (Pool R ivks)) addrs bm) = bits bm \<union> index_set ivks (addr_match addrs)" for bm
  proof (induction addrs arbitrary: bm)
    case (Cons addr addrs)
    have "addr_match (addr # addrs) = (\<lambda>x. addr_match [addr] x \<or> addr_match addrs x)"
      by (auto simp: addr_match_def)
    then show ?case using Cons by (simp add: address_bits [OF assms] Un_assoc index_set_ops)
  qed simp
  then show ?thesis by (simp add: addressesBM_def roaring_okD(1) [OF assms(1)])
qed

lemma drop_addresses_bits:
  assumes "roaring_ok R bits" "\<forall>ivk \<in> set ivks. host_port (GetURL ivk)" "length ivks \<le> 2 ^ 32"
  shows "bits bm = index_set ivks Q \<Longrightarrow> bits (drop_addresses_BM R (Pool R ivks) tags bm) =
    index_set ivks (\<lambda>x. Q x \<and> (\<forall>t \<in> set tags. \<not> addr_match (tag_Addresses t) x))"
proof (induction tags arbitrary: bm Q)
  case (Cons t tags)
  let ?addrs = "addressesBM R (Pool R ivks) (tag_Addresses t)"
  have "bits (if bm_IsEmpty R ?addrs then bm else bm_AndNot R bm ?addrs) =
    index_set ivks (\<lambda>x. Q x \<and> \<not> addr_match (tag_Addresses t) x)"
    using roaring_okD(4,5) [OF assms(1)] Cons.prems addresses_bits [OF assms(1,2), of "tag_Addresses t"]
      index_set_diff [OF assms(3), of Q "addr_match (tag_Addresses t)"] by auto
  note IH = Cons.IH [OF this] Cons.IH [OF Cons.prems]
  show ?case
  proof (cases "tag_Addresses t = []")
    case False
    then show ?thesis using IH(1) by (cases "bm_IsEmpty R ?addrs") (simp_all add: Let_def conj_assoc)
  qed (simp add: IH(2))
qed simp

lemma collect_key:
  assumes "roaring_ok R bits" "length ivks \<le> 2 ^ 32"
  shows "collectInvokers R ivks (map_of (Pool R ivks) k) = filter (\<lambda>ivk. k \<in> set (pool_keys (GetURL ivk))) ivks"
    "filter (\<lambda>ivk. k \<in> set (pool_keys (GetURL ivk))) ivks = [] \<longleftrightarrow>
      (case map_of (Pool R ivks) k of None \<Rightarrow> True | Some b \<Rightarrow> bm_IsEmpty R b)"
proof -
  let ?Q = "\<lambda>ivk. k \<in> set (pool_keys (GetURL ivk))"
  note at = bits_at_Pool [OF assms(1), of ivks k, unfolded bits_at_def]
  show empty: "filter ?Q ivks = [] \<longleftrightarrow> (case map_of (Pool R ivks) k of None \<Rightarrow> True | Some b \<Rightarrow> bm_IsEmpty R b)"
    using at index_set_empty [of ivks ?Q] roaring_okD(5) [OF assms(1)] by (cases "map_of (Pool R ivks) k") auto
  show "collectInvokers R ivks (map_of (Pool R ivks) k) = filter ?Q ivks"
    using empty at collectInvokers_eq [OF assms, where Q = ?Q]
    by (cases "map_of (Pool R ivks) k") (auto simp: collectInvokers_def)
qed

section \<open>The index gives the same answers\<close>

lemma staticTag_eq:
  "staticTag ivks u call =
   (let tag = GetAttachmentWithDefaultValue call Tagkey (GetParam u Tagkey '''');
        tagged = filter (\<lambda>ivk. tag_of ivk = tag) ivks
    in Inr (if tag = '''' \<or> tagged = [] \<and> \<not> requestIsForce u call then filter (\<lambda>ivk. tag_of ivk = '''') ivks
            else tagged))"
  by (auto simp: staticTag_def GetAttachmentWithDefaultValue_def Let_def)

lemma static_equivalent:
  assumes "roaring_ok R bits" "length ivks \<le> 2 ^ 32"
  shows "staticTag ivks u call = Inr (collectInvokers R ivks (staticTagMatchBM R (Pool R ivks)
    (GetAttachmentWithDefaultValue call Tagkey (GetParam u Tagkey '''')) u call))"
proof -
  define tag where "tag = GetAttachmentWithDefaultValue call Tagkey (GetParam u Tagkey '''')"
  note key = collect_key [OF assms, where k = "PoolKeyTagPrefix @ t" for t, unfolded tag_key_iff]
  have "collectInvokers R ivks (staticTagMatchBM R (Pool R ivks) tag u call) =
    (if tag = '''' \<or> filter (\<lambda>ivk. tag_of ivk = tag) ivks = [] \<and> \<not> requestIsForce u call
     then filter (\<lambda>ivk. tag_of ivk = '''') ivks else filter (\<lambda>ivk. tag_of ivk = tag) ivks)"
    using key [of tag] key(1) [of "''''"]
    by (cases "tag = ''''"; cases "map_of (Pool R ivks) (PoolKeyTagPrefix @ tag)")
      (auto simp: staticTagMatchBM_def collectInvokers_def [of _ _ None])
  then show ?thesis by (simp only: staticTag_eq Let_def tag_def [symmetric])
qed

lemma requestEmptyTag_eq:
  "requestEmptyTag ivks cfg =
   Inr (filter (\<lambda>x. tag_of x = '''' \<and> (\<forall>t \<in> set (rc_Tags cfg). \<not> addr_match (tag_Addresses t) x)) ivks)"
  by (auto simp: requestEmptyTag_def drop_addresses_eq filter_empty_conv conj_commute)

lemma empty_equivalent:
  assumes "roaring_ok R bits" "length ivks \<le> 2 ^ 32" "\<forall>ivk \<in> set ivks. host_port (GetURL ivk)"
  shows "requestEmptyTag ivks cfg = Inr (collectInvokers R ivks (emptyTagMatchBM R (Pool R ivks) cfg))"
proof -
  let ?E = "\<lambda>ivk. tag_of ivk = ''''"
  let ?Q = "\<lambda>x. ?E x \<and> (\<forall>t \<in> set (rc_Tags cfg). \<not> addr_match (tag_Addresses t) x)"
  note key = collect_key [OF assms(1,2), where k = "PoolKeyTagPrefix @ ''''", unfolded tag_key_iff, unfolded append_Nil2]
  have sub: "filter ?Q ivks = []" if "filter ?E ivks = []" using that by (auto simp: filter_empty_conv)
  have "collectInvokers R ivks (emptyTagMatchBM R (Pool R ivks) cfg) = filter ?Q ivks"
  proof (cases "map_of (Pool R ivks) PoolKeyTagPrefix")
    case None
    then show ?thesis using key(2) sub by (simp add: emptyTagMatchBM_def collectInvokers_def)
  next
    case (Some b)
    show ?thesis
    proof (cases "bm_IsEmpty R b")
      case True
      then show ?thesis using Some key(2) sub by (simp add: emptyTagMatchBM_def collectInvokers_def)
    next
      case False
      have "bits b = index_set ivks ?E"
        using bits_at_Pool [OF assms(1), of ivks "PoolKeyTagPrefix @ ''''", unfolded tag_key_iff, unfolded append_Nil2] Some
        by (simp add: bits_at_def)
      from drop_addresses_bits [OF assms(1,3,2) this]
      show ?thesis using Some False collectInvokers_eq [OF assms(1,2)] by (simp add: emptyTagMatchBM_def)
    qed
  qed
  then show ?thesis by (simp only: requestEmptyTag_eq)
qed

lemma find_tag_first:
  assumes "distinct (map tag_Name tags)"
  shows "find_tag tag tags = find_tag_BM tag tags"
proof -
  have "fold (\<lambda>tagCfg acc. if tag_Name tagCfg = tag then (tag_Addresses tagCfg, tag_Match tagCfg) else acc) tags acc =
    (case find (\<lambda>tagCfg. tag_Name tagCfg = tag) tags of
       Some tagCfg \<Rightarrow> (tag_Addresses tagCfg, tag_Match tagCfg) | None \<Rightarrow> acc)" for acc
    using assms
  proof (induction tags arbitrary: acc)
    case (Cons t tags)
    have "find (\<lambda>tagCfg. tag_Name tagCfg = tag) tags = None" if "tag_Name t = tag"
      unfolding find_None_iff using that Cons.prems by (metis distinct.simps(2) image_eqI list.set_map list.simps(9))
    then show ?case using Cons by simp
  qed simp
  then show ?thesis by (simp add: find_tag_def find_tag_BM_def)
qed

text \<open>What a call with a tag gets from a rule that has addresses, or nothing, for the tag.\<close>

definition tagged :: "string list \<Rightarrow> string \<Rightarrow> invoker \<Rightarrow> bool" where
  "tagged addresses tag ivk \<longleftrightarrow> (if addresses = [] then tag_of ivk = tag else addr_match addresses ivk)"

lemma requestTag_eq:
  assumes "find_tag tag (rc_Tags cfg) = (addresses, [])"
  shows "requestTag regex ivks u call cfg tag =
    Inr (if rc_Force cfg = Some True \<or> requestIsForce u call \<or> filter (tagged addresses tag) ivks \<noteq> []
         then filter (tagged addresses tag) ivks
         else filter (\<lambda>ivk. tag_of ivk = '''' \<and> \<not> addr_match addresses ivk) ivks)"
  using assms by (auto simp: requestTag_def tagged_def [abs_def] conj_commute)

lemma tagged_bitmap:
  fixes addresses :: "string list" and tag :: string
  assumes "roaring_ok R bits" "length ivks \<le> 2 ^ 32" "\<forall>ivk \<in> set ivks. host_port (GetURL ivk)"
  defines "bm \<equiv> if addresses = [] then map_of (Pool R ivks) (PoolKeyTagPrefix @ tag)
                 else Some (addressesBM R (Pool R ivks) addresses)"
  shows "collectInvokers R ivks bm = filter (tagged addresses tag) ivks"
    "filter (tagged addresses tag) ivks = [] \<longleftrightarrow> (case bm of None \<Rightarrow> True | Some b \<Rightarrow> bm_IsEmpty R b)"
proof -
  note key = collect_key [OF assms(1,2), where k = "PoolKeyTagPrefix @ tag", unfolded tag_key_iff]
  note addrs = addresses_bits [OF assms(1,3), of addresses]
  show "collectInvokers R ivks bm = filter (tagged addresses tag) ivks"
    using key(1) collectInvokers_eq [OF assms(1,2) addrs] by (simp add: bm_def tagged_def [abs_def])
  show "filter (tagged addresses tag) ivks = [] \<longleftrightarrow> (case bm of None \<Rightarrow> True | Some b \<Rightarrow> bm_IsEmpty R b)"
    using key(2) index_set_empty [of ivks "addr_match addresses"] addrs roaring_okD(5) [OF assms(1)]
    by (simp add: bm_def tagged_def [abs_def])
qed

lemma untagged_bitmap:
  assumes "roaring_ok R bits" "length ivks \<le> 2 ^ 32" "\<forall>ivk \<in> set ivks. host_port (GetURL ivk)"
    "map_of (Pool R ivks) PoolKeyTagPrefix = Some b"
  shows "collectInvokers R ivks (Some (if addresses = [] then b else bm_AndNot R b (addressesBM R (Pool R ivks) addresses))) =
    filter (\<lambda>ivk. tag_of ivk = '''' \<and> \<not> addr_match addresses ivk) ivks"
proof -
  have "bits b = index_set ivks (\<lambda>ivk. tag_of ivk = '''')"
    using bits_at_Pool [OF assms(1), of ivks "PoolKeyTagPrefix @ ''''", unfolded tag_key_iff, unfolded append_Nil2] assms(4)
    by (simp add: bits_at_def)
  then have "bits (if addresses = [] then b else bm_AndNot R b (addressesBM R (Pool R ivks) addresses)) =
    index_set ivks (\<lambda>ivk. tag_of ivk = '''' \<and> \<not> addr_match addresses ivk)"
    using roaring_okD(4) [OF assms(1)] addresses_bits [OF assms(1,3)] index_set_diff [OF assms(2)] by simp
  then show ?thesis by (rule collectInvokers_eq [OF assms(1,2)])
qed

lemma request_equivalent:
  assumes "roaring_ok R bits" "length ivks \<le> 2 ^ 32" "\<forall>ivk \<in> set ivks. host_port (GetURL ivk)"
    "distinct (map tag_Name (rc_Tags cfg))" "requestTagMatchBM R (Pool R ivks) u call cfg tag = Some bm"
  shows "requestTag regex ivks u call cfg tag = Inr (collectInvokers R ivks (Some bm))"
proof -
  obtain addresses match where tag: "find_tag_BM tag (rc_Tags cfg) = (addresses, match)" by fastforce
  then have "match = []" using assms(5) by (auto simp: requestTagMatchBM_def split: if_split_asm)
  with tag find_tag_first [OF assms(4)] have find: "find_tag tag (rc_Tags cfg) = (addresses, [])" by simp
  note tagged = tagged_bitmap [where addresses = addresses and tag = tag, OF assms(1-3)]
  note untagged = untagged_bitmap [where addresses = addresses, OF assms(1-3)]
  show ?thesis
    unfolding requestTag_eq [OF find]
    using assms(5) tag tagged untagged \<open>match = []\<close>
    by (cases "map_of (Pool R ivks) PoolKeyTagPrefix")
      (auto simp: requestTagMatchBM_def Let_def split: if_split_asm option.split_asm)
qed

lemma pool_equivalent:
  assumes "roaring_ok R bits" "ivks \<noteq> []" "length ivks \<le> 2 ^ 32"
    and "\<forall>ivk \<in> set ivks. host_port (GetURL ivk)"
    and "\<forall>(key, cfg) \<in> set rules. distinct (map tag_Name (rc_Tags cfg))"
  shows "routeWithPool regex R rules ivks (Pool R ivks) u call = tag_match regex rules ivks u call"
proof (cases "map_of rules (rule_key ivks)")
  case None
  then show ?thesis
    using assms(2) static_equivalent [OF assms(1,3)] by (simp add: routeWithPool_def tag_match_def Let_def)
next
  case (Some cfg)
  then have "distinct (map tag_Name (rc_Tags cfg))" using assms(5) by (auto dest!: map_of_SomeD)
  then show ?thesis
    using Some assms(2) static_equivalent [OF assms(1,3)] empty_equivalent [OF assms(1,3,4)]
      request_equivalent [OF assms(1,3,4), of cfg]
    by (auto simp: routeWithPool_def tag_match_def dynamicTag_def Let_def split: option.split)
qed

text \<open>
  C24.  The bitmap index of the tag router gives exactly the answers of the matcher over the list,
  in the same order and with the same panics, for every rule whose tags have different names and
  every list of invokers at a host and a port.  When a rule names a tag twice the matcher takes
  the last entry and the index the first.
\<close>

theorem routeWithPool_equivalent:
  assumes "roaring_ok R bits" "ivks \<noteq> []" "length ivks \<le> 2 ^ 32"
    and "\<forall>ivk \<in> set ivks. host_port (GetURL ivk)"
    and "\<forall>(key, cfg) \<in> set rules. distinct (map tag_Name (rc_Tags cfg))"
  shows "routeWithPool regex R rules ivks (Pool R ivks) u call = tag_match regex rules ivks u call"
  using assms by (rule pool_equivalent)

lemma collectInvokers_subset: "set (collectInvokers R ivks bm) \<subseteq> set ivks"
  by (auto simp: collectInvokers_def split: option.split)

lemma requestTag_subset: "requestTag regex ivks u call cfg tag = Inr res \<Longrightarrow> set res \<subseteq> set ivks"
  unfolding requestTag_def Let_def
  by (auto elim!: go_bindE split: if_split_asm prod.split_asm dest!: filterInvokers_subset)

lemma tag_match_subset: "tag_match regex rules ivks u call = Inr res \<Longrightarrow> set res \<subseteq> set ivks"
  by (auto simp: tag_match_def dynamicTag_def staticTag_eq requestEmptyTag_eq Let_def
      split: if_split_asm option.split_asm dest!: requestTag_subset)

lemma routeWithPool_subset: "routeWithPool regex R rules ivks pool u call = Inr res \<Longrightarrow> set res \<subseteq> set ivks"
  unfolding routeWithPool_def Let_def
  by (auto split: if_split_asm option.split_asm dest!: requestTag_subset subsetD [OF collectInvokers_subset])

text \<open>A cache fits a call when the pool it offers was built from the invokers at hand.\<close>

definition tag_coherent :: "'b roaring \<Rightarrow> 'b routerCache option \<Rightarrow> invoker list \<Rightarrow> RPCInvocation \<Rightarrow> bool" where
  "tag_coherent R cache ivks call \<longleftrightarrow>
     (\<forall>pool full. usable_pool cache call = Inr (Some (pool, full)) \<longrightarrow> full = ivks \<and> pool = Pool R ivks)"

lemma Tag_Route_subset:
  assumes "Tag_Route regex R cache rules ivks u call = Inr (res, call')" "tag_coherent R cache ivks call"
  shows "set res \<subseteq> set ivks \<and> call' = call"
proof (cases "ivks = []")
  case False
  then obtain found where found: "usable_pool cache call = Inr found" "call' = call"
    "(case found of Some (pool, full) \<Rightarrow> routeWithPool regex R rules full pool u call
      | None \<Rightarrow> tag_match regex rules ivks u call) = Inr res"
    using assms(1) by (auto simp: Tag_Route_def elim!: go_bindE)
  then show ?thesis
    using assms(2) routeWithPool_subset [of regex R rules ivks "Pool R ivks" u call res]
      tag_match_subset [of regex rules ivks u call res]
    by (auto simp: tag_coherent_def split: option.split_asm)
qed (use assms(1) in \<open>simp add: Tag_Route_def\<close>)

interpretation tag_router:
  priority_router "\<lambda>(regex, R, cache, rules). Tag_Route regex R cache rules"
    "\<lambda>(regex, R, cache, rules). tag_coherent R cache"
  by unfold_locales (auto dest: Tag_Route_subset)

text \<open>Bitmaps as lists of their numbers.\<close>

definition list_bitmap :: "32 word list roaring" where
  "list_bitmap = \<lparr>NewBitmap = [], bm_Add = (#), bm_Or = (@), bm_AndNot = (\<lambda>a b. filter (\<lambda>x. x \<notin> set b) a),
     bm_IsEmpty = (\<lambda>b. b = []), bm_Iterator = (\<lambda>b. sort (remdups b))\<rparr>"

lemma list_bitmap_ok: "roaring_ok list_bitmap set"
  by (auto simp: roaring_ok_def list_bitmap_def strict_sorted_iff)

definition tag_peer :: "nat \<Rightarrow> string \<Rightarrow> string \<Rightarrow> invoker" where
  "tag_peer n port tag = \<lparr>ivk_id = n, GetURL = NewURLWithOptions
     [WithIp ''h'', WithPort port, WithParamsValue Tagkey tag]\<rparr>"

definition tag_peers :: "invoker list" where
  "tag_peers = [tag_peer 7 ''1'' ''gray'', tag_peer 8 ''2'' '''', tag_peer 9 ''3'' '''']"

definition tag_rule :: RouterConfig where
  "tag_rule = DefaultRouterConfig\<lparr>rc_Tags := [\<lparr>tag_Name = ''blue'', tag_Match = [], tag_Addresses = [''0.0.0.0:3'']\<rparr>]\<rparr>"

lemma tag_peers_host_port: "\<forall>ivk \<in> set tag_peers. host_port (GetURL ivk)"
proof -
  have "host_port (GetURL (tag_peer n port tag))" if "CHR '':'' \<notin> set port" for n port tag
  proof -
    have "Location (GetURL (tag_peer n port tag)) = ''h'' @ '':'' @ port" "Port (GetURL (tag_peer n port tag)) = port"
      by (simp_all add: tag_peer_def url_eval)
    with that show ?thesis unfolding host_port_def by fastforce
  qed
  then show "\<forall>ivk \<in> set tag_peers. host_port (GetURL ivk)" by (simp add: tag_peers_def)
qed

theorem routeWithPool_equivalent_witness:
  "routeWithPool (\<lambda>_ _. False) list_bitmap [(''.tag-router'', tag_rule)] tag_peers (Pool list_bitmap tag_peers)
     sample_consumer (NewRPCInvocation ''Greet'' None (Some [(Tagkey, GStr ''blue'')])) = Inr [tag_peer 9 ''3'' '''']"
proof -
  have "\<forall>(key, cfg) \<in> set [(''.tag-router'', tag_rule)]. distinct (map tag_Name (rc_Tags cfg))" by code_simp
  with tag_peers_host_port have "routeWithPool (\<lambda>_ _. False) list_bitmap [(''.tag-router'', tag_rule)] tag_peers (Pool list_bitmap tag_peers)
     sample_consumer (NewRPCInvocation ''Greet'' None (Some [(Tagkey, GStr ''blue'')])) =
     tag_match (\<lambda>_ _. False) [(''.tag-router'', tag_rule)] tag_peers
     sample_consumer (NewRPCInvocation ''Greet'' None (Some [(Tagkey, GStr ''blue'')]))"
    by (intro routeWithPool_equivalent [OF list_bitmap_ok]) (simp_all add: tag_peers_def)
  also have "\<dots> = Inr [tag_peer 9 ''3'' '''']" by code_simp
  finally show ?thesis .
qed

end
