(* ===== verification/Affinity_Router.thy ===== *)
theory Affinity_Router
  imports Condition_Router Go_Float
begin

text \<open>
  The affinity routers (\<^verbatim>\<open>cluster/router/affinity\<close>): a rule names a key, and the router prefers the
  providers that have the consumer's value for it, provided they make up a given percentage of
  the candidates.  The percentage is compared in \<^verbatim>\<open>float32\<close>.
\<close>

abbreviation AffinityRuleSuffix :: string where "AffinityRuleSuffix \<equiv> ''.affinity-router''"

record affinityRoute =
  af_matcher :: "FieldMatcher option"
  af_enabled :: bool
  af_key :: string
  af_ratio :: int

definition no_affinity :: affinityRoute where
  "no_affinity = \<lparr>af_matcher = None, af_enabled = False, af_key = '''', af_ratio = 0\<rparr>"



text \<open>A change of the rule resets the router first, so that a rule with a mistake disables it.\<close>

definition Affinity_Process :: "yaml_decoder \<Rightarrow> ConfigChangeEvent \<Rightarrow> affinityRoute \<Rightarrow> affinityRoute go" where
  "Affinity_Process yaml ev a =
     (if ev_ConfigType ev = EventTypeDel then Inr no_affinity
      else case ev_Value ev of
             GStr c \<Rightarrow>
               Inr (case y_AffinityRouter yaml c of
                      Inl _ \<Rightarrow> no_affinity
                    | Inr cfg \<Rightarrow>
                        if ar_Ratio cfg < 0 \<or> ar_Ratio cfg > 100 then no_affinity
                        else
                          let key = TrimSpace (ar_Key cfg)
                          in if \<not> ar_Enabled cfg \<or> key = '''' then no_affinity
                             else case NewFieldMatcher (key @ ''=$'' @ key) of
                                    Inl _ \<Rightarrow> no_affinity
                                  | Inr f \<Rightarrow> \<lparr>af_matcher = Some f, af_enabled = True, af_key = key, af_ratio = ar_Ratio cfg\<rparr>)
           | _ \<Rightarrow> Inl (Panicked ''interface conversion''))"

text \<open>\<^verbatim>\<open>float32(n)\<close>, and the comparison of the share with the percentage.\<close>

definition float32_of_int :: "int \<Rightarrow> rat" where
  "float32_of_int n = fl32 (of_int n)"

definition enough :: "nat \<Rightarrow> nat \<Rightarrow> int \<Rightarrow> bool" where
  "enough k n ratio \<longleftrightarrow>
     fl32 (float32_of_int (int k) / float32_of_int (int n)) \<ge> fl32 (float32_of_int ratio / float32_of_int 100)"

definition Affinity_Route :: "(go_any \<Rightarrow> string) \<Rightarrow> affinityRoute \<Rightarrow> route" where
  "Affinity_Route fmt a ivks u call =
     (if length ivks = 0 then Inr (ivks, call)
      else if \<not> af_enabled a then Inr (ivks, call)
      else case af_matcher a of
             None \<Rightarrow> Inl NilDereference
           | Some m \<Rightarrow>
               go_bind (go_filter (MatchInvoker fmt m u) ivks) (\<lambda>res.
                 if enough (length res) (length ivks) (af_ratio a) then Inr (res, call) else Inr (ivks, call)))"

definition Affinity_Priority :: int where "Affinity_Priority = - (2 ^ 63)"

definition ServiceAffinity_Notify ::
  "yaml_decoder \<Rightarrow> nat \<Rightarrow> invoker list \<Rightarrow> affinityRoute \<times> conf_center option \<Rightarrow>
   (affinityRoute \<times> conf_center option) go" where
  "ServiceAffinity_Notify yaml self ivks = (\<lambda>(s, cc).
     if length ivks = 0 then Inr (s, cc)
     else case cc of
            None \<Rightarrow> Inr (s, cc)
          | Some c \<Rightarrow>
              let key = ColonSeparatedKey (GetURL (ivks ! 0)) @ AffinityRuleSuffix;
                  c = subscribe (AddListener key self) c
              in case cc_GetRule c key of
                   Inl _ \<Rightarrow> Inr (s, Some c)
                 | Inr value \<Rightarrow>
                     go_bind (Affinity_Process yaml
                         \<lparr>ev_Key = key, ev_Value = GStr value, ev_ConfigType = EventTypeAdd\<rparr> s)
                       (\<lambda>s. Inr (s, Some c)))"

record ApplicationAffinityRoute =
  aa_route :: affinityRoute
  aa_application :: string
  aa_currentApplication :: string

text \<open>\<^const>\<open>None\<close> is the nil pointer returned for a URL without an application.\<close>

definition newApplicationAffinityRouter ::
  "nat \<Rightarrow> url \<Rightarrow> conf_center option \<Rightarrow> ApplicationAffinityRoute option \<times> conf_center option" where
  "newApplicationAffinityRouter self u cc =
     (let name = GetParam u ApplicationKey ''''
      in if name = '''' then (None, cc)
         else (Some \<lparr>aa_route = no_affinity, aa_application = '''', aa_currentApplication = name\<rparr>,
               map_option (subscribe (AddListener (name @ AffinityRuleSuffix) self)) cc))"

definition ApplicationAffinity_Notify ::
  "yaml_decoder \<Rightarrow> nat \<Rightarrow> invoker list \<Rightarrow> ApplicationAffinityRoute \<times> conf_center option \<Rightarrow>
   (ApplicationAffinityRoute \<times> conf_center option) go" where
  "ApplicationAffinity_Notify yaml self ivks = (\<lambda>(s, cc).
     if length ivks = 0 then Inr (s, cc)
     else case cc of
            None \<Rightarrow> Inr (s, cc)
          | Some c \<Rightarrow>
              let provider = GetParam (GetURL (ivks ! 0)) ApplicationKey ''''
              in if provider = '''' \<or> provider = aa_currentApplication s then Inr (s, cc)
                 else if provider = aa_application s then Inr (s, cc)
                 else
                   let c = (if aa_application s \<noteq> ''''
                            then subscribe (RemoveListener (aa_application s @ AffinityRuleSuffix) self) c else c);
                       s = s\<lparr>aa_application := provider\<rparr>;
                       key = provider @ AffinityRuleSuffix;
                       c = subscribe (AddListener key self) c
                   in case cc_GetRule c key of
                        Inl _ \<Rightarrow> Inr (s, Some c)
                      | Inr value \<Rightarrow>
                          go_bind (Affinity_Process yaml
                              \<lparr>ev_Key = key, ev_Value = GStr value, ev_ConfigType = EventTypeUpdate\<rparr> (aa_route s))
                            (\<lambda>r. Inr (s\<lparr>aa_route := r\<rparr>, Some c)))"

section \<open>The share of the preferred providers\<close>

lemma Affinity_Route_subset:
  "Affinity_Route fmt a ivks u call = Inr (res, call') \<Longrightarrow> set res \<subseteq> set ivks"
  unfolding Affinity_Route_def
  by (cases "af_matcher a") (auto elim!: go_bindE split: if_split_asm dest!: go_filter_subset)

interpretation affinity_router:
  priority_router "\<lambda>(fmt, a). Affinity_Route fmt a" "\<lambda>_ _ _. True"
  by unfold_locales (auto dest: Affinity_Route_subset)

text \<open>An enabled router has a matcher, and its percentage is one.\<close>

definition affinity_ok :: "affinityRoute \<Rightarrow> bool" where
  "affinity_ok a \<longleftrightarrow> (af_enabled a \<longrightarrow> af_matcher a \<noteq> None) \<and> 0 \<le> af_ratio a \<and> af_ratio a \<le> 100"

lemma affinity_ok_none [simp]: "affinity_ok no_affinity"
  by (simp add: affinity_ok_def no_affinity_def)

lemma affinity_ok_Process: "Affinity_Process yaml ev a = Inr a' \<Longrightarrow> affinity_ok a'"
  by (auto simp: Affinity_Process_def Let_def affinity_ok_def no_affinity_def
      split: if_split_asm go_any.split_asm sum.splits)

lemma enough_exact:
  assumes "0 < n" "n < 2 ^ 17" "k \<le> n" "0 \<le> ratio" "ratio \<le> 100"
  shows "enough k n ratio \<longleftrightarrow> ratio * int n \<le> 100 * int k"
proof -
  have "int n < 2 ^ 17" using assms(2) by simp
  then have "fl32 (of_int (int k)) = of_int (int k)" "fl32 (of_int (int n)) = of_int (int n)"
    "fl32 (of_int ratio) = of_int ratio" "fl32 (of_int 100) = of_int 100"
    using assms by (intro fl32_of_int; simp)+
  moreover have "fl32 (of_int ratio / of_int 100) \<le> fl32 (of_int (int k) / of_int (int n)) \<longleftrightarrow> ratio * int n \<le> int k * 100"
    using assms \<open>int n < 2 ^ 17\<close> by (intro fl32_fractions) auto
  ultimately show ?thesis by (simp only: enough_def float32_of_int_def mult.commute [of "int k"])
qed

text \<open>
  The matcher of a rule on a plain key compares the provider's value with the consumer's.  A key
  that starts like a condition on arguments or attachments, or holds a range, is read differently.
\<close>

definition plain_key :: "string \<Rightarrow> bool" where
  "plain_key key \<longleftrightarrow> word key \<and> CHR ''~'' \<notin> set key \<and>
     \<not> HasPrefix key ''attachments'' \<and> \<not> HasPrefix key ''arguments''"

definition value_matcher :: "string \<Rightarrow> cond_matcher" where
  "value_matcher key =
     \<lparr>m_kind = ParamConditionMatcher, m_key = key, m_matches = [''$'' @ key], m_misMatches = []\<rparr>"

lemma NewFieldMatcher_value:
  assumes "plain_key key"
  shows "NewFieldMatcher (key @ ''=$'' @ key) =
    Inr \<lparr>fm_rule = key @ ''=$'' @ key, fm_match = [(key, value_matcher key)]\<rparr>"
proof -
  have "word (''$'' @ key)"
    using assms by (simp add: plain_key_def word_def content_char_def sep_char_def space_char_def)
  then have "parseRule (print_rule [(key, False, [''$'' @ key])]) = Inr [(key, clause_matcher (key, False, [''$'' @ key]))]"
    using assms by (subst parseRule_clauses) (simp_all add: clause_ok_def plain_key_def)
  moreover have "print_rule [(key, False, [''$'' @ key])] = key @ ''=$'' @ key" by (simp add: print_values_def)
  moreover have "clause_matcher (key, False, [''$'' @ key]) = value_matcher key"
    using assms by (simp add: getMatcher_def value_matcher_def plain_key_def)
  ultimately show ?thesis by (simp add: NewFieldMatcher_def)
qed

lemma MatchInvoker_value:
  assumes "plain_key key" "url_ok (GetURL ivk)" "GetRawParam u key = w" "w \<noteq> ''''" "CHR ''*'' \<notin> set w"
  shows "MatchInvoker fmt \<lparr>fm_rule = r, fm_match = [(key, value_matcher key)]\<rparr> u ivk =
    Inr (flat_value (GetURL ivk) key = Some w)"
proof -
  obtain m where m: "ToMap (GetURL ivk) = Inr m" "map_of m key = flat_value (GetURL ivk) key"
    using ToMap_flat_value [OF assms(2)] by blast
  have plain: "\<not> scope_ShouldMatch (''$'' @ key)"
    using assms(1) Index_char_None [of "''$'' @ key" "CHR ''~''"] by (simp add: scope_ShouldMatch_def Contains_def plain_key_def)
  have wild: "wildcard_Match (''$'' @ key) v (Some u) \<longleftrightarrow> v = w" if "v \<noteq> ''''" for v
    using that assms(3-5) LastIndex_char_None [of w "CHR ''*''"] by (auto simp: wildcard_Match_def)
  show ?thesis
    using m assms(4) plain wild
    by (cases "flat_value (GetURL ivk) key")
      (auto simp: MatchInvoker_def doMatch_def Match_def GetValue_def value_matcher_def GetSampleValueFromURL_def
        IsMatch_def patternMatches_def doPatternMatch_def)
qed

lemma go_filter_pure: "(\<And>x. x \<in> set xs \<Longrightarrow> P x = Inr (Q x)) \<Longrightarrow> go_filter P xs = Inr (filter Q xs)"
  by (induction xs) auto

text \<open>
  C26.  From the text of an affinity rule to the providers of a call: the router returns exactly the
  providers with the consumer's value for the key when they make up at least the configured
  percentage of the candidates, and all candidates otherwise.  Up to 131071 candidates the
  comparison in \<^verbatim>\<open>float32\<close> is exact.  With a percentage of zero a call gets no provider at all when
  none has the value.
\<close>

theorem Affinity_Route_share:
  assumes "y_AffinityRouter yaml text = Inr cfg" "ar_Enabled cfg" "0 \<le> ar_Ratio cfg" "ar_Ratio cfg \<le> 100"
    and "plain_key key" "TrimSpace (ar_Key cfg) = key"
    and "Affinity_Process yaml \<lparr>ev_Key = k, ev_Value = GStr text, ev_ConfigType = EventTypeUpdate\<rparr> a = Inr a'"
    and "GetRawParam u key = w" "w \<noteq> ''''" "CHR ''*'' \<notin> set w"
    and "\<forall>ivk \<in> set ivks. url_ok (GetURL ivk)" "ivks \<noteq> []" "length ivks < 2 ^ 17"
  shows "Affinity_Route fmt a' ivks u call =
    (let same = filter (\<lambda>ivk. flat_value (GetURL ivk) key = Some w) ivks
     in Inr (if ar_Ratio cfg * int (length ivks) \<le> 100 * int (length same) then same else ivks, call))"
proof -
  let ?same = "filter (\<lambda>ivk. flat_value (GetURL ivk) key = Some w) ivks"
  let ?m = "\<lparr>fm_rule = key @ ''=$'' @ key, fm_match = [(key, value_matcher key)]\<rparr>"
  have "key \<noteq> ''''" using assms(5) by (auto simp: plain_key_def word_def)
  then have a': "a' = \<lparr>af_matcher = Some ?m, af_enabled = True, af_key = key, af_ratio = ar_Ratio cfg\<rparr>"
    using assms(1-7) NewFieldMatcher_value [OF assms(5)] by (simp add: Affinity_Process_def Let_def)
  have "go_filter (MatchInvoker fmt ?m u) ivks = Inr ?same"
    using assms(5,8-11) by (intro go_filter_pure MatchInvoker_value) auto
  moreover have "enough (length ?same) (length ivks) (ar_Ratio cfg) \<longleftrightarrow>
    ar_Ratio cfg * int (length ivks) \<le> 100 * int (length ?same)"
    using assms(3,4,12,13) by (intro enough_exact) auto
  ultimately show ?thesis using assms(12) by (simp add: Affinity_Route_def a' Let_def)
qed

definition region_peer :: "nat \<Rightarrow> string \<Rightarrow> invoker" where
  "region_peer n region = \<lparr>ivk_id = n, GetURL = NewURLWithOptions [WithParamsValue ''region'' region]\<rparr>"

definition region_rule :: yaml_decoder where
  "region_rule = \<lparr>y_configVersion = (\<lambda>_. Inr None), y_RouterConfig = (\<lambda>_. Inr DefaultRouterConfig),
     y_ConditionRouter = (\<lambda>_. Inl (PlainError '''')),
     y_AffinityRouter = (\<lambda>_. Inr \<lparr>ar_Enabled = True, ar_Key = '' region'', ar_Ratio = 50\<rparr>)\<rparr>"

theorem Affinity_Route_share_witness:
  "\<exists>a. Affinity_Process region_rule \<lparr>ev_Key = ''app.affinity-router'', ev_Value = GStr ''rule'', ev_ConfigType = EventTypeUpdate\<rparr>
       no_affinity = Inr a \<and>
     Affinity_Route (\<lambda>_. '''') a [region_peer 7 ''eu'', region_peer 8 ''us''] (GetURL (region_peer 9 ''eu''))
       (NewRPCInvocation ''Greet'' None None) = Inr ([region_peer 7 ''eu''], NewRPCInvocation ''Greet'' None None)"
proof -
  let ?ev = "\<lparr>ev_Key = ''app.affinity-router'', ev_Value = GStr ''rule'', ev_ConfigType = EventTypeUpdate\<rparr>"
  have key: "plain_key ''region''" "TrimSpace '' region'' = ''region''"
    "GetRawParam (GetURL (region_peer 9 ''eu'')) ''region'' = ''eu''" by code_simp+
  obtain a where a: "Affinity_Process region_rule ?ev no_affinity = Inr a"
    using NewFieldMatcher_value [OF key(1)] key(2) by (simp add: Affinity_Process_def region_rule_def Let_def)
  have ok: "url_ok (GetURL (region_peer n r))" for n r by (simp add: region_peer_def url_eval)
  have "flat_value (GetURL (region_peer n r)) ''region'' = Some r" for n r
    by (simp add: region_peer_def url_eval flat_value_def reservedKeyList_def first_values_def)
  then show ?thesis
    using a Affinity_Route_share [OF _ _ _ _ key(1) _ a key(3), of _ "[region_peer 7 ''eu'', region_peer 8 ''us'']"] ok key(2)
    by (simp add: region_rule_def Let_def)
qed

end
