(* ===== verification/Script_Router.thy ===== *)
theory Script_Router
  imports Router_Config
begin

text \<open>
  The script router (\<^verbatim>\<open>cluster/router/script\<close>) with its JavaScript engine (\<^verbatim>\<open>script/instance\<close>): the
  engine keeps the compiled scripts of all routers with reference counts, and a router runs its
  script on wrappers of the invokers.  The JavaScript interpreter is a parameter.  Compiling is one
  step here.  In the code it looks a script up under the read lock and increments the count after
  releasing it, so the counts shown below are those of rule events that arrive one at a time.
\<close>

section \<open>The engine\<close>

text \<open>
  What the interpreter does: whether a program compiles, and what a run makes of the wrapped
  invokers and the invocation.  A run ends with an error or a value; an array is known by its
  elements, of which \<open>JsWrapper i\<close> is the \<open>i\<close>-th wrapper handed in.  It leaves the URLs of the
  wrappers, the invocation and the header of the context as the script changed them.
\<close>

datatype js_elem = JsWrapper nat | JsNull | JsOther string

datatype js_value = JsArray "js_elem list" | JsObject | JsPrimitive

record js_lib =
  js_compile :: "string \<Rightarrow> go_error option"
  js_run :: "string \<Rightarrow> invoker list \<Rightarrow> RPCInvocation \<Rightarrow>
    (go_error + js_value) \<times> url list \<times> (string \<times> string list) list \<times> RPCInvocation"

abbreviation jsScriptPrefix :: string where "jsScriptPrefix \<equiv> CHR 0x0A # ''__go_program_result = ''"

text \<open>\<^verbatim>\<open>strings.ToLower\<close> on ASCII text, as script types and header names are.\<close>

definition lower :: "char \<Rightarrow> char" where
  "lower c = (if 65 \<le> (of_char c :: nat) \<and> (of_char c :: nat) \<le> 90 then char_of (of_char c + 32 :: nat) else c)"

abbreviation ToLower :: "string \<Rightarrow> string" where "ToLower s \<equiv> map lower s"

text \<open>The scripts in use with their reference counts, of type \<^verbatim>\<open>int32\<close>.\<close>

type_synonym programs = "(string \<times> int) list"

definition js_Compile :: "js_lib \<Rightarrow> string \<Rightarrow> programs \<Rightarrow> go_error option \<times> programs" where
  "js_Compile L rawScript progs =
     (case map_of progs rawScript of
        Some n \<Rightarrow> (None, map_put rawScript (wrap32 (n + 1)) progs)
      | None \<Rightarrow>
          (case js_compile L (jsScriptPrefix @ rawScript) of
             Some e \<Rightarrow> (Some e, progs)
           | None \<Rightarrow> (None, map_put rawScript 1 progs)))"

definition js_Destroy :: "string \<Rightarrow> programs \<Rightarrow> programs" where
  "js_Destroy rawScript progs =
     (case map_of progs rawScript of
        Some n \<Rightarrow> if wrap32 (n - 1) = 0 then map_del rawScript progs else map_put rawScript (wrap32 (n - 1)) progs
      | None \<Rightarrow> progs)"

text \<open>
  The wrapper a script sees instead of an invoker, with a copy of its URL: it refuses calls until
  the script has returned it.  Wrappers are new objects; \<open>nxt\<close> is the first unused address.
\<close>

record scriptInvokerWrapper =
  w_id :: nat
  w_isRan :: bool
  w_copiedURL :: url
  w_invoker :: invoker

definition newScriptInvokerImpl :: "nat \<Rightarrow> invoker \<Rightarrow> scriptInvokerWrapper" where
  "newScriptInvokerImpl nxt ivk =
     \<lparr>w_id = nxt, w_isRan = False, w_copiedURL = Clone (GetURL ivk), w_invoker = ivk\<rparr>"

definition setRanMode :: "scriptInvokerWrapper \<Rightarrow> scriptInvokerWrapper" where
  "setRanMode w = w\<lparr>w_isRan := True\<rparr>"

definition wrapper_IsAvailable :: "(invoker \<Rightarrow> bool) \<Rightarrow> scriptInvokerWrapper \<Rightarrow> bool" where
  "wrapper_IsAvailable avail w = (if \<not> w_isRan w then True else avail (w_invoker w))"

definition wrapper_Invoke :: "(invoker \<Rightarrow> 'r go) \<Rightarrow> scriptInvokerWrapper \<Rightarrow> 'r go" where
  "wrapper_Invoke call w =
     (if \<not> w_isRan w then Inl (Panicked ''Invoke should not be called'') else call (w_invoker w))"

definition wrapper_Destroy :: "(invoker \<Rightarrow> 'r go) \<Rightarrow> scriptInvokerWrapper \<Rightarrow> 'r go" where
  "wrapper_Destroy destroy w =
     (if \<not> w_isRan w then Inl (Panicked ''Destroy should not be called'') else destroy (w_invoker w))"

text \<open>A wrapper as the cluster layer sees it.\<close>

definition as_invoker :: "scriptInvokerWrapper \<Rightarrow> invoker" where
  "as_invoker w = \<lparr>ivk_id = w_id w, GetURL = w_copiedURL w\<rparr>"

definition MergeAttachmentFromContext :: "(string \<times> string list) list \<Rightarrow> RPCInvocation \<Rightarrow> RPCInvocation" where
  "MergeAttachmentFromContext header call =
     fold (\<lambda>(k, v) call. SetAttachment call (ToLower k) (case v of [x] \<Rightarrow> GStr x | _ \<Rightarrow> GStrs v)) header call"

text \<open>The wrappers an array stands for, or the error for an element that is none.\<close>

fun collect_wrappers ::
  "scriptInvokerWrapper list \<Rightarrow> js_elem list \<Rightarrow> (go_error + scriptInvokerWrapper list) go" where
  "collect_wrappers packed [] = Inr (Inr [])"
| "collect_wrappers packed (JsWrapper i # es) =
     go_bind (go_nth packed i) (\<lambda>w.
     go_bind (collect_wrappers packed es) (\<lambda>r.
       Inr (case r of Inl e \<Rightarrow> Inl e | Inr ws \<Rightarrow> Inr (setRanMode w # ws))))"
| "collect_wrappers packed (JsOther t # es) = Inr (Inl (PlainError (''invalid element type : '' @ t)))"
| "collect_wrappers packed (JsNull # es) = Inl NilDereference"

text \<open>
  A run hands back the original invokers (\<open>Inl\<close>) when the script is not compiled, there are none,
  or it fails; otherwise the wrappers the script returned (\<open>Inr\<close>).
\<close>

definition js_Run ::
  "js_lib \<Rightarrow> string \<Rightarrow> programs \<Rightarrow> nat \<Rightarrow> invoker list \<Rightarrow> RPCInvocation \<Rightarrow>
   ((invoker list + scriptInvokerWrapper list) \<times> go_error option \<times> RPCInvocation) go" where
  "js_Run L rawScript progs nxt ivks call =
     (if map_of progs rawScript = None \<or> length ivks = 0 then Inr (Inl ivks, None, call)
      else
        let packInvokers = map (\<lambda>(i, ivk). newScriptInvokerImpl i ivk) (List.enumerate nxt ivks);
            (scriptRes, urls, header, call) = js_run L rawScript (map as_invoker packInvokers) call;
            packInvokers = map2 (\<lambda>w u. w\<lparr>w_copiedURL := u\<rparr>) packInvokers urls
        in case scriptRes of
             Inl e \<Rightarrow> Inr (Inl ivks, Some e, call)
           | Inr v \<Rightarrow>
               let call = MergeAttachmentFromContext header call
               in case v of
                    JsPrimitive \<Rightarrow> Inl (Panicked ''interface conversion'')
                  | JsObject \<Rightarrow> Inr (Inl ivks, Some (PlainError ''script result is not array''), call)
                  | JsArray es \<Rightarrow>
                      go_bind (collect_wrappers packInvokers es) (\<lambda>r.
                        Inr (case r of Inl e \<Rightarrow> (Inl ivks, Some e, call) | Inr ws \<Rightarrow> (Inr ws, None, call))))"

definition GetInstances :: "string \<Rightarrow> go_error option" where
  "GetInstances scriptType =
     (if ToLower scriptType = ''javascript'' then None
      else Some (PlainError (''script type not be loaded: '' @ scriptType)))"

section \<open>The router\<close>

record ScriptRouter =
  s_applicationName :: string
  s_enabled :: bool
  s_scriptType :: string
  s_rawScript :: string

definition NewScriptRouter :: ScriptRouter where
  "NewScriptRouter = \<lparr>s_applicationName = '''', s_enabled = False, s_scriptType = '''', s_rawScript = ''''\<rparr>"

definition install :: "js_lib \<Rightarrow> RouterConfig \<Rightarrow> ScriptRouter \<times> programs \<Rightarrow> ScriptRouter \<times> programs" where
  "install L cfg = (\<lambda>(s, progs).
     if rc_ScriptType cfg = '''' \<or> rc_Script cfg = '''' \<or> rc_Key cfg = '''' then (s, progs)
     else
       let s = s\<lparr>s_enabled := (rc_Enabled cfg \<noteq> Some False), s_rawScript := rc_Script cfg, s_scriptType := rc_ScriptType cfg\<rparr>
       in if GetInstances (s_scriptType s) \<noteq> None then (s\<lparr>s_enabled := False\<rparr>, progs)
          else if s_enabled s
          then (case js_Compile L (s_rawScript s) progs of
                  (None, progs) \<Rightarrow> (s, progs)
                | (Some _, progs) \<Rightarrow> (s\<lparr>s_enabled := False\<rparr>, progs))
          else (s, progs))"

definition Script_Process ::
  "js_lib \<Rightarrow> yaml_decoder \<Rightarrow> ConfigChangeEvent \<Rightarrow> ScriptRouter \<times> programs \<Rightarrow> ScriptRouter \<times> programs" where
  "Script_Process L yaml ev = (\<lambda>(s, progs).
     if ev_ConfigType ev = EventTypeDel
     then (s\<lparr>s_enabled := False, s_rawScript := '''', s_scriptType := ''''\<rparr>,
           if GetInstances (s_scriptType s) = None \<and> s_enabled s then js_Destroy (s_rawScript s) progs else progs)
     else case ev_Value ev of
            GStr rawConf \<Rightarrow>
              (case y_RouterConfig yaml rawConf of
                 Inl _ \<Rightarrow> (s, progs)
               | Inr cfg \<Rightarrow>
                   install L cfg (s,
                     if s_enabled s \<and> s_scriptType s \<noteq> '''' \<and> GetInstances (s_scriptType s) = None
                     then js_Destroy (s_rawScript s) progs else progs))
          | _ \<Rightarrow> (s, progs))"

text \<open>A script whose type is not loaded returns nil.\<close>

definition runScript ::
  "js_lib \<Rightarrow> string \<Rightarrow> string \<Rightarrow> programs \<Rightarrow> nat \<Rightarrow> invoker list \<Rightarrow> RPCInvocation \<Rightarrow>
   ((invoker list + scriptInvokerWrapper list) \<times> go_error option \<times> RPCInvocation) go" where
  "runScript L scriptType rawScript progs nxt ivks call =
     (case GetInstances scriptType of
        Some e \<Rightarrow> Inr (Inl [], Some e, call)
      | None \<Rightarrow> js_Run L rawScript progs nxt ivks call)"

definition Script_Route ::
  "js_lib \<Rightarrow> ScriptRouter \<Rightarrow> programs \<Rightarrow> nat \<Rightarrow> invoker list \<Rightarrow> url \<Rightarrow> RPCInvocation \<Rightarrow>
   ((invoker list + scriptInvokerWrapper list) \<times> RPCInvocation) go" where
  "Script_Route L s progs nxt ivks u call =
     (if length ivks = 0 then Inr (Inl [], call)
      else if \<not> s_enabled s \<or> s_scriptType s = '''' \<or> s_rawScript s = '''' then Inr (Inl ivks, call)
      else go_bind (runScript L (s_scriptType s) (s_rawScript s) progs nxt ivks call)
             (\<lambda>(res, _, call). Inr (res, call)))"

definition Script_Priority :: int where "Script_Priority = 0"

abbreviation ScriptRouterRuleSuffix :: string where "ScriptRouterRuleSuffix \<equiv> ''.script-router''"

text \<open>A rule that cannot be queried is processed as an empty one.\<close>

definition Script_Notify ::
  "js_lib \<Rightarrow> yaml_decoder \<Rightarrow> nat \<Rightarrow> invoker list \<Rightarrow> ScriptRouter \<times> programs \<times> conf_center option \<Rightarrow>
   ScriptRouter \<times> programs \<times> conf_center option" where
  "Script_Notify L yaml self ivks = (\<lambda>(s, progs, cc).
     if length ivks = 0 then (s, progs, cc)
     else case cc of
            None \<Rightarrow> (s, progs, cc)
          | Some c \<Rightarrow>
              let provider = GetParam (GetURL (ivks ! 0)) ApplicationKey ''''
              in if provider = '''' \<or> provider = s_applicationName s then (s, progs, cc)
                 else
                   let c = (if s_applicationName s \<noteq> ''''
                            then subscribe (RemoveListener (s_applicationName s @ ScriptRouterRuleSuffix) self) c else c);
                       key = provider @ ScriptRouterRuleSuffix;
                       c = subscribe (AddListener key self) c;
                       s = s\<lparr>s_applicationName := provider\<rparr>;
                       rule = (case cc_GetRule c key of Inl _ \<Rightarrow> '''' | Inr v \<Rightarrow> v);
                       (s, progs) = Script_Process L yaml
                         \<lparr>ev_Key = key, ev_Value = GStr rule, ev_ConfigType = EventTypeUpdate\<rparr> (s, progs)
                   in (s, progs, Some c))"

section \<open>Reference counts\<close>

text \<open>How often a script is in use, and how many routers use it.\<close>

definition references :: "programs \<Rightarrow> string \<Rightarrow> int" where
  "references progs script = (case map_of progs script of None \<Rightarrow> 0 | Some n \<Rightarrow> n)"

definition uses :: "string \<Rightarrow> ScriptRouter \<Rightarrow> nat" where
  "uses script s = (if s_enabled s \<and> s_rawScript s = script then 1 else 0)"

definition programs_ok :: "programs \<Rightarrow> bool" where
  "programs_ok progs \<longleftrightarrow> (\<forall>script n. map_of progs script = Some n \<longrightarrow> 0 < n)"

definition router_ok :: "ScriptRouter \<Rightarrow> bool" where
  "router_ok s \<longleftrightarrow> (s_enabled s \<longrightarrow> GetInstances (s_scriptType s) = None)"

lemma GetInstances_nonempty: "GetInstances ty = None \<Longrightarrow> ty \<noteq> ''''"
  by (auto simp: GetInstances_def split: if_split_asm)

lemma programs_ok_put: "programs_ok progs \<Longrightarrow> 0 < n \<Longrightarrow> programs_ok (map_put script n progs)"
  by (simp add: programs_ok_def)

lemma references_put: "references (map_put script n progs) t = (if t = script then n else references progs t)"
  by (simp add: references_def)

lemma references_Destroy:
  assumes "programs_ok progs" "0 < references progs script" "references progs script < 2 ^ 31"
  shows "programs_ok (js_Destroy script progs)"
    "references (js_Destroy script progs) t = references progs t - (if t = script then 1 else 0)"
proof -
  obtain n where n: "map_of progs script = Some n" "0 < n" "n < 2 ^ 31"
    using assms by (cases "map_of progs script") (auto simp: references_def)
  then have w: "wrap32 (n - 1) = n - 1" by simp
  show "programs_ok (js_Destroy script progs)"
    using assms(1) n(2) by (auto simp: js_Destroy_def n(1) w programs_ok_def)
  show "references (js_Destroy script progs) t = references progs t - (if t = script then 1 else 0)"
    by (simp add: js_Destroy_def n(1) w references_def)
qed

lemma references_Compile:
  assumes "programs_ok progs" "references progs script + 1 < 2 ^ 31" "js_Compile L script progs = (None, progs')"
  shows "programs_ok progs'" "references progs' t = references progs t + (if t = script then 1 else 0)"
proof -
  have "programs_ok progs' \<and> references progs' t = references progs t + (if t = script then 1 else 0)"
  proof (cases "map_of progs script")
    case None
    then have "progs' = map_put script 1 progs"
      using assms(3) by (auto simp: js_Compile_def split: option.split_asm)
    moreover have "references progs script = 0" by (simp add: references_def None)
    ultimately show ?thesis using assms(1) by (simp add: programs_ok_put references_put)
  next
    case (Some n)
    then have "0 < n" "n + 1 < 2 ^ 31" using assms(1,2) by (auto simp: references_def programs_ok_def)
    then have w: "wrap32 (n + 1) = n + 1" by simp
    have "progs' = map_put script (n + 1) progs" using assms(3) Some w by (simp add: js_Compile_def)
    moreover have "references progs script = n" by (simp add: references_def Some)
    ultimately show ?thesis using \<open>0 < n\<close> assms(1) by (simp add: programs_ok_put references_put)
  qed
  then show "programs_ok progs'" "references progs' t = references progs t + (if t = script then 1 else 0)"
    by auto
qed

lemma js_Compile_error: "js_Compile L script progs = (Some e, progs') \<Longrightarrow> progs' = progs"
  by (auto simp: js_Compile_def split: option.split_asm)

text \<open>Taking on a complete rule adds the router's use of its script.\<close>

lemma install_references:
  assumes "install L cfg (s, progs) = (s', progs')"
    and "rc_ScriptType cfg \<noteq> ''''" "rc_Script cfg \<noteq> ''''" "rc_Key cfg \<noteq> ''''"
    and "programs_ok progs" "\<And>t. references progs t + 1 < 2 ^ 31"
  shows "router_ok s' \<and> programs_ok progs' \<and> references progs' t = references progs t + int (uses t s')"
proof (cases "GetInstances (rc_ScriptType cfg) \<noteq> None \<or> rc_Enabled cfg = Some False")
  case True
  then show ?thesis using assms
    by (auto simp: install_def router_ok_def uses_def Let_def split: if_split_asm)
next
  case False
  obtain e progs'' where c: "js_Compile L (rc_Script cfg) progs = (e, progs'')" by force
  show ?thesis
  proof (cases e)
    case None
    then show ?thesis
      using False c assms references_Compile(1) [OF assms(5) assms(6) c [unfolded None]]
        references_Compile(2) [OF assms(5) assms(6) c [unfolded None], of t]
      by (auto simp: install_def router_ok_def uses_def Let_def)
  next
    case (Some x)
    then have "progs'' = progs" using c js_Compile_error by blast
    then show ?thesis
      using False Some c assms by (auto simp: install_def router_ok_def uses_def Let_def)
  qed
qed

text \<open>A rule text that says what it must: a deletion, no valid rule, or a rule with all its fields.\<close>

definition complete :: "yaml_decoder \<Rightarrow> ConfigChangeEvent \<Rightarrow> bool" where
  "complete yaml ev \<longleftrightarrow>
     (case ev_Value ev of
        GStr c \<Rightarrow>
          (case y_RouterConfig yaml c of
             Inl _ \<Rightarrow> True
           | Inr cfg \<Rightarrow> rc_ScriptType cfg \<noteq> '''' \<and> rc_Script cfg \<noteq> '''' \<and> rc_Key cfg \<noteq> '''')
      | _ \<Rightarrow> True) \<or> ev_ConfigType ev = EventTypeDel"

text \<open>One event: the counts change by the difference of what the router used and uses.\<close>

lemma Script_Process_references:
  assumes "Script_Process L yaml ev (s, progs) = (s', progs')" "complete yaml ev"
    and "router_ok s" "programs_ok progs"
    and uses: "\<And>t. int (uses t s) \<le> references progs t"
    and few: "\<And>t. references progs t + 1 < 2 ^ 31"
  shows "router_ok s' \<and> programs_ok progs' \<and>
    references progs' t = references progs t - int (uses t s) + int (uses t s')"
proof -
  define dropped where
    "dropped = (if s_enabled s \<and> GetInstances (s_scriptType s) = None then js_Destroy (s_rawScript s) progs else progs)"
  have released: "programs_ok dropped \<and> references dropped t = references progs t - int (uses t s)" for t
  proof (cases "s_enabled s")
    case True
    then have "0 < references progs (s_rawScript s)" using uses [of "s_rawScript s"] by (simp add: uses_def)
    moreover have "references progs (s_rawScript s) < 2 ^ 31" using few [of "s_rawScript s"] by simp
    ultimately show ?thesis
      using True assms(3,4) references_Destroy(1) [of progs "s_rawScript s"]
        references_Destroy(2) [of progs "s_rawScript s" t]
      by (auto simp: dropped_def router_ok_def uses_def)
  qed (use assms(4) in \<open>simp add: dropped_def uses_def\<close>)
  have "references dropped t + 1 < 2 ^ 31" for t using released [of t] few [of t] by simp
  note inst = install_references [OF _ _ _ _ conjunct1 [OF released] this]
  show ?thesis
  proof (cases "ev_ConfigType ev = EventTypeDel")
    case True
    then have "s' = s\<lparr>s_enabled := False, s_rawScript := '''', s_scriptType := ''''\<rparr>" "progs' = dropped"
      using assms(1) by (auto simp: Script_Process_def dropped_def split: if_split_asm)
    then show ?thesis using released [of t] by (simp add: router_ok_def uses_def)
  next
    case False
    show ?thesis
    proof (cases "\<exists>c cfg. ev_Value ev = GStr c \<and> y_RouterConfig yaml c = Inr cfg")
      case True
      then obtain c cfg where c: "ev_Value ev = GStr c" "y_RouterConfig yaml c = Inr cfg" by blast
      have "install L cfg (s, dropped) = (s', progs')"
        using False c assms(1) GetInstances_nonempty
        by (auto simp: Script_Process_def dropped_def split: if_split_asm)
      with c False assms(2) show ?thesis using inst [of L cfg s s' progs' t] released [of t]
        by (simp add: complete_def)
    next
      case other: False
      then have "s' = s" "progs' = progs"
        using False assms(1) by (auto simp: Script_Process_def split: go_any.split_asm sum.split_asm)
      then show ?thesis using assms(3,4) by simp
    qed
  qed
qed

text \<open>
  The script routers of a process share the engine; a step hands a complete event to one of them.
\<close>

inductive script_system :: "js_lib \<Rightarrow> yaml_decoder \<Rightarrow> ScriptRouter list \<Rightarrow> programs \<Rightarrow> bool"
  for L yaml where
  start: "script_system L yaml (replicate n NewScriptRouter) []"
| event: "script_system L yaml rs progs \<Longrightarrow> i < length rs \<Longrightarrow> complete yaml ev \<Longrightarrow>
    Script_Process L yaml ev (rs ! i, progs) = (s', progs') \<Longrightarrow>
    script_system L yaml (rs[i := s']) progs'"

abbreviation users :: "string \<Rightarrow> ScriptRouter list \<Rightarrow> nat" where
  "users script rs \<equiv> sum_list (map (uses script) rs)"

lemma users_le: "users script rs \<le> length rs"
  by (induction rs) (auto simp: uses_def)

lemma script_system_invariant:
  assumes "script_system L yaml rs progs" "length rs + 1 < 2 ^ 31"
  shows "(\<forall>s\<in>set rs. router_ok s) \<and> programs_ok progs \<and> (\<forall>t. references progs t = int (users t rs))"
  using assms
proof (induction rule: script_system.induct)
  case (start n)
  have "users t (replicate n NewScriptRouter) = 0" for t
    by (induction n) (auto simp: uses_def NewScriptRouter_def)
  then show ?case by (auto simp: router_ok_def NewScriptRouter_def programs_ok_def references_def)
next
  case (event rs progs i ev s' progs')
  then have IH: "\<forall>s\<in>set rs. router_ok s" "programs_ok progs" "\<And>t. references progs t = int (users t rs)" by auto
  have "uses t (rs ! i) \<le> users t rs" for t
    using event.hyps(2) elem_le_sum_list [of i "map (uses t) rs"] by simp
  then have u: "int (uses t (rs ! i)) \<le> references progs t" for t by (simp add: IH(3))
  have few: "references progs t + 1 < 2 ^ 31" for t
    using users_le [of t rs] event.prems by (simp add: IH(3))
  note step = Script_Process_references [OF event.hyps(4,3) _ IH(2) u few]
  have "router_ok (rs ! i)" using IH(1) event.hyps(2) by simp
  note step = step [OF this]
  have "users t (rs[i := s']) = users t rs + uses t s' - uses t (rs ! i)" for t
    using event.hyps(2) by (simp add: map_update sum_list_update)
  then have "references progs' t = int (users t (rs[i := s']))" for t
    using step [of t] \<open>\<And>t. uses t (rs ! i) \<le> users t rs\<close> [of t] by (simp add: IH(3) of_nat_diff)
  then show ?case using step [of "''''"] IH(1) by (auto dest!: set_update_subset_insert [THEN subsetD])
qed

text \<open>So a router that is enabled always finds its script compiled.\<close>

lemma enabled_script_compiled:
  assumes "script_system L yaml rs progs" "length rs + 1 < 2 ^ 31" "s \<in> set rs" "s_enabled s"
  shows "map_of progs (s_rawScript s) \<noteq> None"
proof -
  have "uses (s_rawScript s) s \<le> users (s_rawScript s) rs"
    using assms(3) by (intro member_le_sum_list) auto
  then have "0 < references progs (s_rawScript s)"
    using script_system_invariant [OF assms(1,2)] assms(4) by (auto simp: uses_def)
  then show ?thesis by (auto simp: references_def split: option.split_asm)
qed

section \<open>What a script returns\<close>

lemma collect_wrappers_ran:
  "collect_wrappers packed es = Inr (Inr ws) \<Longrightarrow>
     set ws \<subseteq> setRanMode ` set packed"
  by (induction packed es arbitrary: ws rule: collect_wrappers.induct)
     (auto simp: go_bind_def go_nth_def split: sum.split_asm if_split_asm)

lemma js_Run_wraps:
  assumes "js_Run L rawScript progs nxt ivks call = Inr (Inr ws, e, call')" "w \<in> set ws"
  shows "w_isRan w \<and> w_invoker w \<in> set ivks \<and> nxt \<le> w_id w \<and> w_id w < nxt + length ivks"
proof -
  define packed where "packed = map (\<lambda>(i, ivk). newScriptInvokerImpl i ivk) (List.enumerate nxt ivks)"
  obtain res urls header call'' where r: "js_run L rawScript (map as_invoker packed) call = (res, urls, header, call'')"
    by (cases "js_run L rawScript (map as_invoker packed) call") auto
  have "\<exists>es. collect_wrappers (map2 (\<lambda>w u. w\<lparr>w_copiedURL := u\<rparr>) packed urls) es = Inr (Inr ws)"
    using assms(1) r unfolding js_Run_def packed_def [symmetric]
    by (auto simp: Let_def go_bind_def split: if_split_asm sum.split_asm js_value.split_asm)
  then obtain v u where "w = setRanMode (v\<lparr>w_copiedURL := u\<rparr>)" "v \<in> set packed"
    using collect_wrappers_ran assms(2) by (fastforce dest: set_zip_leftD)
  then show ?thesis
    by (auto simp: packed_def newScriptInvokerImpl_def setRanMode_def in_set_enumerate_eq)
qed

section \<open>Properties\<close>

text \<open>
  Two routers of one application, a decoder that knows a complete rule and one without a script,
  and an interpreter that compiles everything.
\<close>

definition sample_engine :: js_lib where
  "sample_engine = \<lparr>js_compile = \<lambda>_. None,
     js_run = \<lambda>_ ivks call. (Inr (JsArray [JsWrapper 0]), map GetURL ivks, [], call)\<rparr>"

definition sample_decoder :: yaml_decoder where
  "sample_decoder =
     \<lparr>y_configVersion = \<lambda>_. Inr None,
      y_RouterConfig = \<lambda>text.
        Inr (if text = ''full''
             then DefaultRouterConfig\<lparr>rc_Key := ''shop'', rc_ScriptType := ''javascript'', rc_Script := ''first''\<rparr>
             else DefaultRouterConfig\<lparr>rc_Key := ''shop'', rc_ScriptType := ''javascript''\<rparr>),
      y_ConditionRouter = \<lambda>_. Inl (PlainError ''no rule''),
      y_AffinityRouter = \<lambda>_. Inl (PlainError ''no rule'')\<rparr>"

definition sample_event :: "string \<Rightarrow> ConfigChangeEvent" where
  "sample_event text = \<lparr>ev_Key = ''shop.script-router'', ev_Value = GStr text, ev_ConfigType = EventTypeUpdate\<rparr>"

abbreviation sample_script_router :: ScriptRouter where
  "sample_script_router \<equiv>
     \<lparr>s_applicationName = '''', s_enabled = True, s_scriptType = ''javascript'', s_rawScript = ''first''\<rparr>"

lemma GetInstances_javascript [simp]: "GetInstances ''javascript'' = None"
  by code_simp

lemmas script_eval = sample_engine_def sample_decoder_def sample_event_def DefaultRouterConfig_def
  NewScriptRouter_def Script_Process_def install_def js_Compile_def js_Destroy_def complete_def Let_def map_del_def

lemma sample_full: "Script_Process sample_engine sample_decoder (sample_event ''full'') (NewScriptRouter, []) =
    (sample_script_router, [(''first'', 1)])"
  by (simp add: script_eval)

lemma sample_full_again:
  "Script_Process sample_engine sample_decoder (sample_event ''full'') (NewScriptRouter, [(''first'', 1)]) =
    (sample_script_router, [(''first'', 2)])"
  by (simp add: script_eval)

text \<open>
  A rule without its script gives up the old one each time it arrives although the router stays
  enabled: after two of them the script is gone for the second router too.
\<close>

lemma incomplete_rule_unloads:
  "(Script_Process sample_engine sample_decoder (sample_event ''partial'') ^^ 2) (sample_script_router, [(''first'', 2)]) =
    (sample_script_router, [])"
  by (simp add: script_eval numeral_2_eq_2)

text \<open>
  C25 (the reference counts of the scripts): the script routers of a process share one engine.
  After any sequence of complete rule events, each handed to one of the routers in turn, the
  engine counts for every script exactly the routers that are enabled with it, so a script is
  loaded while some router uses it and dropped when the last one gives it up.
\<close>

theorem script_references:
  assumes "script_system L yaml rs progs" "length rs + 1 < 2 ^ 31"
  shows "references progs script = int (sum_list (map (uses script) rs))"
  using script_system_invariant [OF assms] by blast

theorem script_references_witness:
  "script_system sample_engine sample_decoder [sample_script_router, sample_script_router] [(''first'', 2)] \<and>
   references [(''first'', 2)] ''first'' = 2"
proof -
  have "script_system sample_engine sample_decoder [NewScriptRouter, NewScriptRouter] []"
    using script_system.start [of sample_engine sample_decoder 2] by (simp add: numeral_2_eq_2)
  from script_system.event [OF this, of 0 "sample_event ''full''"] sample_full
  have "script_system sample_engine sample_decoder [sample_script_router, NewScriptRouter] [(''first'', 1)]"
    by (simp add: script_eval)
  from script_system.event [OF this, of 1 "sample_event ''full''"] sample_full_again
  have s: "script_system sample_engine sample_decoder [sample_script_router, sample_script_router] [(''first'', 2)]"
    by (simp add: script_eval)
  then show ?thesis using script_references [OF s, of "''first''"] by (simp add: uses_def)
qed

end
