(* ===== verification/Router_Chain.thy ===== *)
theory Router_Chain
  imports Tag_Router Affinity_Router Script_Router
begin

text \<open>
  The chain of routers (\<^verbatim>\<open>cluster/router/chain\<close>): it holds the invokers of a directory with the
  generation of that list, an index of them for the routers that can use one, and the routers in
  the order of their priorities.  A call is routed on a snapshot of the invokers while the
  directory may set new ones.  Setting new invokers is one step here.  In the code the index is
  rebuilt before the routers are told about the new invokers, and a call does not hold the lock of the
  chain; the states in between are not among those a call sees here.
\<close>

section \<open>Routers behind their interface\<close>

text \<open>
  The routers as objects.  The flag of a tag router says that it was given the cache of its chain.
  The application affinity router of a URL without an application is a nil pointer in a non-nil
  interface value, \<open>AppAffinityRoute None\<close>.
\<close>

datatype router_object =
  ServiceRouter DynamicRouter
| AppRouter ApplicationRouter
| TagRouter tag_rules bool
| ServiceAffinityRoute affinityRoute
| AppAffinityRoute "ApplicationAffinityRoute option"
| ScriptPriorityRouter ScriptRouter

text \<open>What the routers take from outside: formatting, the libraries, and reading a router list from an attribute.\<close>

record 'b router_env =
  e_fmt :: "go_any \<Rightarrow> string"
  e_regex :: "string \<Rightarrow> string \<Rightarrow> bool"
  e_bitmap :: "'b roaring"
  e_yaml :: yaml_decoder
  e_js :: js_lib
  e_RouterConfigs :: "go_any \<Rightarrow> RouterConfig option list option"

text \<open>The objects by their addresses, the script engine, the configuration center and the first unused address.\<close>

record world =
  w_objects :: "(nat \<times> router_object) list"
  w_programs :: programs
  w_center :: "conf_center option"
  w_fresh :: nat

definition object :: "world \<Rightarrow> nat \<Rightarrow> router_object go" where
  "object w p = (case map_of (w_objects w) p of None \<Rightarrow> Inl NilDereference | Some r \<Rightarrow> Inr r)"

definition router_Priority :: "router_object \<Rightarrow> int go" where
  "router_Priority r =
     (case r of
        ServiceRouter _ \<Rightarrow> Inr ServiceRouter_Priority
      | AppRouter _ \<Rightarrow> Inr ApplicationRouter_Priority
      | TagRouter _ _ \<Rightarrow> Inr Tag_Priority
      | ServiceAffinityRoute _ \<Rightarrow> Inr Affinity_Priority
      | AppAffinityRoute None \<Rightarrow> Inl NilDereference
      | AppAffinityRoute (Some _) \<Rightarrow> Inr Affinity_Priority
      | ScriptPriorityRouter _ \<Rightarrow> Inr Script_Priority)"

text \<open>A call of \<^verbatim>\<open>Route\<close>; the second result are the wrappers a script router made.\<close>

definition router_Route ::
  "'b router_env \<Rightarrow> (nat \<Rightarrow> nat) \<Rightarrow> 'b routerCache option \<Rightarrow> world \<Rightarrow> router_object \<Rightarrow>
   invoker list \<Rightarrow> url \<Rightarrow> RPCInvocation \<Rightarrow> (invoker list \<times> scriptInvokerWrapper list \<times> RPCInvocation) go" where
  "router_Route env draws cache w r ivks u call =
     (case r of
        ServiceRouter d \<Rightarrow>
          go_bind (DynamicRouter_Route (e_fmt env) draws d ivks u call) (\<lambda>(res, call). Inr (res, [], call))
      | AppRouter a \<Rightarrow>
          go_bind (DynamicRouter_Route (e_fmt env) draws (app_router a) ivks u call) (\<lambda>(res, call). Inr (res, [], call))
      | TagRouter rules cached \<Rightarrow>
          go_bind (Tag_Route (e_regex env) (e_bitmap env) (if cached then cache else None) rules ivks u call)
            (\<lambda>(res, call). Inr (res, [], call))
      | ServiceAffinityRoute a \<Rightarrow>
          go_bind (Affinity_Route (e_fmt env) a ivks u call) (\<lambda>(res, call). Inr (res, [], call))
      | AppAffinityRoute None \<Rightarrow> Inl NilDereference
      | AppAffinityRoute (Some a) \<Rightarrow>
          go_bind (Affinity_Route (e_fmt env) (aa_route a) ivks u call) (\<lambda>(res, call). Inr (res, [], call))
      | ScriptPriorityRouter s \<Rightarrow>
          go_bind (Script_Route (e_js env) s (w_programs w) (w_fresh w) ivks u call) (\<lambda>(res, call).
            Inr (case res of Inl ivks \<Rightarrow> (ivks, [], call) | Inr ws \<Rightarrow> (map as_invoker ws, ws, call))))"

text \<open>A call of \<^verbatim>\<open>Notify\<close> on the router at address \<open>p\<close>.\<close>

definition put_object :: "nat \<Rightarrow> router_object \<Rightarrow> conf_center option \<Rightarrow> world \<Rightarrow> world" where
  "put_object p r cc w = w\<lparr>w_objects := map_put p r (w_objects w), w_center := cc\<rparr>"

definition router_Notify :: "'b router_env \<Rightarrow> nat \<Rightarrow> invoker list \<Rightarrow> world \<Rightarrow> world go" where
  "router_Notify env p ivks w =
     go_bind (object w p) (\<lambda>r.
       case r of
         ServiceRouter d \<Rightarrow>
           go_bind (ServiceRouter_Notify (e_yaml env) p ivks (d, w_center w)) (\<lambda>(d, cc).
             Inr (put_object p (ServiceRouter d) cc w))
       | AppRouter a \<Rightarrow>
           go_bind (ApplicationRouter_Notify (e_yaml env) p ivks (a, w_center w)) (\<lambda>(a, cc).
             Inr (put_object p (AppRouter a) cc w))
       | TagRouter rules cached \<Rightarrow>
           go_bind (Tag_Notify (e_yaml env) p ivks (rules, w_center w)) (\<lambda>(rules, cc).
             Inr (put_object p (TagRouter rules cached) cc w))
       | ServiceAffinityRoute a \<Rightarrow>
           go_bind (ServiceAffinity_Notify (e_yaml env) p ivks (a, w_center w)) (\<lambda>(a, cc).
             Inr (put_object p (ServiceAffinityRoute a) cc w))
       | AppAffinityRoute None \<Rightarrow>
           if length ivks = 0 \<or> w_center w = None \<or> GetParam (GetURL (ivks ! 0)) ApplicationKey '''' = ''''
           then Inr w else Inl NilDereference
       | AppAffinityRoute (Some a) \<Rightarrow>
           go_bind (ApplicationAffinity_Notify (e_yaml env) p ivks (a, w_center w)) (\<lambda>(a, cc).
             Inr (put_object p (AppAffinityRoute (Some a)) cc w))
       | ScriptPriorityRouter s \<Rightarrow>
           (case Script_Notify (e_js env) (e_yaml env) p ivks (s, w_programs w, w_center w) of
              (s, progs, cc) \<Rightarrow> Inr (put_object p (ScriptPriorityRouter s) cc w\<lparr>w_programs := progs\<rparr>)))"

text \<open>\<^verbatim>\<open>SetStaticConfig\<close>, for the routers that have it.\<close>

definition router_SetStaticConfig :: "RouterConfig option \<Rightarrow> router_object \<Rightarrow> router_object" where
  "router_SetStaticConfig cfg r =
     (case r of
        ServiceRouter d \<Rightarrow> ServiceRouter (ServiceRouter_SetStaticConfig cfg d)
      | AppRouter a \<Rightarrow> AppRouter (ApplicationRouter_SetStaticConfig cfg a)
      | TagRouter rules cached \<Rightarrow> TagRouter (Tag_SetStaticConfig cfg rules) cached
      | _ \<Rightarrow> r)"

text \<open>A rule event of the configuration center for the router at \<open>p\<close>.\<close>

definition router_Process :: "'b router_env \<Rightarrow> nat \<Rightarrow> ConfigChangeEvent \<Rightarrow> world \<Rightarrow> world go" where
  "router_Process env p ev w =
     go_bind (object w p) (\<lambda>r.
       case r of
         ServiceRouter d \<Rightarrow>
           go_bind (DynamicRouter_Process (e_yaml env) ev d) (\<lambda>d. Inr (put_object p (ServiceRouter d) (w_center w) w))
       | AppRouter a \<Rightarrow>
           go_bind (DynamicRouter_Process (e_yaml env) ev (app_router a)) (\<lambda>d.
             Inr (put_object p (AppRouter (a\<lparr>app_router := d\<rparr>)) (w_center w) w))
       | TagRouter rules cached \<Rightarrow>
           go_bind (Tag_Process (e_yaml env) ev rules) (\<lambda>rules.
             Inr (put_object p (TagRouter rules cached) (w_center w) w))
       | ServiceAffinityRoute a \<Rightarrow>
           go_bind (Affinity_Process (e_yaml env) ev a) (\<lambda>a.
             Inr (put_object p (ServiceAffinityRoute a) (w_center w) w))
       | AppAffinityRoute None \<Rightarrow> Inl NilDereference
       | AppAffinityRoute (Some a) \<Rightarrow>
           go_bind (Affinity_Process (e_yaml env) ev (aa_route a)) (\<lambda>r.
             Inr (put_object p (AppAffinityRoute (Some (a\<lparr>aa_route := r\<rparr>))) (w_center w) w))
       | ScriptPriorityRouter s \<Rightarrow>
           (case Script_Process (e_js env) (e_yaml env) ev (s, w_programs w) of
              (s, progs) \<Rightarrow> Inr (put_object p (ScriptPriorityRouter s) (w_center w) w\<lparr>w_programs := progs\<rparr>)))"

section \<open>The chain\<close>

record 'b RouterChain =
  c_invokers :: "invoker list"
  c_routers :: "nat list"
  c_builtinRouters :: "nat list"
  c_cache :: "'b routerCache option"
  c_generation :: "64 word"

definition empty_chain :: "'b RouterChain" where
  "empty_chain = \<lparr>c_invokers = [], c_routers = [], c_builtinRouters = [], c_cache = None, c_generation = 0\<rparr>"

definition snapshotInvokers :: "'b RouterChain \<Rightarrow> invoker list \<times> 64 word" where
  "snapshotInvokers c = (c_invokers c, c_generation c)"

text \<open>
  The loop over the routers.  Each router takes its own locks, so the \<open>i\<close>-th one finds the cache and
  the objects as they are when its turn comes, \<open>view i\<close>.
\<close>

fun route_loop ::
  "'b router_env \<Rightarrow> (nat \<Rightarrow> nat \<Rightarrow> nat) \<Rightarrow> (nat \<Rightarrow> 'b routerCache option \<times> world) \<Rightarrow> nat \<Rightarrow> nat list \<Rightarrow>
   invoker list \<Rightarrow> url \<Rightarrow> RPCInvocation \<Rightarrow> (invoker list \<times> scriptInvokerWrapper list \<times> RPCInvocation) go" where
  "route_loop env draws view i [] ivks u call = Inr (ivks, [], call)"
| "route_loop env draws view i (p # ps) ivks u call =
     (case view i of (cache, w) \<Rightarrow>
        go_bind (object w p) (\<lambda>r.
        go_bind (router_Route env (draws i) cache w r ivks u call) (\<lambda>(ivks, ws, call).
        go_bind (route_loop env draws view (Suc i) ps ivks u (Inv_SetAttribute call RouterCacheDisable (GBool True)))
          (\<lambda>(ivks, ws', call). Inr (ivks, ws @ ws', call)))))"

text \<open>The invokers of the service the URL names, or all of them when there are none.\<close>

definition own_invokers :: "invoker list \<Rightarrow> url \<Rightarrow> invoker list" where
  "own_invokers ivks u = filter (\<lambda>ivk. ServiceKey (GetURL ivk) = ServiceKey u) ivks"

definition before_routers :: "'b RouterChain \<Rightarrow> url \<Rightarrow> RPCInvocation \<Rightarrow> invoker list \<times> RPCInvocation" where
  "before_routers c u call =
     (let (ivks, generation) = snapshotInvokers c;
          call = (if generation > 0 then Inv_SetAttribute call RouterChainCacheGeneration (GUint64 generation) else call);
          finalInvokers = own_invokers ivks u
      in if length finalInvokers = 0 then (ivks, call)
         else if length finalInvokers \<noteq> length ivks
         then (finalInvokers, Inv_SetAttribute call RouterCacheDisable (GBool True))
         else (finalInvokers, call))"

text \<open>\<open>c\<close> is the chain when the snapshot is taken and \<open>c'\<close> when the routers are copied.\<close>

definition RouterChain_Route ::
  "'b router_env \<Rightarrow> (nat \<Rightarrow> nat \<Rightarrow> nat) \<Rightarrow> 'b RouterChain \<Rightarrow> 'b RouterChain \<Rightarrow>
   (nat \<Rightarrow> 'b routerCache option \<times> world) \<Rightarrow> url \<Rightarrow> RPCInvocation \<Rightarrow>
   (invoker list \<times> scriptInvokerWrapper list \<times> RPCInvocation) go" where
  "RouterChain_Route env draws c c' view u call =
     (case before_routers c u call of (ivks, call) \<Rightarrow>
        route_loop env draws view 0 (c_routers c') ivks u call)"

text \<open>Sorting calls \<^verbatim>\<open>Priority\<close> on every router as soon as there are two.\<close>

definition priority_of :: "world \<Rightarrow> nat \<Rightarrow> int go" where
  "priority_of w p = go_bind (object w p) router_Priority"

definition sortRouter :: "world \<Rightarrow> nat list \<Rightarrow> nat list go" where
  "sortRouter w ps =
     (if length ps \<ge> 2 \<and> (\<exists>p \<in> set ps. isl (priority_of w p)) then Inl NilDereference
      else Inr (sort_key (\<lambda>p. projr (priority_of w p)) ps))"

definition AddRouters :: "world \<Rightarrow> nat list \<Rightarrow> 'b RouterChain \<Rightarrow> 'b RouterChain go" where
  "AddRouters w ps c = go_bind (sortRouter w (c_builtinRouters c @ ps)) (\<lambda>sorted. Inr (c\<lparr>c_routers := sorted\<rparr>))"

definition set_cache :: "router_object \<Rightarrow> router_object" where
  "set_cache r = (case r of TagRouter rules _ \<Rightarrow> TagRouter rules True | _ \<Rightarrow> r)"

definition is_poolable :: "world \<Rightarrow> nat \<Rightarrow> bool" where
  "is_poolable w p = (case map_of (w_objects w) p of Some (TagRouter _ _) \<Rightarrow> True | _ \<Rightarrow> False)"

definition rebuild ::
  "'b router_env \<Rightarrow> 64 word \<Rightarrow> invoker list \<Rightarrow> world \<Rightarrow> nat list \<Rightarrow> 'b routerCache" where
  "rebuild env generation ivks w ps =
     \<lparr>rcache_generation = generation, rcache_invokers = ivks,
      rcache_pools = fold (\<lambda>p pools. if is_poolable w p then map_put ''tag'' (Pool (e_bitmap env) ivks) pools else pools)
        ps []\<rparr>"

definition rebuildCache :: "'b router_env \<Rightarrow> invoker list \<Rightarrow> 'b RouterChain \<times> world \<Rightarrow> 'b RouterChain \<times> world" where
  "rebuildCache env ivks = (\<lambda>(c, w).
     let w = w\<lparr>w_objects := map (\<lambda>(p, r). (p, if p \<in> set (c_routers c) then set_cache r else r)) (w_objects w)\<rparr>
     in (c\<lparr>c_cache := Some (rebuild env (c_generation c) ivks w (c_routers c))\<rparr>, w))"

fun notify_all :: "'b router_env \<Rightarrow> invoker list \<Rightarrow> nat list \<Rightarrow> (world, unit) proc" where
  "notify_all env ivks [] w = (Inr (), w)"
| "notify_all env ivks (p # ps) w =
     (case router_Notify env p ivks w of Inl e \<Rightarrow> (Inl e, w) | Inr w \<Rightarrow> notify_all env ivks ps w)"

definition SetInvokers :: "'b router_env \<Rightarrow> invoker list \<Rightarrow> ('b RouterChain \<times> world, unit) proc" where
  "SetInvokers env ivks = (\<lambda>(c, w).
     let c = c\<lparr>c_generation := c_generation c + 1, c_invokers := ivks\<rparr>;
         (c, w) = rebuildCache env ivks (c, w);
         (res, w) = notify_all env ivks (c_routers c) w
     in (res, (c, w)))"

section \<open>Building a chain\<close>

text \<open>The factories under \<^verbatim>\<open>cluster/router\<close> except the one of the Polaris router.\<close>

datatype router_factory =
  ServiceRouteFactory | AppConditionRouterFactory | TagRouteFactory
| ServiceAffinityRouterFactory | ApplicationAffinityRouterFactory | ScriptRouteFactory

definition NewPriorityRouter :: "router_factory \<Rightarrow> url \<Rightarrow> world \<Rightarrow> nat \<times> world" where
  "NewPriorityRouter f u w =
     (let p = w_fresh w;
          (r, cc) =
            (case f of
               ServiceRouteFactory \<Rightarrow> (ServiceRouter NewServiceRouter, w_center w)
             | AppConditionRouterFactory \<Rightarrow>
                 (case NewApplicationRouter p u (w_center w) of (a, cc) \<Rightarrow> (AppRouter a, cc))
             | TagRouteFactory \<Rightarrow> (TagRouter [] False, w_center w)
             | ServiceAffinityRouterFactory \<Rightarrow> (ServiceAffinityRoute no_affinity, w_center w)
             | ApplicationAffinityRouterFactory \<Rightarrow>
                 (case newApplicationAffinityRouter p u (w_center w) of (a, cc) \<Rightarrow> (AppAffinityRoute a, cc))
             | ScriptRouteFactory \<Rightarrow> (ScriptPriorityRouter NewScriptRouter, w_center w))
      in (p, (put_object p r cc w)\<lparr>w_fresh := Suc p\<rparr>))"

fun build_routers :: "router_factory list \<Rightarrow> url \<Rightarrow> world \<Rightarrow> nat list \<times> world" where
  "build_routers [] u w = ([], w)"
| "build_routers (f # fs) u w =
     (case NewPriorityRouter f u w of (p, w) \<Rightarrow> case build_routers fs u w of (ps, w) \<Rightarrow> (p # ps, w))"

definition injectRouterConfig :: "RouterConfig \<Rightarrow> nat list \<Rightarrow> world \<Rightarrow> world" where
  "injectRouterConfig cfg ps w =
     w\<lparr>w_objects := map (\<lambda>(p, r).
         (p, if p \<in> set ps then router_SetStaticConfig (RouterConfig_Clone (Some cfg)) r else r)) (w_objects w)\<rparr>"

abbreviation RoutersConfigKey :: string where "RoutersConfigKey \<equiv> ''routers-config''"

definition injectStaticRouters :: "'b router_env \<Rightarrow> url \<Rightarrow> nat list \<Rightarrow> world \<Rightarrow> world" where
  "injectStaticRouters env u ps w =
     (case (case GetAttribute u RoutersConfigKey of
              Some a \<Rightarrow> Some a
            | None \<Rightarrow> (case SubURL u of None \<Rightarrow> None | Some sub \<Rightarrow> GetAttribute sub RoutersConfigKey)) of
        None \<Rightarrow> w
      | Some a \<Rightarrow>
          (case e_RouterConfigs env a of
             None \<Rightarrow> w
           | Some cfgs \<Rightarrow>
               fold (\<lambda>cfg w. case cfg of
                       None \<Rightarrow> w
                     | Some c \<Rightarrow>
                         if rc_Enabled c = Some False \<or> rc_Valid c = Some False then w
                         else injectRouterConfig c ps w) cfgs w))"

text \<open>\<open>factories\<close> in the order the map of them is visited.  The application of the consumer moves to the URL.\<close>

definition NewRouterChain ::
  "'b router_env \<Rightarrow> router_factory list \<Rightarrow> url \<Rightarrow> world \<Rightarrow> ((go_error + 'b RouterChain) \<times> url \<times> world) go" where
  "NewRouterChain env factories u w =
     (let u = (case SubURL u of
                 None \<Rightarrow> u
               | Some sub \<Rightarrow>
                   let appName = GetParam sub ApplicationKey ''''
                   in if appName \<noteq> '''' then snd (CompareAndSwapParam u ApplicationKey '''' appName) else u)
      in if length factories = 0
         then Inr (Inl (PlainError ''no routerFactory exists, create one please''), u, w)
         else
           let (ps, w) = build_routers factories u w
           in go_bind (sortRouter w ps) (\<lambda>sorted.
                Inr (Inr (empty_chain\<lparr>c_routers := sorted, c_builtinRouters := ps\<rparr>), u,
                     injectStaticRouters env u sorted w)))"

section \<open>The generations of a chain\<close>

text \<open>
  What happens to a chain and its routers: new invokers, new routers, rule events.  A panic of a
  router during a notification leaves the new invokers in place.  \<open>chain_run env s n t\<close> says that
  \<open>t\<close> follows \<open>s\<close> with \<open>n\<close> lists of invokers set on the way.
\<close>

inductive chain_run ::
  "'b router_env \<Rightarrow> 'b RouterChain \<times> world \<Rightarrow> nat \<Rightarrow> 'b RouterChain \<times> world \<Rightarrow> bool"
  for env s where
  run_start: "chain_run env s 0 s"
| run_set: "chain_run env s n t \<Longrightarrow> SetInvokers env ivks t = (res, t') \<Longrightarrow> chain_run env s (Suc n) t'"
| run_add: "chain_run env s n (c, w) \<Longrightarrow> AddRouters w ps c = Inr c' \<Longrightarrow> chain_run env s n (c', w)"
| run_new: "chain_run env s n (c, w) \<Longrightarrow> NewPriorityRouter f u w = (p, w') \<Longrightarrow> chain_run env s n (c, w')"
| run_event: "chain_run env s n (c, w) \<Longrightarrow> router_Process env p ev w = Inr w' \<Longrightarrow> chain_run env s n (c, w')"

text \<open>The index of a chain belongs to its invokers and carries their generation.\<close>

definition chain_ok :: "'b router_env \<Rightarrow> nat \<Rightarrow> 'b RouterChain \<Rightarrow> bool" where
  "chain_ok env n c \<longleftrightarrow>
     c_generation c = of_nat n \<and> (n = 0 \<longrightarrow> c_cache c = None \<and> c_invokers c = []) \<and>
     (\<forall>k. c_cache c = Some k \<longrightarrow>
        rcache_generation k = c_generation c \<and> rcache_invokers k = c_invokers c \<and>
        (\<forall>pool. map_of (rcache_pools k) ''tag'' = Some pool \<longrightarrow> pool = Pool (e_bitmap env) (c_invokers c)))"

lemma rebuild_pool:
  "map_of (rcache_pools (rebuild env g ivks w ps)) ''tag'' = Some pool \<Longrightarrow> pool = Pool (e_bitmap env) ivks"
proof -
  have "map_of (fold (\<lambda>p pools. if is_poolable w p then map_put ''tag'' (Pool (e_bitmap env) ivks) pools else pools) ps m)
      ''tag'' = Some pool \<Longrightarrow> map_of m ''tag'' = None \<or> map_of m ''tag'' = Some (Pool (e_bitmap env) ivks) \<Longrightarrow>
      pool = Pool (e_bitmap env) ivks" for m
    by (induction ps arbitrary: m) (auto split: if_split_asm)
  then show "map_of (rcache_pools (rebuild env g ivks w ps)) ''tag'' = Some pool \<Longrightarrow> pool = Pool (e_bitmap env) ivks"
    by (auto simp: rebuild_def)
qed

lemma SetInvokers_state:
  assumes "SetInvokers env ivks (c, w) = (res, (c', w'))"
  shows "\<exists>v. c' = c\<lparr>c_generation := c_generation c + 1, c_invokers := ivks,
    c_cache := Some (rebuild env (c_generation c + 1) ivks v (c_routers c))\<rparr>"
  using assms by (auto simp: SetInvokers_def rebuildCache_def Let_def split: prod.split_asm)

lemma chain_ok_set:
  assumes "chain_ok env n c"
  shows "chain_ok env (Suc n) (c\<lparr>c_generation := c_generation c + 1, c_invokers := ivks,
    c_cache := Some (rebuild env (c_generation c + 1) ivks v (c_routers c))\<rparr>)"
proof -
  have "rcache_generation (rebuild env g ivks v ps) = g" "rcache_invokers (rebuild env g ivks v ps) = ivks" for g ps
    by (simp_all add: rebuild_def)
  then show ?thesis using assms rebuild_pool [of env _ ivks v] by (simp add: chain_ok_def)
qed

lemma chain_ok_routers [simp]: "chain_ok env n (c\<lparr>c_routers := ps\<rparr>) = chain_ok env n c"
  by (simp add: chain_ok_def)

lemma chain_run_ok:
  assumes "chain_run env s n t" "chain_ok env m (fst s)"
  shows "chain_ok env (m + n) (fst t) \<and> (n = 0 \<longrightarrow> c_invokers (fst t) = c_invokers (fst s))"
  using assms
proof (induction rule: chain_run.induct)
  case (run_set n t ivks res t')
  obtain c w where t: "t = (c, w)" by (cases t)
  obtain c' w' where t': "t' = (c', w')" by (cases t')
  obtain v where "c' = c\<lparr>c_generation := c_generation c + 1, c_invokers := ivks,
      c_cache := Some (rebuild env (c_generation c + 1) ivks v (c_routers c))\<rparr>"
    using SetInvokers_state [OF run_set.hyps(2) [unfolded t t']] by (elim exE)
  moreover have "chain_ok env (m + n) c" using run_set.IH run_set.prems t by simp
  ultimately show ?case using chain_ok_set [of env "m + n" c ivks v] t' by simp
next
  case (run_add n c w ps c')
  then obtain sorted where "c' = c\<lparr>c_routers := sorted\<rparr>" by (auto simp: AddRouters_def elim!: go_bindE)
  then show ?case using run_add.IH run_add.prems by simp
qed simp_all

lemma NewRouterChain_ok:
  "NewRouterChain env factories u w = Inr (Inr c, u', w') \<Longrightarrow> chain_ok env 0 c"
  by (auto simp: NewRouterChain_def Let_def chain_ok_def empty_chain_def elim!: go_bindE
      split: if_split_asm prod.split_asm)

section \<open>Routing on a snapshot\<close>

abbreviation disabled :: "RPCInvocation \<Rightarrow> bool" where
  "disabled call \<equiv> Inv_GetAttribute call RouterCacheDisable = Some (GBool True)"

lemma disabled_set [simp]: "disabled (Inv_SetAttribute call RouterCacheDisable (GBool True))"
  by (simp add: Inv_GetAttribute_def Inv_SetAttribute_def)

lemma usable_pool_disabled:
  "disabled call \<Longrightarrow> usable_pool cache call = Inr None"
  by (auto simp: usable_pool_def Inv_GetAttributeWithDefaultValue_def as_bool_def split: option.split)

lemma tag_coherent_disabled: "disabled call \<Longrightarrow> tag_coherent R cache ivks call"
  by (simp add: tag_coherent_def usable_pool_disabled)

lemma generation_inj: "a < 2 ^ 64 \<Longrightarrow> b < 2 ^ 64 \<Longrightarrow> (of_nat a :: 64 word) = of_nat b \<Longrightarrow> a = b"
  by (simp add: word_of_nat_eq_iff take_bit_nat_eq_self)

lemma tag_coherent_none: "tag_coherent R None ivks call"
  by (simp add: tag_coherent_def usable_pool_def)

lemma own_invokers_all: "length (own_invokers ivks u) = length ivks \<Longrightarrow> own_invokers ivks u = ivks"
  unfolding own_invokers_def using length_filter_less [of _ ivks] by (metis (no_types, lifting) filter_True less_irrefl)

lemma before_routers_eq:
  assumes "before_routers c u call = (ivks, call')" "c_generation c > 0"
  shows "disabled call' \<or> ivks = c_invokers c"
    "Inv_GetAttribute call' RouterChainCacheGeneration = Some (GUint64 (c_generation c))"
proof -
  let ?call = "Inv_SetAttribute call RouterChainCacheGeneration (GUint64 (c_generation c))"
  have "(ivks, call') = (c_invokers c, ?call) \<or>
      call' = Inv_SetAttribute ?call RouterCacheDisable (GBool True)"
    using assms own_invokers_all [of "c_invokers c" u]
    by (auto simp: before_routers_def snapshotInvokers_def Let_def split: if_split_asm)
  then show "disabled call' \<or> ivks = c_invokers c"
    "Inv_GetAttribute call' RouterChainCacheGeneration = Some (GUint64 (c_generation c))"
    by (auto simp: Inv_GetAttribute_def Inv_SetAttribute_def)
qed

lemma usable_poolD:
  assumes "usable_pool cache call = Inr (Some (pool, full))"
    and "Inv_GetAttribute call RouterChainCacheGeneration = Some (GUint64 g)"
  shows "\<exists>k. cache = Some k \<and> rcache_generation k = g \<and> map_of (rcache_pools k) ''tag'' = Some pool \<and>
    full = rcache_invokers k"
proof (cases cache)
  case (Some k)
  then show ?thesis
    using assms by (cases "map_of (rcache_pools k) ''tag''")
      (auto simp: usable_pool_def FindAddrPool_def Inv_GetAttributeWithDefaultValue_def as_uint64_def
        elim!: go_bindE split: if_split_asm)
qed (use assms(1) in \<open>simp add: usable_pool_def\<close>)

text \<open>
  The call carries the generation of the snapshot, so a later chain offers its index for it only
  if no other invokers were set in between.
\<close>

lemma before_routers_coherent:
  assumes "chain_ok env m c" "0 < m" "chain_run env (c, w) n (c', w')" "m + n < 2 ^ 64"
    and "before_routers c u call = (ivks, call')"
  shows "tag_coherent (e_bitmap env) (c_cache c') ivks call'"
proof (cases "disabled call'")
  case False
  have ok': "chain_ok env (m + n) c'" "n = 0 \<longrightarrow> c_invokers c' = c_invokers c"
    using chain_run_ok [OF assms(3), of m] assms(1) by auto
  have gen: "c_generation c = of_nat m" "c_generation c' = of_nat (m + n)"
    using assms(1) ok'(1) unfolding chain_ok_def by blast+
  have pos: "c_generation c > 0"
    using generation_inj [of m 0] assms(2,4) gen(1) by (auto simp: word_greater_zero_iff)
  have same: "n = 0" if "c_generation c' = c_generation c"
    using that generation_inj [of "m + n" m] assms(4) unfolding gen by simp
  note before = before_routers_eq [OF assms(5) pos]
  show ?thesis
    unfolding tag_coherent_def
  proof (intro allI impI)
    fix pool full assume used: "usable_pool (c_cache c') call' = Inr (Some (pool, full))"
    then obtain k where k: "c_cache c' = Some k" "rcache_generation k = c_generation c"
      "map_of (rcache_pools k) ''tag'' = Some pool" "full = rcache_invokers k"
      using usable_poolD [OF used before(2)] by blast
    then have "c_generation c' = c_generation c" "full = c_invokers c'" "pool = Pool (e_bitmap env) (c_invokers c')"
      using ok'(1) unfolding chain_ok_def by auto
    then show "full = ivks \<and> pool = Pool (e_bitmap env) ivks"
      using same ok'(2) before(1) False by simp
  qed
qed (rule tag_coherent_disabled)

section \<open>What a chain returns\<close>

text \<open>An invoker that is one of the given ones, or a wrapper released by a script around such an invoker.\<close>

inductive backed :: "scriptInvokerWrapper list \<Rightarrow> invoker list \<Rightarrow> invoker \<Rightarrow> bool" for ws ivks where
  direct: "x \<in> set ivks \<Longrightarrow> backed ws ivks x"
| wrapped: "v \<in> set ws \<Longrightarrow> w_isRan v \<Longrightarrow> backed ws ivks (w_invoker v) \<Longrightarrow> backed ws ivks (as_invoker v)"

lemma backed_trans:
  "backed ws' mid x \<Longrightarrow> (\<And>y. y \<in> set mid \<Longrightarrow> backed ws ivks y) \<Longrightarrow> backed (ws @ ws') ivks x"
proof (induction rule: backed.induct)
  case (direct x)
  then have "backed ws ivks x" by blast
  then show ?case by (induction rule: backed.induct) (auto intro: backed.intros)
next
  case (wrapped v)
  then show ?case by (auto intro: backed.wrapped)
qed

lemma Script_Route_backed:
  assumes "Script_Route L s progs nxt ivks u call = Inr (res, call')"
  shows "case res of Inl ivks' \<Rightarrow> set ivks' \<subseteq> set ivks | Inr ws \<Rightarrow> (\<forall>v \<in> set ws. w_isRan v \<and> w_invoker v \<in> set ivks)"
proof (cases res)
  case (Inl ivks')
  then show ?thesis
    using assms unfolding Script_Route_def runScript_def js_Run_def Let_def
    by (auto split: if_split_asm option.split_asm sum.split_asm prod.split_asm js_value.split_asm elim!: go_bindE)
next
  case (Inr ws)
  then obtain e where "js_Run L (s_rawScript s) progs nxt ivks call = Inr (Inr ws, e, call')"
    using assms unfolding Script_Route_def runScript_def
    by (auto split: if_split_asm option.split_asm elim!: go_bindE)
  then show ?thesis using Inr js_Run_wraps by auto
qed

lemma router_Route_backed:
  assumes "router_Route env draws cache w r ivks u call = Inr (res, ws, call')"
    and "ivks = [] \<or> tag_coherent (e_bitmap env) cache ivks call" and "x \<in> set res"
  shows "backed ws ivks x"
proof -
  have "set res \<subseteq> set ivks \<or> (\<forall>v \<in> set ws. w_isRan v \<and> w_invoker v \<in> set ivks) \<and> res = map as_invoker ws"
  proof (cases r)
    case (TagRouter rules cached)
    then have t: "Tag_Route (e_regex env) (e_bitmap env) (if cached then cache else None) rules ivks u call = Inr (res, call')"
      using assms(1) by (auto simp: router_Route_def elim!: go_bindE)
    show ?thesis
    proof (cases "ivks = []")
      case True
      then show ?thesis using t by (simp add: Tag_Route_def)
    next
      case False
      have "tag_coherent (e_bitmap env) (if cached then cache else None) ivks call"
        using assms(2) False by (simp add: tag_coherent_none)
      then show ?thesis using Tag_Route_subset [OF t] by blast
    qed
  next
    case (ScriptPriorityRouter s)
    then obtain out call2 where out: "Script_Route (e_js env) s (w_programs w) (w_fresh w) ivks u call = Inr (out, call2)"
      "(case out of Inl i \<Rightarrow> (i, [], call2) | Inr ws \<Rightarrow> (map as_invoker ws, ws, call2)) = (res, ws, call')"
      using assms(1) by (auto simp: router_Route_def elim!: go_bindE)
    show ?thesis using out(2) Script_Route_backed [OF out(1)] by (cases out) simp_all
  next
    case (AppAffinityRoute a)
    then show ?thesis
      using assms(1) by (cases a) (auto simp: router_Route_def elim!: go_bindE dest!: Affinity_Route_subset)
  qed (use assms(1) in \<open>auto simp: router_Route_def elim!: go_bindE dest!: Affinity_Route_subset DynamicRouter_subset\<close>)
  then show ?thesis
  proof
    assume "set res \<subseteq> set ivks"
    then show ?thesis using assms(3) by (intro backed.direct) blast
  next
    assume ran: "(\<forall>v \<in> set ws. w_isRan v \<and> w_invoker v \<in> set ivks) \<and> res = map as_invoker ws"
    then obtain v where "v \<in> set ws" "x = as_invoker v" using assms(3) by auto
    then show ?thesis using ran backed.wrapped [OF _ _ backed.direct, of v ws ivks] by simp
  qed
qed

lemma route_loop_backed:
  "route_loop env draws view i ps ivks u call = Inr (res, ws, call') \<Longrightarrow> x \<in> set res \<Longrightarrow>
   (case view i of (cache, w) \<Rightarrow> ivks = [] \<or> tag_coherent (e_bitmap env) cache ivks call) \<Longrightarrow> backed ws ivks x"
proof (induction env draws view i ps ivks u call arbitrary: res ws call' x rule: route_loop.induct)
  case (2 env draws view i p ps ivks u call)
  obtain cache w where v: "view i = (cache, w)" by fastforce
  obtain r mid ws1 call1 ws2 where step:
    "object w p = Inr r" "router_Route env (draws i) cache w r ivks u call = Inr (mid, ws1, call1)"
    "route_loop env draws view (Suc i) ps mid u (Inv_SetAttribute call1 RouterCacheDisable (GBool True)) =
       Inr (res, ws2, call')" "ws = ws1 @ ws2"
    using "2.prems"(1) v by (auto elim!: go_bindE)
  have "backed ws2 mid x"
    using "2.IH" [OF v [symmetric] step(3) "2.prems"(2)] by (simp add: tag_coherent_disabled split: prod.split)
  moreover have "backed ws1 ivks y" if "y \<in> set mid" for y
    using router_Route_backed [OF step(2) _ that] "2.prems"(3) v by simp
  ultimately show ?case unfolding step(4) by (rule backed_trans)
qed (auto intro: backed.direct)

text \<open>The states a call meets: the snapshot's, then the copy of the routers', then one for each router.\<close>

definition call_states ::
  "'b router_env \<Rightarrow> nat \<Rightarrow> 'b RouterChain \<times> world \<Rightarrow> 'b RouterChain \<times> world \<Rightarrow>
   (nat \<Rightarrow> 'b routerCache option \<times> world) \<Rightarrow> bool" where
  "call_states env m s s' view \<longleftrightarrow>
     (\<exists>k. chain_run env s k s') \<and>
     (\<forall>i. \<exists>n t. chain_run env s n t \<and> view i = (c_cache (fst t), snd t) \<and> m + n < 2 ^ 64)"

lemma before_routers_subset: "before_routers c u call = (ivks, call') \<Longrightarrow> set ivks \<subseteq> set (c_invokers c)"
  by (auto simp: before_routers_def snapshotInvokers_def own_invokers_def Let_def split: if_split_asm)

lemma call_states_coherent:
  assumes "chain_ok env m c" "call_states env m (c, w) s' view" "before_routers c u call = (ivks, call')"
    and "view i = (cache, v)"
  shows "ivks = [] \<or> tag_coherent (e_bitmap env) cache ivks call'"
proof (cases "m = 0")
  case True
  then have "c_invokers c = []" using assms(1) by (simp add: chain_ok_def)
  then show ?thesis using before_routers_subset [OF assms(3)] by simp
next
  case False
  obtain n t where "chain_run env (c, w) n t" "view i = (c_cache (fst t), snd t)" "m + n < 2 ^ 64"
    using assms(2) unfolding call_states_def by blast
  then show ?thesis
    using before_routers_coherent [OF assms(1) _ _ _ assms(3), of w n "fst t" "snd t"] False assms(4) by simp
qed

section \<open>The index changes no answer\<close>

text \<open>The attributes of an invocation that the chain owns have their types, as in a new invocation.\<close>

definition flags_ok :: "RPCInvocation \<Rightarrow> bool" where
  "flags_ok call \<longleftrightarrow>
     (\<exists>b. Inv_GetAttributeWithDefaultValue call RouterCacheDisable (GBool False) = GBool b) \<and>
     (\<exists>g. Inv_GetAttributeWithDefaultValue call RouterChainCacheGeneration (GUint64 0) = GUint64 g)"

lemma attribute_set:
  "Inv_GetAttributeWithDefaultValue (Inv_SetAttribute call k v) k' d =
     (if k' = k then v else Inv_GetAttributeWithDefaultValue call k' d)"
  by (simp add: Inv_GetAttributeWithDefaultValue_def Inv_GetAttribute_def Inv_SetAttribute_def split: option.split)

lemma flags_ok_set:
  "flags_ok call \<Longrightarrow> flags_ok (Inv_SetAttribute call RouterChainCacheGeneration (GUint64 g))"
  "flags_ok call \<Longrightarrow> flags_ok (Inv_SetAttribute call RouterCacheDisable (GBool b))"
  by (simp_all add: flags_ok_def attribute_set)

lemma flags_ok_before:
  assumes "flags_ok call" "before_routers c u call = (ivks, call')"
  shows "flags_ok call'"
proof -
  let ?call = "if c_generation c > 0 then Inv_SetAttribute call RouterChainCacheGeneration (GUint64 (c_generation c)) else call"
  have "call' = ?call \<or> call' = Inv_SetAttribute ?call RouterCacheDisable (GBool True)"
    using assms(2) by (auto simp: before_routers_def snapshotInvokers_def Let_def split: if_split_asm)
  moreover have "flags_ok ?call" using assms(1) flags_ok_set(1) by simp
  ultimately show ?thesis using flags_ok_set(2) by blast
qed

lemma usable_pool_flags: "flags_ok call \<Longrightarrow> \<exists>found. usable_pool cache call = Inr found"
  by (auto simp: flags_ok_def usable_pool_def as_bool_def as_uint64_def Let_def split: option.split prod.split)

lemma usable_pool_none [simp]: "usable_pool None call = Inr None"
  by (simp add: usable_pool_def)

lemma Tag_Route_disabled: "disabled call \<Longrightarrow> Tag_Route regex R cache rules ivks u call = Tag_Route regex R None rules ivks u call"
  by (simp add: Tag_Route_def usable_pool_disabled)

definition plain_tags :: "tag_rules \<Rightarrow> bool" where
  "plain_tags rules \<longleftrightarrow> (\<forall>(key, cfg) \<in> set rules. distinct (map tag_Name (rc_Tags cfg)))"

lemma Tag_Route_uncached:
  assumes "roaring_ok R bits" "ivks = [] \<or> tag_coherent R cache ivks call" "flags_ok call"
    and "length ivks \<le> 2 ^ 32" "\<forall>ivk \<in> set ivks. host_port (GetURL ivk)" "plain_tags rules"
  shows "Tag_Route regex R cache rules ivks u call = Tag_Route regex R None rules ivks u call"
proof (cases "ivks = []")
  case False
  obtain found where found: "usable_pool cache call = Inr found" using usable_pool_flags [OF assms(3)] by blast
  show ?thesis
  proof (cases found)
    case (Some e)
    then have "e = (Pool R ivks, ivks)"
      using assms(2) False found by (cases e) (simp add: tag_coherent_def)
    then show ?thesis
      using Some found False pool_equivalent [OF assms(1) False assms(4,5), of rules] assms(6)
      by (simp add: Tag_Route_def plain_tags_def)
  qed (simp add: Tag_Route_def found)
qed (simp add: Tag_Route_def)

abbreviation without_index :: "(nat \<Rightarrow> 'b routerCache option \<times> world) \<Rightarrow> nat \<Rightarrow> 'b routerCache option \<times> world" where
  "without_index view \<equiv> \<lambda>i. (None, snd (view i))"

lemma route_loop_disabled:
  "disabled call \<Longrightarrow> route_loop env draws view i ps ivks u call = route_loop env draws (without_index view) i ps ivks u call"
proof (induction env draws view i ps ivks u call rule: route_loop.induct)
  case (2 env draws view i p ps ivks u call)
  obtain cache w where v: "view i = (cache, w)" by fastforce
  have r: "router_Route env (draws i) cache w r ivks u call = router_Route env (draws i) None w r ivks u call" for r
    using Tag_Route_disabled [OF "2.prems", of "e_regex env" "e_bitmap env" cache]
    by (auto simp: router_Route_def split: router_object.split)
  show ?case using "2.IH" [OF v [symmetric]] by (simp add: v r case_prod_unfold)
qed simp

lemma route_loop_uncached:
  assumes "roaring_ok (e_bitmap env) bits" "flags_ok call" "length ivks \<le> 2 ^ 32"
    and "\<forall>ivk \<in> set ivks. host_port (GetURL ivk)"
    and "\<And>cache w. view i = (cache, w) \<Longrightarrow> ivks = [] \<or> tag_coherent (e_bitmap env) cache ivks call"
    and "\<And>p rules cached. object (snd (view i)) p = Inr (TagRouter rules cached) \<Longrightarrow> plain_tags rules"
  shows "route_loop env draws view i ps ivks u call = route_loop env draws (without_index view) i ps ivks u call"
proof (cases ps)
  case (Cons p ps')
  obtain cache w where v: "view i = (cache, w)" by fastforce
  have "router_Route env (draws i) cache w r ivks u call = router_Route env (draws i) None w r ivks u call"
    if "object w p = Inr r" for r
  proof (cases r)
    case (TagRouter rules cached)
    then have "plain_tags rules" using assms(6) [of p rules cached] that v by simp
    then show ?thesis
      using Tag_Route_uncached [OF assms(1) assms(5) [OF v] assms(2,3,4)] TagRouter by (simp add: router_Route_def)
  qed (simp_all add: router_Route_def split: option.split)
  then show ?thesis
    unfolding Cons by (cases "object w p") (simp_all add: v route_loop_disabled [where view = view] case_prod_unfold)
qed simp

section \<open>Properties\<close>

text \<open>
  C5 (the index of the chain): a call is routed on a snapshot of the invokers while directories set
  new invokers, routers are added and rules change, in any order.  In every such interleaving with
  fewer than \<open>2 ^ 64\<close> lists of invokers, the chain answers exactly as if there were no index at all: the
  generation of the snapshot keeps a router from using an index built from other invokers.
\<close>

theorem RouterChain_index_transparent:
  assumes "NewRouterChain env factories u0 w0 = Inr (Inr start, u1, w1)"
    and "chain_run env (start, w1) m (c, w)" "call_states env m (c, w) (c', w') view"
    and "roaring_ok (e_bitmap env) bits" "flags_ok call"
    and "length (c_invokers c) \<le> 2 ^ 32" "\<forall>ivk \<in> set (c_invokers c). host_port (GetURL ivk)"
    and "\<forall>i p rules cached. object (snd (view i)) p = Inr (TagRouter rules cached) \<longrightarrow> plain_tags rules"
  shows "RouterChain_Route env draws c c' view u call = RouterChain_Route env draws c c' (without_index view) u call"
proof -
  have ok: "chain_ok env m c" using chain_run_ok [OF assms(2), of 0] NewRouterChain_ok [OF assms(1)] by simp
  obtain ivks call' where b: "before_routers c u call = (ivks, call')" by fastforce
  have "length ivks \<le> length (c_invokers c)"
    using b by (auto simp: before_routers_def snapshotInvokers_def own_invokers_def Let_def split: if_split_asm)
  then show ?thesis
    unfolding RouterChain_Route_def b prod.case
    using assms(6,7) before_routers_subset [OF b] call_states_coherent [OF ok assms(3) b, of 0]
    by (intro route_loop_uncached [OF assms(4) flags_ok_before [OF assms(5) b]]) (auto intro: assms(8) [rule_format])
qed

lemma RouterChain_Route_backed:
  assumes "NewRouterChain env factories u0 w0 = Inr (Inr start, u1, w1)"
    and "chain_run env (start, w1) m (c, w)" "call_states env m (c, w) (c', w') view"
    and "RouterChain_Route env draws c c' view u call = Inr (res, ws, call')" "x \<in> set res"
  shows "backed ws (c_invokers c) x"
proof -
  have ok: "chain_ok env m c" using chain_run_ok [OF assms(2), of 0] NewRouterChain_ok [OF assms(1)] by simp
  obtain ivks call1 where b: "before_routers c u call = (ivks, call1)" by fastforce
  have "backed ws ivks x"
    using assms(4) call_states_coherent [OF ok assms(3) b] unfolding RouterChain_Route_def b prod.case
    by (intro route_loop_backed [OF _ assms(5)]) (auto split: prod.split)
  then show ?thesis
    using backed_trans [of ws ivks x "[]" "c_invokers c"] before_routers_subset [OF b] by (auto intro: backed.direct)
qed

text \<open>
  C6 (routing stays in the snapshot): whatever happens to the chain during a call, every invoker it
  returns is one of the invokers of the snapshot the call began with, or a wrapper that a script
  released around such an invoker.
\<close>

theorem RouterChain_stays_in_snapshot:
  assumes "NewRouterChain env factories u0 w0 = Inr (Inr start, u1, w1)"
    and "chain_run env (start, w1) m (c, w)" "call_states env m (c, w) (c', w') view"
    and "RouterChain_Route env draws c c' view u call = Inr (res, ws, call')" "x \<in> set res"
  shows "backed ws (c_invokers c) x"
  using assms by (rule RouterChain_Route_backed)

text \<open>A chain with a tag router and three providers.\<close>

definition chain_env :: "32 word list router_env" where
  "chain_env = \<lparr>e_fmt = \<lambda>_. '''', e_regex = \<lambda>_ _. False, e_bitmap = list_bitmap, e_yaml = sample_decoder,
     e_js = sample_engine, e_RouterConfigs = \<lambda>_. None\<rparr>"

definition chain_world :: "bool \<Rightarrow> world" where
  "chain_world cached = \<lparr>w_objects = [(100, TagRouter [] cached)], w_programs = [], w_center = None, w_fresh = 101\<rparr>"

definition sample_chain :: "32 word list RouterChain" where
  "sample_chain = \<lparr>c_invokers = tag_peers, c_routers = [100], c_builtinRouters = [100],
     c_cache = Some \<lparr>rcache_generation = 1, rcache_invokers = tag_peers,
       rcache_pools = [(''tag'', Pool list_bitmap tag_peers)]\<rparr>, c_generation = 1\<rparr>"

lemma sample_new:
  "NewRouterChain chain_env [TagRouteFactory] sample_consumer
     \<lparr>w_objects = [], w_programs = [], w_center = None, w_fresh = 100\<rparr> =
   Inr (Inr (empty_chain\<lparr>c_routers := [100], c_builtinRouters := [100]\<rparr>), sample_consumer, chain_world False)"
  by (simp add: NewRouterChain_def sample_consumer_def url_eval NewPriorityRouter_def put_object_def sortRouter_def
      injectStaticRouters_def GetAttribute_def chain_world_def)

lemma sample_set:
  "SetInvokers chain_env tag_peers (empty_chain\<lparr>c_routers := [100], c_builtinRouters := [100]\<rparr>, chain_world False) =
   (Inr (), (sample_chain, chain_world True))"
  by (simp add: SetInvokers_def rebuildCache_def rebuild_def is_poolable_def set_cache_def chain_world_def
      sample_chain_def empty_chain_def chain_env_def router_Notify_def object_def Tag_Notify_def tag_peers_def tag_peer_def
      url_eval put_object_def)

lemma sample_run: "chain_run chain_env (empty_chain\<lparr>c_routers := [100], c_builtinRouters := [100]\<rparr>, chain_world False) 1
    (sample_chain, chain_world True)"
  using chain_run.run_set [OF chain_run.run_start sample_set] by simp

text \<open>The directory loses its providers while a call is routed.\<close>

lemma sample_set_empty:
  "SetInvokers chain_env [] (sample_chain, chain_world True) =
   (Inr (), (sample_chain\<lparr>c_invokers := [], c_generation := 2,
      c_cache := Some \<lparr>rcache_generation = 2, rcache_invokers = [], rcache_pools = [(''tag'', [])]\<rparr>\<rparr>, chain_world True))"
  by (simp add: SetInvokers_def rebuildCache_def rebuild_def is_poolable_def set_cache_def chain_world_def
      sample_chain_def chain_env_def router_Notify_def object_def Tag_Notify_def Pool_def put_object_def)

definition sample_views :: "nat \<Rightarrow> 32 word list routerCache option \<times> world" where
  "sample_views i = (Some \<lparr>rcache_generation = 2, rcache_invokers = [], rcache_pools = [(''tag'', [])]\<rparr>, chain_world True)"

definition gray_call :: RPCInvocation where
  "gray_call = NewRPCInvocation ''Greet'' None (Some [(Tagkey, GStr ''gray'')])"

lemma sample_states:
  "call_states chain_env 1 (sample_chain, chain_world True) (sample_chain, chain_world True)
     (\<lambda>i. (c_cache sample_chain, chain_world True))"
  "call_states chain_env 1 (sample_chain, chain_world True) (sample_chain, chain_world True) sample_views"
  using chain_run.run_start [of chain_env "(sample_chain, chain_world True)"]
    chain_run.run_set [OF chain_run.run_start sample_set_empty]
  by (force simp: call_states_def sample_views_def)+

theorem RouterChain_index_transparent_witness:
  "RouterChain_Route chain_env (\<lambda>_ _. 0) sample_chain sample_chain (\<lambda>i. (c_cache sample_chain, chain_world True))
     sample_consumer gray_call =
   RouterChain_Route chain_env (\<lambda>_ _. 0) sample_chain sample_chain (\<lambda>i. (None, chain_world True)) sample_consumer gray_call"
proof -
  have "roaring_ok (e_bitmap chain_env) set" by (simp add: chain_env_def list_bitmap_ok)
  moreover have "flags_ok gray_call"
    by (auto simp: flags_ok_def gray_call_def NewRPCInvocation_def Inv_GetAttributeWithDefaultValue_def Inv_GetAttribute_def)
  moreover have "\<forall>ivk \<in> set (c_invokers sample_chain). host_port (GetURL ivk)"
    by (simp add: sample_chain_def tag_peers_host_port)
  moreover have "\<forall>p rules cached. object (chain_world True) p = Inr (TagRouter rules cached) \<longrightarrow> plain_tags rules"
    by (auto simp: object_def chain_world_def plain_tags_def split: option.split_asm if_split_asm)
  moreover have "length (c_invokers sample_chain) \<le> 2 ^ 32" by (simp add: sample_chain_def tag_peers_def)
  ultimately show ?thesis
    using RouterChain_index_transparent [OF sample_new sample_run sample_states(1), of set gray_call "\<lambda>_ _. 0" sample_consumer]
    by simp
qed

theorem RouterChain_stays_in_snapshot_witness:
  "RouterChain_Route chain_env (\<lambda>_ _. 0) sample_chain sample_chain sample_views sample_consumer gray_call =
     Inr ([tag_peer 7 ''1'' ''gray''], [], Inv_SetAttribute (Inv_SetAttribute gray_call RouterChainCacheGeneration (GUint64 1))
       RouterCacheDisable (GBool True)) \<and>
   backed [] (c_invokers sample_chain) (tag_peer 7 ''1'' ''gray'')"
proof -
  have "RouterChain_Route chain_env (\<lambda>_ _. 0) sample_chain sample_chain sample_views sample_consumer gray_call =
     Inr ([tag_peer 7 ''1'' ''gray''], [], Inv_SetAttribute (Inv_SetAttribute gray_call RouterChainCacheGeneration (GUint64 1))
       RouterCacheDisable (GBool True))"
    by code_simp
  then show ?thesis
    using RouterChain_stays_in_snapshot [OF sample_new sample_run sample_states(2), where x = "tag_peer 7 ''1'' ''gray''"]
    by simp
qed

end
