(* ===== verification/Static_Directory.thy ===== *)
theory Static_Directory
  imports Router_Chain
begin

text \<open>
  Directories of a fixed list of invokers (\<^verbatim>\<open>cluster/directory/static\<close>) with the fields of every
  directory (\<^verbatim>\<open>cluster/directory/base\<close>): listing goes through the chain of routers.
\<close>

section \<open>The common part\<close>

text \<open>\<open>bd_url\<close> is \<^const>\<open>None\<close> for a directory without invokers, \<open>bd_routerChain\<close> for one whose chain was set to nil.\<close>

record 'b base_directory =
  bd_url :: "url option"
  bd_destroyed :: bool
  bd_routerChain :: "'b RouterChain option"

definition base_NewDirectory :: "url option \<Rightarrow> 'b base_directory" where
  "base_NewDirectory u = \<lparr>bd_url = u, bd_destroyed = False, bd_routerChain = Some empty_chain\<rparr>"

definition SetRouterChain :: "'b RouterChain option \<Rightarrow> ('b, 'z) base_directory_scheme \<Rightarrow> ('b, 'z) base_directory_scheme" where
  "SetRouterChain c dir = dir\<lparr>bd_routerChain := c\<rparr>"

text \<open>A rule URL concerns a directory of the same application or of the same service.\<close>

definition isProperRouter :: "url \<Rightarrow> url \<Rightarrow> bool go" where
  "isProperRouter dirUrl u =
     (let app = GetParam u ApplicationKey '''';
          dirApp = GetParam dirUrl ApplicationKey '''';
          dirApp = (if length dirApp = 0 then case SubURL dirUrl of Some sub \<Rightarrow> GetParam sub ApplicationKey '''' | None \<Rightarrow> dirApp
                    else dirApp)
      in go_bind (if length (ServiceKey dirUrl) = 0
                  then (case SubURL dirUrl of None \<Rightarrow> Inl NilDereference | Some sub \<Rightarrow> Inr (ServiceKey sub))
                  else Inr (ServiceKey dirUrl)) (\<lambda>serviceKey.
           Inr (length app > 0 \<and> app = dirApp \<or> ServiceKey u = serviceKey)))"

text \<open>Only the first call runs the action.\<close>

definition DoDestroy :: "(('b, 'z) base_directory_scheme \<Rightarrow> ('b, 'z) base_directory_scheme) \<Rightarrow>
    ('b, 'z) base_directory_scheme \<Rightarrow> ('b, 'z) base_directory_scheme" where
  "DoDestroy action dir = (if bd_destroyed dir then dir else action (dir\<lparr>bd_destroyed := True\<rparr>))"

section \<open>Static directories\<close>

text \<open>\<open>sd_gone\<close> records the invokers that the directory has destroyed, in that order.\<close>

record 'b static_directory = "'b base_directory" +
  sd_invokers :: "invoker list"
  sd_gone :: "invoker list"

text \<open>
  Setting up the chain may write the application into the URL, which is the URL of the first
  invoker when a directory is created: the invokers are returned as they are afterwards.
\<close>

definition static_BuildRouterChain ::
  "'b router_env \<Rightarrow> router_factory list \<Rightarrow> url \<Rightarrow> ('b static_directory \<times> world, go_error option \<times> url) proc" where
  "static_BuildRouterChain env factories u = (\<lambda>(dir, w).
     if length (sd_invokers dir) = 0 then (Inr (Some (PlainError ''invokers == null''), u), (dir, w))
     else case NewRouterChain env factories u w of
            Inl p \<Rightarrow> (Inl p, (dir, w))
          | Inr (Inl e, u, w) \<Rightarrow> (Inr (Some e, u), (dir, w))
          | Inr (Inr c, u, w) \<Rightarrow>
              (case SetInvokers env (sd_invokers dir) (c, w) of
                 (Inl p, (c, w)) \<Rightarrow> (Inl p, (dir, w))
               | (Inr _, (c, w)) \<Rightarrow> (Inr (None, u), (SetRouterChain (Some c) dir, w))))"

definition with_first_url :: "url \<Rightarrow> invoker list \<Rightarrow> invoker list" where
  "with_first_url u ivks = (case ivks of [] \<Rightarrow> [] | ivk # rest \<Rightarrow> ivk\<lparr>GetURL := u\<rparr> # rest)"

definition application_url :: "url \<Rightarrow> url" where
  "application_url u =
     (case SubURL u of
        None \<Rightarrow> u
      | Some sub \<Rightarrow>
          if GetParam sub ApplicationKey '''' \<noteq> ''''
          then snd (CompareAndSwapParam u ApplicationKey '''' (GetParam sub ApplicationKey '''')) else u)"

definition static_NewDirectory ::
  "'b router_env \<Rightarrow> router_factory list \<Rightarrow> invoker list \<Rightarrow> (world, 'b static_directory) proc" where
  "static_NewDirectory env factories ivks w =
     (let u = (case ivks of [] \<Rightarrow> None | ivk # _ \<Rightarrow> Some (application_url (GetURL ivk)));
          ivks = (case u of None \<Rightarrow> ivks | Some u \<Rightarrow> with_first_url u ivks);
          dir = \<lparr>bd_url = u, bd_destroyed = False, bd_routerChain = Some empty_chain,
                 sd_invokers = ivks, sd_gone = []\<rparr>
      in case u of
           None \<Rightarrow>
             (case SetInvokers env ivks (empty_chain, w) of
                (r, (c, w)) \<Rightarrow> (go_bind r (\<lambda>_. Inr (SetRouterChain (Some c) dir)), w))
         | Some u \<Rightarrow>
             (case static_BuildRouterChain env factories u (dir, w) of
                (Inl p, (dir, w)) \<Rightarrow> (Inl p, w)
              | (Inr (None, _), (dir, w)) \<Rightarrow> (Inr dir, w)
              | (Inr (Some _, _), (dir, w)) \<Rightarrow>
                  (case SetInvokers env ivks (empty_chain, w) of
                     (r, (c, w)) \<Rightarrow> (go_bind r (\<lambda>_. Inr (SetRouterChain (Some c) dir)), w))))"

definition static_IsAvailable :: "(invoker \<Rightarrow> bool) \<Rightarrow> 'b static_directory \<Rightarrow> bool" where
  "static_IsAvailable avail dir =
     (if bd_destroyed dir then False
      else if length (sd_invokers dir) = 0 then False
      else list_all avail (sd_invokers dir))"

text \<open>
  A directory without a URL has no invokers, and then no router looks at the URL, for which
  \<open>no_url\<close> stands.  \<open>view\<close> is what the routers find, as in the chain.
\<close>

definition no_url :: url where "no_url = NewURLWithOptions []"

definition static_List ::
  "'b router_env \<Rightarrow> (nat \<Rightarrow> nat \<Rightarrow> nat) \<Rightarrow> (nat \<Rightarrow> 'b routerCache option \<times> world) \<Rightarrow> 'b static_directory \<Rightarrow>
   RPCInvocation \<Rightarrow> (invoker list \<times> scriptInvokerWrapper list \<times> RPCInvocation) go" where
  "static_List env draws view dir call =
     (case bd_routerChain dir of
        None \<Rightarrow> Inr (sd_invokers dir, [], call)
      | Some c \<Rightarrow>
          (case bd_url dir of
             Some u \<Rightarrow> RouterChain_Route env draws c c view u call
           | None \<Rightarrow> if c_invokers c = [] then RouterChain_Route env draws c c view no_url call else Inl NilDereference))"

definition static_Destroy :: "'b static_directory \<Rightarrow> 'b static_directory" where
  "static_Destroy = DoDestroy (\<lambda>dir. dir\<lparr>sd_gone := sd_gone dir @ sd_invokers dir, sd_invokers := []\<rparr>)"


section \<open>What a directory promises\<close>

text \<open>
  The clusters see a directory through its listing.  \<open>listing d how call\<close> is the listing for a call in
  directory \<open>d\<close> under the choices \<open>how\<close>, \<open>providers d\<close> the invokers it was given last, and
  \<open>reached d how\<close> that directory and choices come from a history of the program.
\<close>

locale invoker_directory =
  fixes listing :: "'d \<Rightarrow> 'h \<Rightarrow> RPCInvocation \<Rightarrow> (invoker list \<times> scriptInvokerWrapper list \<times> RPCInvocation) go"
    and providers :: "'d \<Rightarrow> invoker list"
    and reached :: "'d \<Rightarrow> 'h \<Rightarrow> bool"
  assumes listed_backed:
    "reached d how \<Longrightarrow> listing d how call = Inr (ivks, ws, call') \<Longrightarrow> x \<in> set ivks \<Longrightarrow> backed ws (providers d) x"
begin

lemma nothing_listed:
  assumes "reached d how" "listing d how call = Inr (ivks, ws, call')" "providers d = []"
  shows "ivks = []"
proof -
  have "backed ws l x \<Longrightarrow> l = [] \<Longrightarrow> False" for l x by (induction rule: backed.induct) auto
  then show ?thesis using listed_backed [OF assms(1,2)] assms(3) by (cases ivks) auto
qed

lemma listed_provider:
  assumes "reached d how" "listing d how call = Inr (ivks, [], call')"
  shows "set ivks \<subseteq> set (providers d)"
proof -
  have "backed ws l x \<Longrightarrow> ws = [] \<Longrightarrow> x \<in> set l" for ws l x by (induction rule: backed.induct) auto
  then show ?thesis using listed_backed [OF assms] by blast
qed

end

text \<open>The states of a chain that was built from the factories, and what a call finds in it.\<close>

definition reached_chain ::
  "'b router_env \<Rightarrow> 'b RouterChain \<Rightarrow> (nat \<Rightarrow> 'b routerCache option \<times> world) \<Rightarrow> bool" where
  "reached_chain env c view \<longleftrightarrow>
     (\<exists>factories u0 w0 start u1 w1 m w w'. NewRouterChain env factories u0 w0 = Inr (Inr start, u1, w1) \<and>
        chain_run env (start, w1) m (c, w) \<and> call_states env m (c, w) (c, w') view)"

lemma reached_chain_backed:
  assumes "reached_chain env c view" "RouterChain_Route env draws c c view u call = Inr (ivks, ws, call')" "x \<in> set ivks"
  shows "backed ws (c_invokers c) x"
  using assms(1) RouterChain_Route_backed [OF _ _ _ assms(2,3)] unfolding reached_chain_def by blast

text \<open>The static directory keeps the promise with the snapshot of its chain.\<close>

definition chain_providers :: "'b RouterChain option \<Rightarrow> invoker list \<Rightarrow> invoker list" where
  "chain_providers c ivks = (case c of None \<Rightarrow> ivks | Some c \<Rightarrow> c_invokers c)"

lemma static_List_backed:
  assumes "\<forall>c. bd_routerChain dir = Some c \<longrightarrow> reached_chain env c view"
    "static_List env draws view dir call = Inr (ivks, ws, call')" "x \<in> set ivks"
  shows "backed ws (chain_providers (bd_routerChain dir) (sd_invokers dir)) x"
  using assms
  by (auto simp: static_List_def chain_providers_def intro: backed.direct dest: reached_chain_backed
      split: option.split_asm if_split_asm)

interpretation static_dir: invoker_directory
  "\<lambda>(env, dir) (draws, view) call. static_List env draws view dir call"
  "\<lambda>(env, dir). chain_providers (bd_routerChain dir) (sd_invokers dir)"
  "\<lambda>(env, dir) (draws, view). \<forall>c. bd_routerChain dir = Some c \<longrightarrow> reached_chain env c view"
  by unfold_locales (auto intro: static_List_backed)

text \<open>A destroyed directory still hands out the invokers of its chain.\<close>

lemma static_List_after_Destroy:
  "bd_routerChain dir = Some c \<Longrightarrow> static_List env draws view (static_Destroy dir) call = static_List env draws view dir call"
  by (simp add: static_Destroy_def DoDestroy_def static_List_def)

lemma static_Destroy_once: "static_Destroy (static_Destroy dir) = static_Destroy dir"
  by (simp add: static_Destroy_def DoDestroy_def)

end
