(* ===== verification/Configurator.thy ===== *)
theory Configurator
  imports Condition_Router Url_Parse
begin

text \<open>
  Overriding rules: \<^verbatim>\<open>config_center/configurator/override.go\<close> writes the parameters of a rule into the
  URLs it matches, \<^verbatim>\<open>config_center/parser\<close> turns a rule text into rule URLs, and
  \<^verbatim>\<open>registry/base_configuration_listener.go\<close> keeps the rules of a listener.  The YAML decoder is a
  parameter.
\<close>

section \<open>Applying a rule\<close>

abbreviation SideKey :: string where "SideKey \<equiv> ''side''"
abbreviation ConfigVersionKey :: string where "ConfigVersionKey \<equiv> ''config-center.configVersion''"
abbreviation OverrideProvidersKey :: string where "OverrideProvidersKey \<equiv> ''providerAddresses''"
abbreviation MatchCondition :: string where "MatchCondition \<equiv> ''MATCH_CONDITION''"
abbreviation AnyHostValue :: string where "AnyHostValue \<equiv> ''0.0.0.0''"

text \<open>
  \<open>o_localIP\<close> is the local address, \<open>o_condition\<close> the condition that a value points to (\<^const>\<open>None\<close> for
  a value of another type, \<^term>\<open>Some None\<close> for a nil pointer), \<open>o_regex\<close> and \<open>o_cidr\<close> whether a text
  matches a pattern of \<^verbatim>\<open>regexp\<close> and an address is in an address block of \<^verbatim>\<open>net\<close>; both are false for a
  pattern that is malformed.
\<close>

record AddressMatch =
  am_Wildcard :: string
  am_Cird :: string
  am_Exact :: string

record ConditionMatch =
  cm_Address :: "AddressMatch option"
  cm_ProviderAddress :: "AddressMatch option"
  cm_Service :: "StringMatch list option"
  cm_App :: "StringMatch list option"
  cm_Param :: "ParamMatch option list"

record override_env =
  o_localIP :: string
  o_condition :: "go_any \<Rightarrow> ConditionMatch option option"
  o_regex :: "string \<Rightarrow> string \<Rightarrow> bool"
  o_cidr :: "string \<Rightarrow> string \<Rightarrow> bool"

definition IsMatchGlobPattern :: "string \<Rightarrow> string \<Rightarrow> bool" where
  "IsMatchGlobPattern pattern val =
     (if AnyValue = pattern then True
      else if pattern = '''' \<and> val = '''' then True
      else if pattern = '''' \<or> val = '''' then False
      else case Index pattern AnyValue of
             None \<Rightarrow> val = pattern
           | Some i \<Rightarrow>
               if i = length pattern - 1 then HasPrefix val (take i pattern)
               else if i = 0 then HasSuffix val (drop (i + 1) pattern)
               else HasPrefix val (take i pattern) \<and> HasSuffix val (drop (i + 1) pattern))"

definition AddressMatch_IsMatch :: "override_env \<Rightarrow> AddressMatch \<Rightarrow> string \<Rightarrow> bool" where
  "AddressMatch_IsMatch env p val =
     (if am_Cird p \<noteq> '''' \<and> val \<noteq> '''' then o_cidr env (am_Cird p) val
      else if am_Wildcard p \<noteq> '''' \<and> val \<noteq> ''''
      then if AnyValue = val \<or> AnyHostValue = val then True else IsMatchGlobPattern (am_Wildcard p) val
      else if am_Exact p \<noteq> '''' \<and> val \<noteq> '''' then am_Exact p = val
      else False)"

text \<open>A matcher that is missing is a nil pointer.\<close>

definition deref :: "'a option \<Rightarrow> ('a \<Rightarrow> bool) \<Rightarrow> bool go \<Rightarrow> bool go" where
  "deref p test rest = (case p of None \<Rightarrow> Inl NilDereference | Some x \<Rightarrow> if \<not> test x then Inr False else rest)"

fun params_match :: "override_env \<Rightarrow> ParamMatch option list \<Rightarrow> url \<Rightarrow> bool go" where
  "params_match env [] u = Inr True"
| "params_match env (p # ps) u = deref p (\<lambda>p. ParamMatch_IsMatch (o_regex env) p u) (params_match env ps u)"

definition ConditionMatch_IsMatch :: "override_env \<Rightarrow> ConditionMatch \<Rightarrow> string \<Rightarrow> url \<Rightarrow> bool go" where
  "ConditionMatch_IsMatch env c host u =
     deref (cm_Address c) (\<lambda>m. AddressMatch_IsMatch env m host)
      (deref (cm_ProviderAddress c) (\<lambda>m. AddressMatch_IsMatch env m (Location u))
       (deref (cm_Service c) (\<lambda>m. ListStringMatch_IsMatch (o_regex env) m (ServiceKey u))
        (deref (cm_App c) (\<lambda>m. ListStringMatch_IsMatch (o_regex env) m (GetParam u ApplicationKey ''''))
         (params_match env (cm_Param c) u))))"

definition getConditionKeys :: "string list" where
  "getConditionKeys = [CategoryKey, ''check'', ''enabled'', GroupKey, VersionKey, ApplicationKey, SideKey, ConfigVersionKey,
     ''config-center.compatible_config'']"

text \<open>A rule parameter that is a condition on the URL.\<close>

definition is_condition :: "string \<Rightarrow> bool" where
  "is_condition k \<longleftrightarrow> HasPrefix k ''~'' \<or> k = ApplicationKey \<or> k = SideKey"

definition condition_fails :: "url \<Rightarrow> url \<Rightarrow> string \<Rightarrow> bool" where
  "condition_fails c u k \<longleftrightarrow>
     (let value = GetParam c k ''''
      in length value \<noteq> 0 \<and> value \<noteq> AnyValue \<and> value \<noteq> GetParam u (TrimPrefix k ''~'') '''')"

text \<open>The keys met so far and whether a condition failed, which ends the loop over the rule's parameters.\<close>

definition condition_step :: "url \<Rightarrow> url \<Rightarrow> string \<Rightarrow> string \<Rightarrow> string list \<times> bool \<Rightarrow> (string list \<times> bool) \<times> bool" where
  "condition_step c u k v = (\<lambda>(keys, returnUrl).
     if is_condition k
     then if condition_fails c u k then ((keys @ [k], True), False) else ((keys @ [k], returnUrl), True)
     else ((keys, returnUrl), True))"

definition configureIfMatchInternal :: "url \<Rightarrow> url \<Rightarrow> url go" where
  "configureIfMatchInternal c u =
     (let configApp = GetParam c ApplicationKey (Username c);
          currentApp = GetParam u ApplicationKey (Username u)
      in if length configApp = 0 \<or> AnyValue = configApp \<or> configApp = currentApp
         then go_bind (RangeParams (params c) (condition_step c u) (getConditionKeys, False)) (\<lambda>(keys, returnUrl).
                Inr (if returnUrl then u else SetParams u (GetParams (CloneExceptParams c (Some keys)))))
         else Inr u)"

definition configureIfMatch :: "url \<Rightarrow> string \<Rightarrow> url \<Rightarrow> url go" where
  "configureIfMatch c host u =
     (if AnyHostValue = Ip c \<or> host = Ip c
      then let providers = GetParam c OverrideProvidersKey ''''
           in if length providers = 0 \<or> Contains providers (Location u) \<or> Contains providers AnyHostValue
              then configureIfMatchInternal c u else Inr u
      else Inr u)"

definition configureIfMatchV3 :: "override_env \<Rightarrow> url \<Rightarrow> string \<Rightarrow> url \<Rightarrow> url go" where
  "configureIfMatchV3 env c host u =
     (case GetAttribute c MatchCondition of
        None \<Rightarrow> Inr u
      | Some a \<Rightarrow>
          (case o_condition env a of
             None \<Rightarrow> Inl (Panicked ''interface conversion'')
           | Some None \<Rightarrow> Inl NilDereference
           | Some (Some m) \<Rightarrow>
               go_bind (ConditionMatch_IsMatch env m host u) (\<lambda>matches.
                 Inr (if matches then SetParams u (GetParams (CloneExceptParams c (Some getConditionKeys))) else u))))"

definition configureDeprecated :: "override_env \<Rightarrow> url \<Rightarrow> url \<Rightarrow> url go" where
  "configureDeprecated env c u =
     (if Port c \<noteq> ''0''
      then if Port u = Port c then configureIfMatch c (Ip u) u else Inr u
      else if GetParam u SideKey '''' = ''consumer'' then configureIfMatch c (o_localIP env) u
           else configureIfMatch c AnyHostValue u)"

definition Configure :: "override_env \<Rightarrow> url \<Rightarrow> url \<Rightarrow> url go" where
  "Configure env c u =
     (if GetParam c ''enabled'' ''true'' = ''false'' \<or> length (Location c) = 0 then Inr u
      else
        let apiVersion = GetParam c ConfigVersionKey ''''
        in if length apiVersion \<noteq> 0
           then
             let currentSide = GetParam u SideKey ''''; configuratorSide = GetParam c SideKey '''';
                 host = (if currentSide = configuratorSide \<and> ''consumer'' = currentSide then o_localIP env
                         else if currentSide = configuratorSide \<and> ''provider'' = currentSide then Ip u else '''')
             in if HasPrefix apiVersion ''v3.0'' then configureIfMatchV3 env c host u else configureIfMatch c host u
           else configureDeprecated env c u)"

fun doOverrideUrl :: "override_env \<Rightarrow> url list \<Rightarrow> url \<Rightarrow> url go" where
  "doOverrideUrl env [] u = Inr u"
| "doOverrideUrl env (c # cs) u = go_bind (Configure env c u) (doOverrideUrl env cs)"

section \<open>The rules of a listener\<close>

text \<open>An \<^verbatim>\<open>empty\<close> URL ends the list and drops the rules before it.  A configurator is its URL.\<close>

fun ToConfigurators :: "url list \<Rightarrow> url list \<Rightarrow> url list" where
  "ToConfigurators acc [] = acc"
| "ToConfigurators acc (u # us) =
     (if Protocol u = ''empty'' then []
      else let c = DelParam (Clone u) ''anyhost''
           in ToConfigurators (if length (GetParams c) = 0 then acc else acc @ [c]) us)"

text \<open>\<open>parse\<close> is the parser of the configuration center, \<open>cl_center\<close> whether there is one.\<close>

record config_listener =
  cl_configurators :: "url list"
  cl_center :: bool

definition genConfiguratorFromRawRule ::
  "(string \<Rightarrow> go_error + url list) \<Rightarrow> string \<Rightarrow> config_listener \<Rightarrow> (go_error option \<times> config_listener) go" where
  "genConfiguratorFromRawRule parse rawConfig l =
     (if \<not> cl_center l then Inl NilDereference
      else case parse rawConfig of
             Inl e \<Rightarrow> Inr (Some e, l)
           | Inr us \<Rightarrow> Inr (None, l\<lparr>cl_configurators := ToConfigurators [] us\<rparr>))"

definition listener_InitWith ::
  "(string \<Rightarrow> go_error + url list) \<Rightarrow> string \<Rightarrow> nat \<Rightarrow> conf_center option \<Rightarrow> (config_listener \<times> conf_center option) go" where
  "listener_InitWith parse key self cc =
     (case cc of
        None \<Rightarrow> Inr (\<lparr>cl_configurators = [], cl_center = False\<rparr>, None)
      | Some c \<Rightarrow>
          let c = subscribe (AddListener key self) c; l = \<lparr>cl_configurators = [], cl_center = True\<rparr>
          in case cc_GetRule c key of
               Inl _ \<Rightarrow> Inr (l, Some c)
             | Inr rawConfig \<Rightarrow>
                 if length rawConfig > 0
                 then go_bind (genConfiguratorFromRawRule parse rawConfig l) (\<lambda>(_, l). Inr (l, Some c))
                 else Inr (l, Some c))"

definition listener_Process ::
  "(string \<Rightarrow> go_error + url list) \<Rightarrow> ConfigChangeEvent \<Rightarrow> config_listener \<Rightarrow> config_listener go" where
  "listener_Process parse ev l =
     (if ev_ConfigType ev = EventTypeDel then Inr (l\<lparr>cl_configurators := []\<rparr>)
      else case ev_Value ev of
             GStr raw \<Rightarrow> go_bind (genConfiguratorFromRawRule parse raw l) (\<lambda>(_, l). Inr l)
           | _ \<Rightarrow> Inl (Panicked ''interface conversion''))"

section \<open>From a rule text to rule URLs\<close>

record ConfigItem =
  ci_Type :: string
  ci_Enabled :: bool
  ci_Addresses :: "string list"
  ci_ProviderAddresses :: "string list"
  ci_Services :: "string list"
  ci_Applications :: "string list"
  ci_Parameters :: "(string \<times> string) list"
  ci_Side :: string
  ci_Match :: go_any

record ConfiguratorConfig =
  cf_ConfigVersion :: string
  cf_Scope :: string
  cf_Key :: string
  cf_Enabled :: bool
  cf_Configs :: "ConfigItem list"

definition getServiceString :: "string \<Rightarrow> go_error + string" where
  "getServiceString service =
     (if length service = 0 then Inl (PlainError ''service field in configuration is null'')
      else
        let (serviceStr, service) =
              (case Index service ''/'' of
                 Some i \<Rightarrow> if i > 0 then (''group='' @ take i service @ ''&'', drop (i + 1) service) else ('''', service)
               | None \<Rightarrow> ('''', service));
            (serviceStr, service) =
              (case Index service '':'' of
                 Some j \<Rightarrow> if j > 0 then (serviceStr @ ''version='' @ drop (j + 1) service @ ''&'', take j service)
                           else (serviceStr, service)
               | None \<Rightarrow> (serviceStr, service))
        in Inr (service @ ''?'' @ serviceStr))"

definition getParamString :: "ConfigItem \<Rightarrow> go_error + string" where
  "getParamString item =
     (if length (ci_Parameters item) = 0
      then Inl (PlainError ''invalid configurator rule, please specify at least one parameter you want to change in the rule'')
      else Inr (''category=dynamicconfigurators'' @
        (if length (ci_Side item) > 0 then ''&side='' @ ci_Side item else '''') @
        concat (map (\<lambda>(k, v). ''&'' @ k @ ''='' @ v) (ci_Parameters item)) @
        ''&'' @ OverrideProvidersKey @ ''='' @ join '','' (ci_ProviderAddresses item)))"

definition getEnabledString :: "ConfigItem \<Rightarrow> ConfiguratorConfig \<Rightarrow> string" where
  "getEnabledString item config =
     ''&enabled='' @
     (let b = (if length (ci_Type item) = 0 \<or> ci_Type item = ''general'' then cf_Enabled config else ci_Enabled item)
      in if b then ''true'' else ''false'')"

text \<open>The error a text that is no URL leads to.\<close>

definition url_failure :: "url_error \<Rightarrow> go_error" where
  "url_failure e =
     PlainError (case e of
        EscapeError s \<Rightarrow> ''invalid URL escape '' @ s
      | InvalidHostError s \<Rightarrow> ''invalid character in host name '' @ s
      | ParseError s \<Rightarrow> s
      | AddrError s \<Rightarrow> s)"

fun parse_urls :: "go_any \<Rightarrow> string list \<Rightarrow> go_error + url list" where
  "parse_urls match [] = Inr []"
| "parse_urls match (t # ts) =
     (case NewURL t [] of
        Inl e \<Rightarrow> Inl (url_failure e)
      | Inr u \<Rightarrow>
          (case parse_urls match ts of Inl e \<Rightarrow> Inl e | Inr us \<Rightarrow> Inr (SetAttribute u MatchCondition match # us)))"

text \<open>The applications are appended without an equals sign.\<close>

fun service_addresses ::
  "ConfigItem \<Rightarrow> ConfiguratorConfig \<Rightarrow> string list \<Rightarrow> go_error + url list" where
  "service_addresses item config [] = Inr []"
| "service_addresses item config (v # vs) =
     (case getServiceString (cf_Key config) of
        Inl e \<Rightarrow> Inl e
      | Inr serviceStr \<Rightarrow>
          (case getParamString item of
             Inl e \<Rightarrow> Inl e
           | Inr paramStr \<Rightarrow>
               let urlStr = ''override://'' @ v @ ''/'' @ serviceStr @ paramStr @ getEnabledString item config @
                     ''&category=dynamicconfigurators'' @ ''&configVersion='' @ cf_ConfigVersion config
               in case parse_urls (ci_Match item)
                    (if length (ci_Applications item) > 0
                     then map (\<lambda>app. urlStr @ ''&application'' @ app) (ci_Applications item) else [urlStr]) of
                    Inl e \<Rightarrow> Inl e
                  | Inr us \<Rightarrow>
                      (case service_addresses item config vs of Inl e \<Rightarrow> Inl e | Inr us' \<Rightarrow> Inr (us @ us'))))"

definition serviceItemToUrls :: "ConfigItem \<Rightarrow> ConfiguratorConfig \<Rightarrow> go_error + url list" where
  "serviceItemToUrls item config =
     service_addresses item config
       (if length (ci_Addresses item) = 0 then [AnyHostValue] else ci_Addresses item)"

text \<open>The text for a service goes on from the text for the service before it.\<close>

fun app_services ::
  "ConfigItem \<Rightarrow> ConfiguratorConfig \<Rightarrow> string \<Rightarrow> string list \<Rightarrow> go_error + url list" where
  "app_services item config urlStr [] = Inr []"
| "app_services item config urlStr (vs # rest) =
     (case getServiceString vs of
        Inl e \<Rightarrow> Inl e
      | Inr serviceStr \<Rightarrow>
          (case getParamString item of
             Inl e \<Rightarrow> Inl e
           | Inr paramStr \<Rightarrow>
               let urlStr = urlStr @ serviceStr @ paramStr @ ''&application='' @ cf_Key config @
                     getEnabledString item config @ ''&category=appdynamicconfigurators'' @ ''&configVersion='' @
                     cf_ConfigVersion config
               in case parse_urls (ci_Match item) [urlStr] of
                    Inl e \<Rightarrow> Inl e
                  | Inr us \<Rightarrow>
                      (case app_services item config urlStr rest of Inl e \<Rightarrow> Inl e | Inr us' \<Rightarrow> Inr (us @ us'))))"

fun app_addresses ::
  "ConfigItem \<Rightarrow> ConfiguratorConfig \<Rightarrow> string list \<Rightarrow> go_error + url list" where
  "app_addresses item config [] = Inr []"
| "app_addresses item config (v # vs) =
     (case app_services item config (''override://'' @ v @ ''/'')
        (if length (ci_Services item) = 0 then [AnyValue] else ci_Services item) of
        Inl e \<Rightarrow> Inl e
      | Inr us \<Rightarrow> (case app_addresses item config vs of Inl e \<Rightarrow> Inl e | Inr us' \<Rightarrow> Inr (us @ us')))"

definition appItemToUrls :: "ConfigItem \<Rightarrow> ConfiguratorConfig \<Rightarrow> go_error + url list" where
  "appItemToUrls item config =
     app_addresses item config (if length (ci_Addresses item) = 0 then [AnyHostValue] else ci_Addresses item)"

fun items_urls :: "(ConfigItem \<Rightarrow> go_error + url list) \<Rightarrow> ConfigItem list \<Rightarrow> go_error + url list" where
  "items_urls f [] = Inr []"
| "items_urls f (i # is) =
     (case f i of Inl e \<Rightarrow> Inl e | Inr us \<Rightarrow> (case items_urls f is of Inl e \<Rightarrow> Inl e | Inr us' \<Rightarrow> Inr (us @ us')))"

definition ParseToUrls ::
  "(string \<Rightarrow> go_error + ConfiguratorConfig) \<Rightarrow> string \<Rightarrow> go_error + url list" where
  "ParseToUrls unmarshal content =
     (case unmarshal content of
        Inl e \<Rightarrow> Inl e
      | Inr config \<Rightarrow>
          items_urls (\<lambda>item. if cf_Scope config = ''application'' then appItemToUrls item config
                             else serviceItemToUrls item config) (cf_Configs config))"

section \<open>What a rule changes\<close>

text \<open>The keys a rule that applies never writes; a 3.0 rule has its conditions elsewhere.\<close>

definition protected :: "url \<Rightarrow> string \<Rightarrow> bool" where
  "protected c k \<longleftrightarrow>
     k \<in> {''category'', ''check'', ''enabled'', ''group'', ''version'', ''application'', ''side'',
          ''config-center.configVersion'', ''config-center.compatible_config''} \<or>
     \<not> HasPrefix (GetParam c ''config-center.configVersion'' '''') ''v3.0'' \<and> HasPrefix k ''~''"

lemma protected_keys:
  "protected c k \<longleftrightarrow>
     k \<in> set getConditionKeys \<or> \<not> HasPrefix (GetParam c ConfigVersionKey '''') ''v3.0'' \<and> is_condition k"
  by (auto simp: protected_def getConditionKeys_def is_condition_def)

lemma condition_step_eq:
  "condition_step c u k v (keys, r) =
     (if is_condition k
      then if condition_fails c u k then ((keys @ [k], True), False) else ((keys @ [k], r), True)
      else ((keys, r), True))"
  by (simp add: condition_step_def)

lemma range_conditions:
  assumes "RangeParams ps (condition_step c u) (ks, False) = Inr (keys, False)"
  shows "set keys = set ks \<union> {k \<in> fst ` set ps. is_condition k}"
  using assms
proof (induction ps arbitrary: ks)
  case (Cons e ps)
  obtain k v vs where e: "e = (k, v # vs)" using Cons.prems by (cases e) (auto split: list.split_asm)
  show ?case
  proof (cases "is_condition k")
    case True
    then have "RangeParams ps (condition_step c u) (ks @ [k], False) = Inr (keys, False)"
      using Cons.prems e by (auto simp: condition_step_eq split: if_split_asm)
    from Cons.IH [OF this] show ?thesis using True e by auto
  next
    case False
    then have "RangeParams ps (condition_step c u) (ks, False) = Inr (keys, False)"
      using Cons.prems e by (simp add: condition_step_eq)
    from Cons.IH [OF this] show ?thesis using False e by auto
  qed
qed simp

text \<open>Writing the parameters of a copy that lacks some keys.\<close>

lemma map_of_SetParams:
  assumes "values_ok m"
  shows "map_of (params (SetParams u m)) k = (case map_of m k of None \<Rightarrow> map_of (params u) k | Some vs \<Rightarrow> Some vs)"
proof -
  have "values_ok m \<Longrightarrow>
    map_of (fold (\<lambda>(k, vs) ps. if length vs = 0 then map_del k ps else map_put k vs ps) m ps) k =
      (case map_of m k of None \<Rightarrow> map_of ps k | Some vs \<Rightarrow> Some vs)" for ps
  proof (induction m arbitrary: ps)
    case (Cons e m)
    obtain k' vs where e: "e = (k', vs)" by fastforce
    have "map_of m k' = None" "vs \<noteq> []" "values_ok m"
      using Cons.prems by (auto simp: e values_ok.simps map_of_eq_None_iff)
    then show ?case using Cons.IH [of "map_put k' vs ps"] by (auto simp: e split: option.split)
  qed simp
  then show ?thesis using assms by (simp add: SetParams_def upd_def)
qed

lemma SetParams_copy:
  assumes "url_ok c"
  shows "map_of (params (SetParams u (GetParams (CloneExceptParams c (Some keys))))) k =
    (if k \<in> set keys then map_of (params u) k
     else case map_of (params c) k of None \<Rightarrow> map_of (params u) k | Some vs \<Rightarrow> Some vs)"
proof -
  let ?m = "filter (\<lambda>e. fst e \<notin> set keys) (params c)"
  have ok: "values_ok (params c)" using assms by (cases c) simp
  then have "values_ok ?m" by (auto simp: values_ok.simps intro: distinct_map_filter)
  moreover have "GetParams (CloneExceptParams c (Some keys)) = ?m"
    using assms \<open>values_ok ?m\<close>
    by (simp add: GetParams_def CopyParams_def CloneExceptParams_def CloneWithFilter_eq upd_def shouldCopyParam_def
        copyURLValues_id values_ok.simps)
  moreover have "map_of (filter (\<lambda>e. fst e \<notin> set keys) ps) k = (if k \<in> set keys then None else map_of ps k)" for ps :: url_values
    by (induction ps) auto
  ultimately show ?thesis by (simp add: map_of_SetParams)
qed

lemma configureIfMatchInternal_writes:
  assumes "url_ok c" "configureIfMatchInternal c u = Inr u'" "u' \<noteq> u"
  shows "map_of (params u') k =
    (if k \<in> set getConditionKeys \<or> is_condition k then map_of (params u) k
     else case map_of (params c) k of None \<Rightarrow> map_of (params u) k | Some vs \<Rightarrow> Some vs)"
proof -
  obtain keys where keys: "RangeParams (params c) (condition_step c u) (getConditionKeys, False) = Inr (keys, False)"
    "u' = SetParams u (GetParams (CloneExceptParams c (Some keys)))"
    using assms(2,3) by (auto simp: configureIfMatchInternal_def Let_def elim!: go_bindE split: if_split_asm)
  have "k \<in> set keys \<longleftrightarrow> k \<in> set getConditionKeys \<or> is_condition k \<and> map_of (params c) k \<noteq> None"
    using range_conditions [OF keys(1)] unfolding map_of_eq_None_iff by blast
  then show ?thesis unfolding keys(2) SetParams_copy [OF assms(1)] by (cases "map_of (params c) k") simp_all
qed

text \<open>
  C28 (what an overriding rule writes): a rule either leaves a URL alone or writes exactly its own
  parameters into it, except for the reserved keys and the conditions of the rule, and keeps every
  other parameter of the URL.  In particular a rule never changes the group or the version.
\<close>

theorem Configure_writes:
  assumes "url_ok c" "Configure env c u = Inr u'" "u' \<noteq> u"
  shows "map_of (params u') k =
    (if protected c k then map_of (params u) k
     else case map_of (params c) k of None \<Rightarrow> map_of (params u) k | Some vs \<Rightarrow> Some vs)"
proof (cases "HasPrefix (GetParam c ConfigVersionKey '''') ''v3.0''")
  case True
  then have "GetParam c ConfigVersionKey '''' \<noteq> ''''" by auto
  then obtain host where "configureIfMatchV3 env c host u = Inr u'"
    using assms(2,3) True by (auto simp: Configure_def Let_def split: if_split_asm)
  then have "u' = SetParams u (GetParams (CloneExceptParams c (Some getConditionKeys)))"
    using assms(3) by (auto simp: configureIfMatchV3_def elim!: go_bindE split: option.split_asm if_split_asm)
  then show ?thesis using True SetParams_copy [OF assms(1)] by (simp add: protected_keys)
next
  case False
  then obtain host where "configureIfMatch c host u = Inr u'"
    using assms(2,3) by (auto simp: Configure_def configureDeprecated_def Let_def split: if_split_asm)
  then have "configureIfMatchInternal c u = Inr u'"
    using assms(3) by (auto simp: configureIfMatch_def Let_def split: if_split_asm)
  from configureIfMatchInternal_writes [OF assms(1) this assms(3)] show ?thesis
    using False by (simp add: protected_keys)
qed

definition no_conditions :: override_env where
  "no_conditions = \<lparr>o_localIP = ''10.0.0.9'', o_condition = \<lambda>_. None, o_regex = \<lambda>_ _. False, o_cidr = \<lambda>_ _. False\<rparr>"

definition weight_rule :: url where
  "weight_rule = NewURLWithOptions [WithProtocol ''override'', WithIp ''0.0.0.0'', WithPort ''0'',
     WithParamsValue ''weight'' ''5'', WithParamsValue ''group'' ''other'', WithParamsValue ''~region'' ''*'']"

theorem Configure_writes_witness:
  "\<exists>u. Configure no_conditions weight_rule sample_provider = Inr u \<and>
     map_of (params u) ''weight'' = Some [''5''] \<and> map_of (params u) ''group'' = map_of (params sample_provider) ''group''"
proof -
  let ?env = no_conditions
  let ?r = "case Configure ?env weight_rule sample_provider of Inr u \<Rightarrow> u | Inl _ \<Rightarrow> sample_provider"
  have "Configure ?env weight_rule sample_provider = Inr ?r" "?r \<noteq> sample_provider" by code_simp+
  moreover have "url_ok weight_rule" by code_simp
  moreover have "protected weight_rule ''group''" "\<not> protected weight_rule ''weight''"
    "map_of (params weight_rule) ''weight'' = Some [''5'']" by code_simp+
  ultimately show ?thesis
    using Configure_writes [of weight_rule ?env sample_provider ?r "''group''"]
      Configure_writes [of weight_rule ?env sample_provider ?r "''weight''"] by auto
qed


text \<open>
  A rule text that names no address gives the location \<^verbatim>\<open>0.0.0.0\<close> without a port, so that the rule URL
  has neither an address nor a port, and the rule changes no URL.
\<close>

definition weight_config :: ConfiguratorConfig where
  "weight_config =
     \<lparr>cf_ConfigVersion = ''v2.7'', cf_Scope = ''service'', cf_Key = ''org.apache.DemoService'', cf_Enabled = True,
      cf_Configs = [\<lparr>ci_Type = '''', ci_Enabled = True, ci_Addresses = [], ci_ProviderAddresses = [], ci_Services = [],
        ci_Applications = [], ci_Parameters = [(''weight'', ''5'')], ci_Side = '''', ci_Match = GNil\<rparr>]\<rparr>"

lemma parsed_rule_ignored:
  "case ParseToUrls (\<lambda>_. Inr weight_config) ''rule'' of
     Inr [c] \<Rightarrow> GetParam c ''weight'' '''' = ''5'' \<and> Location c = ''0.0.0.0'' \<and> Ip c = '''' \<and>
       Configure no_conditions c sample_provider = Inr sample_provider
   | _ \<Rightarrow> False"
  by code_simp

lemma rule_without_address:
  assumes "Ip c = ''''" "Port c = ''''" "GetParam c ConfigVersionKey '''' = ''''" "Ip u \<noteq> ''''"
  shows "Configure env c u = Inr u"
  using assms by (auto simp: Configure_def configureDeprecated_def configureIfMatch_def)

end
