(* ===== verification/Registry_Directory.thy ===== *)
theory Registry_Directory
  imports Static_Directory Configurator Rpc_Status "HOL-Library.Multiset"
begin

text \<open>
  The directory of the providers a registry reports (\<^verbatim>\<open>registry/directory/directory.go\<close>): it keeps one
  invoker for each provider, created by the protocol and destroyed when the provider disappears,
  merges the consumer's URL and the overriding rules into the providers' URLs, and hands the
  invokers to the chain of routers.  A closing notice removes a provider before the registry does;
  a tombstone then keeps stale registry events from adding it back for a while.

  A notification is one step here.  The code takes no lock around the whole of it, so this is the
  behaviour when the registry and the configuration center notify one at a time.
\<close>

section \<open>Events\<close>

record ServiceEvent =
  se_Action :: event_type
  se_Service :: "url option"
  se_key :: string
  se_updated :: bool
  se_KeyFunc :: "(url \<Rightarrow> string) option"

definition se_Update :: "url \<Rightarrow> ServiceEvent \<Rightarrow> ServiceEvent" where
  "se_Update u e = e\<lparr>se_Service := Some u, se_updated := True\<rparr>"

text \<open>The key is computed once and kept in the event.\<close>

definition se_Key :: "ServiceEvent \<Rightarrow> (string \<times> ServiceEvent) go" where
  "se_Key e =
     (if length (se_key e) > 0 then Inr (se_key e, e)
      else case se_Service e of
             None \<Rightarrow> Inl NilDereference
           | Some u \<Rightarrow>
               let key = (case se_KeyFunc e of None \<Rightarrow> GetCacheInvokerMapKey u | Some f \<Rightarrow> f u)
               in Inr (key, e\<lparr>se_key := key\<rparr>))"

definition cloneServiceEvents :: "ServiceEvent list \<Rightarrow> ServiceEvent list" where
  "cloneServiceEvents es =
     map (\<lambda>e. \<lparr>se_Action = se_Action e, se_Service = map_option Clone (se_Service e), se_key = '''',
               se_updated = False, se_KeyFunc = se_KeyFunc e\<rparr>) es"

definition isConfiguratorURL :: "url option \<Rightarrow> bool" where
  "isConfiguratorURL u =
     (case u of
        None \<Rightarrow> False
      | Some u \<Rightarrow> Protocol u = ''override'' \<or> GetParam u CategoryKey DefaultCategory = ''configurators'')"

definition is_router_url :: "url \<Rightarrow> bool" where
  "is_router_url u \<longleftrightarrow> Protocol u = ''router'' \<or> GetParam u CategoryKey DefaultCategory = ''category''"

section \<open>State\<close>

text \<open>Times are nanoseconds on one clock.\<close>

record closingTombstone =
  ct_InstanceKey :: string
  ct_ServiceKey :: string
  ct_Address :: string
  ct_Timestamp :: string
  ct_Source :: string
  ct_ExpireAt :: int

text \<open>
  What the directory calls: the routers and their factories, the overriding rules, the protocol
  (does \<^verbatim>\<open>Refer\<close> return an invoker for a URL), the comparison of URLs and the names of the known
  clusters.  The default comparison is \<^const>\<open>IsEquals\<close> without excluded keys.
\<close>

record 'b registry_env =
  r_routers :: "'b router_env"
  r_factories :: "router_factory list"
  r_override :: override_env
  r_refer :: "url \<Rightarrow> bool"
  r_equal :: "url \<Rightarrow> url \<Rightarrow> bool go"
  r_cluster :: "string \<Rightarrow> bool"

text \<open>
  \<open>rd_referred\<close> and \<open>rd_gone\<close> record the invokers the protocol has returned and those that were
  destroyed, oldest first; \<open>rd_joined\<close> the invokers behind the cluster invoker of a group;
  \<open>rd_callbacks\<close> the calls of the callbacks of full notifications.
\<close>

record 'b RegistryDirectory =
  rd_url :: url
  rd_destroyed :: bool
  rd_cacheInvokers :: "invoker list"
  rd_cacheInvokersMap :: "(string \<times> invoker) list"
  rd_consumerURL :: url
  rd_cacheOriginUrl :: "url option"
  rd_cachedProviderEvents :: "ServiceEvent list"
  rd_configurators :: "url list"
  rd_consumerListener :: config_listener
  rd_referenceListener :: config_listener
  rd_SubscribedUrl :: "url option"
  rd_RegisteredUrl :: "url option"
  rd_closingTombstones :: "(string \<times> closingTombstone) list"
  rd_closingTombstoneTTL :: int
  rd_chain :: "'b RouterChain option"
  rd_world :: world
  rd_status :: rpc_state
  rd_joined :: "(nat \<times> invoker list) list"
  rd_referred :: "invoker list"
  rd_gone :: "invoker list"
  rd_callbacks :: nat
  rd_unregistered :: "url list"
  rd_unsubscribed :: "url list"

section \<open>Overriding\<close>

definition overrideUrl :: "'b registry_env \<Rightarrow> 'b RegistryDirectory \<Rightarrow> url \<Rightarrow> url go" where
  "overrideUrl env d u =
     go_bind (doOverrideUrl (r_override env) (rd_configurators d) u) (\<lambda>u.
     go_bind (doOverrideUrl (r_override env) (cl_configurators (rd_consumerListener d)) u) (\<lambda>u.
       doOverrideUrl (r_override env) (cl_configurators (rd_referenceListener d)) u))"

definition override_directory :: "'b registry_env \<Rightarrow> ('b RegistryDirectory, unit) proc" where
  "override_directory env d =
     (case overrideUrl env d (rd_url d) of Inl p \<Rightarrow> (Inl p, d) | Inr u \<Rightarrow> (Inr (), d\<lparr>rd_url := u\<rparr>))"

text \<open>The URL of a provider; \<^const>\<open>None\<close> for a rule, which is added to the rules, and for a route.\<close>

definition convertUrl :: "ServiceEvent \<Rightarrow> ('b RegistryDirectory, url option) proc" where
  "convertUrl e d =
     (case se_Service e of
        None \<Rightarrow> (Inl NilDereference, d)
      | Some u \<Rightarrow>
          if isConfiguratorURL (Some u) then (Inr None, d\<lparr>rd_configurators := rd_configurators d @ [u]\<rparr>)
          else if is_router_url u then (Inr None, d)
          else (Inr (Some u), d))"

section \<open>Tombstones\<close>

definition markClosingTombstone :: "int \<Rightarrow> string \<Rightarrow> invoker option \<Rightarrow> string \<Rightarrow> 'b RegistryDirectory \<Rightarrow> 'b RegistryDirectory" where
  "markClosingTombstone now key ivk source d =
     (if key = '''' then d
      else
        let u = map_option GetURL ivk;
            field = (\<lambda>f. case u of None \<Rightarrow> '''' | Some u \<Rightarrow> f u)
        in d\<lparr>rd_closingTombstones := map_put key
               \<lparr>ct_InstanceKey = key, ct_ServiceKey = field ServiceKey, ct_Address = field Location,
                ct_Timestamp = field (\<lambda>u. GetParam u TimestampKey ''''), ct_Source = source,
                ct_ExpireAt = now + rd_closingTombstoneTTL d\<rparr> (rd_closingTombstones d)\<rparr>)"

definition clearClosingTombstone :: "string \<Rightarrow> 'b RegistryDirectory \<Rightarrow> 'b RegistryDirectory" where
  "clearClosingTombstone key d =
     (if key = '''' then d else d\<lparr>rd_closingTombstones := map_del key (rd_closingTombstones d)\<rparr>)"

definition activeClosingTombstone ::
  "int \<Rightarrow> string \<Rightarrow> 'b RegistryDirectory \<Rightarrow> closingTombstone option \<times> 'b RegistryDirectory" where
  "activeClosingTombstone now key d =
     (if key = '''' then (None, d)
      else case map_of (rd_closingTombstones d) key of
             None \<Rightarrow> (None, d)
           | Some t \<Rightarrow>
               if now > ct_ExpireAt t then (None, d\<lparr>rd_closingTombstones := map_del key (rd_closingTombstones d)\<rparr>)
               else (Some t, d))"

definition cleanupExpiredClosingTombstones :: "int \<Rightarrow> 'b RegistryDirectory \<Rightarrow> 'b RegistryDirectory" where
  "cleanupExpiredClosingTombstones now d =
     d\<lparr>rd_closingTombstones := filter (\<lambda>(_, t). \<not> now > ct_ExpireAt t) (rd_closingTombstones d)\<rparr>"

section \<open>The cache of invokers\<close>

text \<open>A new invoker has an unused address.\<close>

definition Refer :: "'b registry_env \<Rightarrow> url \<Rightarrow> 'b RegistryDirectory \<Rightarrow> invoker option \<times> 'b RegistryDirectory" where
  "Refer env u d =
     (if r_refer env u
      then let ivk = \<lparr>ivk_id = w_fresh (rd_world d), GetURL = u\<rparr>
           in (Some ivk, d\<lparr>rd_world := (rd_world d)\<lparr>w_fresh := Suc (w_fresh (rd_world d))\<rparr>,
                           rd_referred := rd_referred d @ [ivk]\<rparr>)
      else (None, d))"

text \<open>
  Adding a provider: the invoker that was replaced, if any, and whether the provider is settled.
  \<open>now\<close> is the time of the check of the tombstones.
\<close>

definition doCacheInvoker ::
  "'b registry_env \<Rightarrow> int \<Rightarrow> url \<Rightarrow> string \<Rightarrow> ('b RegistryDirectory, invoker option \<times> bool) proc" where
  "doCacheInvoker env now newUrl key d =
     (let d = cleanupExpiredClosingTombstones now d;
          (tombstone, d) = activeClosingTombstone now key d;
          newTimestamp = GetParam newUrl TimestampKey ''''
      in if (case tombstone of
               None \<Rightarrow> False
             | Some t \<Rightarrow> ct_Timestamp t = '''' \<or> newTimestamp = '''' \<or> newTimestamp = ct_Timestamp t)
         then (Inr (None, True), d)
         else
           let d = (if tombstone = None then d else clearClosingTombstone key d)
           in case map_of (rd_cacheInvokersMap d) key of
                None \<Rightarrow>
                  (case Refer env newUrl d of
                     (Some ivk, d) \<Rightarrow> (Inr (None, False), d\<lparr>rd_cacheInvokersMap := map_put key ivk (rd_cacheInvokersMap d)\<rparr>)
                   | (None, d) \<Rightarrow> (Inr (None, False), d))
              | Some existing \<Rightarrow>
                  (case r_equal env newUrl (GetURL existing) of
                     Inl p \<Rightarrow> (Inl p, d)
                   | Inr same \<Rightarrow>
                       if same then (Inr (None, True), d)
                       else case Refer env newUrl d of
                              (Some ivk, d) \<Rightarrow>
                                (Inr (Some existing, True), d\<lparr>rd_cacheInvokersMap := map_put key ivk (rd_cacheInvokersMap d)\<rparr>)
                            | (None, d) \<Rightarrow> (Inr (None, False), d)))"

definition uncacheInvokerWithKey :: "string \<Rightarrow> 'b RegistryDirectory \<Rightarrow> invoker option \<times> 'b RegistryDirectory" where
  "uncacheInvokerWithKey key d =
     (let d = d\<lparr>rd_status := RemoveUrlKeyUnhealthyStatus key (rd_status d)\<rparr>
      in (map_of (rd_cacheInvokersMap d) key, d\<lparr>rd_cacheInvokersMap := map_del key (rd_cacheInvokersMap d)\<rparr>))"

text \<open>The caller does not keep the invokers this removes.\<close>

definition uncacheInvokerWithClusterID ::
  "string \<Rightarrow> 'b RegistryDirectory \<Rightarrow> invoker option list \<times> 'b RegistryDirectory" where
  "uncacheInvokerWithClusterID clusterID d =
     (let keys = map fst (filter (\<lambda>(_, ivk). GetParam (GetURL ivk) MeshClusterIDKey '''' = clusterID) (rd_cacheInvokersMap d))
      in fold (\<lambda>key (removed, d). case uncacheInvokerWithKey key d of (r, d) \<Rightarrow> (removed @ [r], d)) keys ([], d))"

definition uncacheInvoker :: "ServiceEvent \<Rightarrow> ('b RegistryDirectory, invoker option list) proc" where
  "uncacheInvoker e d =
     (case se_Key e of
        Inl p \<Rightarrow> (Inl p, d)
      | Inr (key, e) \<Rightarrow>
          let d = clearClosingTombstone key d
          in case se_Service e of
               None \<Rightarrow> (Inl NilDereference, d)
             | Some u \<Rightarrow>
                 let clusterID = GetParam u MeshClusterIDKey '''';
                     d = (if Location u = ''*'' \<and> clusterID \<noteq> '''' then snd (uncacheInvokerWithClusterID clusterID d) else d);
                     (removed, d) = uncacheInvokerWithKey key d
                 in (Inr [removed], d))"

text \<open>\<open>u\<close> is nil for a rule; then the last provider that was added is added again.\<close>

definition cacheInvoker ::
  "'b registry_env \<Rightarrow> int \<Rightarrow> url option \<Rightarrow> ServiceEvent \<Rightarrow> ('b RegistryDirectory, invoker option) proc" where
  "cacheInvoker env now u e =
     proc_bind (override_directory env) (\<lambda>_ d.
       case SubURL (rd_url d) of
         None \<Rightarrow> (Inl NilDereference, d)
       | Some referenceUrl \<Rightarrow>
           let (u, d) = (case (u, rd_cacheOriginUrl d) of
                           (None, Some origin) \<Rightarrow> (Some origin, d)
                         | _ \<Rightarrow> (u, d\<lparr>rd_cacheOriginUrl := u\<rparr>))
           in case u of
                None \<Rightarrow> (Inr None, d)
              | Some u \<Rightarrow>
                  if Protocol u = Protocol referenceUrl \<or> Protocol referenceUrl = ''''
                  then (case overrideUrl env d (MergeURL u referenceUrl) of
                          Inl p \<Rightarrow> (Inl p, d)
                        | Inr newUrl \<Rightarrow>
                            (case se_Key (se_Update newUrl e) of
                               Inl p \<Rightarrow> (Inl p, d)
                             | Inr (key, e) \<Rightarrow>
                                 proc_bind (doCacheInvoker env now newUrl key)
                                   (\<lambda>(old, ok) d. (Inr (if ok then old else None), d)) d))
                  else (Inr None, d))"

definition cacheInvokerByEvent ::
  "'b registry_env \<Rightarrow> int \<Rightarrow> ServiceEvent \<Rightarrow> ('b RegistryDirectory, invoker option list) proc" where
  "cacheInvokerByEvent env now e =
     (case se_Action e of
        EventTypeDel \<Rightarrow> uncacheInvoker e
      | _ \<Rightarrow>
          proc_bind (convertUrl e) (\<lambda>u d.
            if u = None \<and> rd_cacheOriginUrl d = None then (Inr [], d)
            else proc_bind (cacheInvoker env now u e) (\<lambda>old d. (Inr [old], d)) d))"

section \<open>Handing the invokers over\<close>

text \<open>The groups of the invokers, in the order in which the map of groups is visited.\<close>

definition groupInvokersFromCache :: "'b RegistryDirectory \<Rightarrow> (string \<times> invoker list) list" where
  "groupInvokersFromCache d =
     fold (\<lambda>(_, ivk) groups.
       let g = GetParam (GetURL ivk) GroupKey ''''
       in map_put g ((case map_of groups g of None \<Rightarrow> [] | Some l \<Rightarrow> l) @ [ivk]) groups) (rd_cacheInvokersMap d) []"

text \<open>
  Several groups are joined, each behind a cluster invoker over a static directory, whose URL is
  that of the first invoker of the group.
\<close>

fun joinGroupInvokers ::
  "'b registry_env \<Rightarrow> (string \<times> invoker list) list \<Rightarrow> ('b RegistryDirectory, invoker list) proc" where
  "joinGroupInvokers env [] d = (Inr [], d)"
| "joinGroupInvokers env ((g, ivks) # groups) d =
     (case static_NewDirectory (r_routers env) (r_factories env) ivks (rd_world d) of
        (Inl p, w) \<Rightarrow> (Inl p, d\<lparr>rd_world := w\<rparr>)
      | (Inr sd, w) \<Rightarrow>
          let d = d\<lparr>rd_world := w\<rparr>
          in case SubURL (rd_url d) of
               None \<Rightarrow> (Inl NilDereference, d)
             | Some sub \<Rightarrow>
                 if \<not> r_cluster env (GetParam sub ''cluster'' ''failover'') then joinGroupInvokers env groups d
                 else
                   (case static_BuildRouterChain (r_routers env) (r_factories env) (rd_url d) (sd, w) of
                      (Inl p, (sd, w)) \<Rightarrow> (Inl p, d\<lparr>rd_world := w\<rparr>)
                    | (Inr (Some e, u), (sd, w)) \<Rightarrow> joinGroupInvokers env groups (d\<lparr>rd_world := w, rd_url := u\<rparr>)
                    | (Inr (None, u), (sd, w)) \<Rightarrow>
                        let joined = \<lparr>ivk_id = w_fresh w, GetURL = (case bd_url sd of Some u \<Rightarrow> u | None \<Rightarrow> no_url)\<rparr>
                        in proc_bind (joinGroupInvokers env groups)
                             (\<lambda>rest d. (Inr (joined # rest), d))
                             (d\<lparr>rd_world := w\<lparr>w_fresh := Suc (w_fresh w)\<rparr>, rd_url := u,
                                rd_joined := map_put (w_fresh w) (sd_invokers sd) (rd_joined d)\<rparr>)))"

definition toGroupInvokers :: "'b registry_env \<Rightarrow> ('b RegistryDirectory, invoker list) proc" where
  "toGroupInvokers env d =
     (case groupInvokersFromCache d of
        [(_, ivks)] \<Rightarrow> (Inr ivks, d)
      | groups \<Rightarrow> joinGroupInvokers env groups d)"

definition setNewInvokers :: "'b registry_env \<Rightarrow> ('b RegistryDirectory, unit) proc" where
  "setNewInvokers env =
     proc_bind (toGroupInvokers env) (\<lambda>newInvokers d.
       let d = d\<lparr>rd_cacheInvokers := newInvokers\<rparr>
       in case rd_chain d of
            None \<Rightarrow> (Inl NilDereference, d)
          | Some c \<Rightarrow>
              (case SetInvokers (r_routers env) newInvokers (c, rd_world d) of
                 (r, (c, w)) \<Rightarrow> (r, d\<lparr>rd_chain := Some c, rd_world := w\<rparr>)))"

text \<open>Destroying the cluster invoker of a group destroys the invokers of its directory.\<close>

definition destroy_invoker :: "invoker \<Rightarrow> 'b RegistryDirectory \<Rightarrow> 'b RegistryDirectory" where
  "destroy_invoker ivk d =
     (case map_of (rd_joined d) (ivk_id ivk) of
        Some ivks \<Rightarrow> d\<lparr>rd_gone := rd_gone d @ ivks, rd_joined := map_put (ivk_id ivk) [] (rd_joined d)\<rparr>
      | None \<Rightarrow> d\<lparr>rd_gone := rd_gone d @ [ivk]\<rparr>)"

section \<open>Notifications\<close>

definition refreshInvokers ::
  "'b registry_env \<Rightarrow> int \<Rightarrow> ServiceEvent option \<Rightarrow> ('b RegistryDirectory, unit) proc" where
  "refreshInvokers env now event =
     proc_bind (case event of None \<Rightarrow> proc_return [] | Some e \<Rightarrow> cacheInvokerByEvent env now e) (\<lambda>old.
     proc_bind (setNewInvokers env) (\<lambda>_ d.
       (Inr (), fold destroy_invoker (List.map_filter id old) d)))"

definition RegistryDirectory_Notify ::
  "'b registry_env \<Rightarrow> int \<Rightarrow> ServiceEvent option \<Rightarrow> ('b RegistryDirectory, unit) proc" where
  "RegistryDirectory_Notify env now event d =
     (case event of None \<Rightarrow> (Inr (), d) | Some e \<Rightarrow> refreshInvokers env now (Some e) d)"

text \<open>Merging the consumer's URL and the rules into every event of a full list.\<close>

fun merge_events ::
  "'b registry_env \<Rightarrow> url \<Rightarrow> ServiceEvent list \<Rightarrow> ('b RegistryDirectory, ServiceEvent list) proc" where
  "merge_events env referenceUrl [] d = (Inr [], d)"
| "merge_events env referenceUrl (e # es) d =
     proc_bind (convertUrl e) (\<lambda>u d.
       case u of
         None \<Rightarrow> (Inl NilDereference, d)
       | Some u \<Rightarrow>
           (case overrideUrl env d (MergeURL u referenceUrl) of
              Inl p \<Rightarrow> (Inl p, d)
            | Inr newUrl \<Rightarrow>
                proc_bind (merge_events env referenceUrl es) (\<lambda>es d. (Inr (se_Update newUrl e # es), d)) d)) d"

text \<open>The keys of the events, stored in them.\<close>

fun event_keys :: "ServiceEvent list \<Rightarrow> string list go" where
  "event_keys [] = Inr []"
| "event_keys (e # es) = go_bind (se_Key e) (\<lambda>(k, _). go_bind (event_keys es) (\<lambda>ks. Inr (k # ks)))"

fun drop_stale :: "string list \<Rightarrow> string list \<Rightarrow> 'b RegistryDirectory \<Rightarrow> invoker list \<times> 'b RegistryDirectory" where
  "drop_stale keys [] d = ([], d)"
| "drop_stale keys (k # ks) d =
     (if k \<in> set keys then drop_stale keys ks d
      else case uncacheInvokerWithKey k d of
             (r, d) \<Rightarrow> (case drop_stale keys ks d of
                          (old, d) \<Rightarrow> (case r of None \<Rightarrow> (old, d) | Some ivk \<Rightarrow> (ivk # old, d))))"

fun cache_events ::
  "'b registry_env \<Rightarrow> int \<Rightarrow> ServiceEvent list \<Rightarrow> ('b RegistryDirectory, invoker list) proc" where
  "cache_events env now [] d = (Inr [], d)"
| "cache_events env now (e # es) d =
     (case (se_Key e, se_Service e) of
        (Inr (key, _), Some u) \<Rightarrow>
          proc_bind (doCacheInvoker env now u key) (\<lambda>(old, _).
          proc_bind (cache_events env now es) (\<lambda>olds d.
            (Inr (case old of None \<Rightarrow> olds | Some ivk \<Rightarrow> ivk # olds), d))) d
      | _ \<Rightarrow> (Inl NilDereference, d))"

text \<open>The events of a full list must not be deletions; the rules in it replace the rules in force.\<close>

definition provider_events :: "ServiceEvent list \<Rightarrow> ('b RegistryDirectory, ServiceEvent list) proc" where
  "provider_events events d =
     (let incoming = filter (\<lambda>e. \<not> isConfiguratorURL (se_Service e)) events;
          rules = List.map_filter se_Service (filter (\<lambda>e. isConfiguratorURL (se_Service e)) events);
          d = (if rules \<noteq> [] then d\<lparr>rd_configurators := ToConfigurators [] rules\<rparr> else d)
      in if length incoming > 0 then (Inr incoming, d\<lparr>rd_cachedProviderEvents := cloneServiceEvents incoming\<rparr>)
         else if length events > 0 then (Inr (cloneServiceEvents (rd_cachedProviderEvents d)), d)
         else (Inr [], d\<lparr>rd_cachedProviderEvents := []\<rparr>))"

definition refresh_providers ::
  "'b registry_env \<Rightarrow> int \<Rightarrow> ServiceEvent list \<Rightarrow> ('b RegistryDirectory, unit) proc" where
  "refresh_providers env now events =
     proc_bind (override_directory env) (\<lambda>_ d.
       case SubURL (rd_url d) of
         None \<Rightarrow> (Inl NilDereference, d)
       | Some referenceUrl \<Rightarrow>
           proc_bind (merge_events env referenceUrl events) (\<lambda>events.
           proc_bind (proc_lift (event_keys events)) (\<lambda>keys d.
             case drop_stale keys (map fst (rd_cacheInvokersMap d)) d of
               (stale, d) \<Rightarrow>
                 proc_bind (cache_events env now events) (\<lambda>old.
                 proc_bind (setNewInvokers env) (\<lambda>_ d.
                   (Inr (), fold destroy_invoker (stale @ old) d))) d)) d)"

definition RegistryDirectory_NotifyAll ::
  "'b registry_env \<Rightarrow> int \<Rightarrow> ServiceEvent list \<Rightarrow> ('b RegistryDirectory, unit) proc" where
  "RegistryDirectory_NotifyAll env now events d =
     (if \<exists>e \<in> set events. se_Action e = EventTypeDel
      then (Inl (Panicked ''Your implements of register center is wrong, please check the Action of ServiceEvent should be EventTypeUpdate''), d)
      else
        case provider_events events d of
          (Inl p, d) \<Rightarrow> (Inl p, d)
        | (Inr providers, d) \<Rightarrow>
            if length providers = 0 \<and> length events > 0 then (Inr (), d\<lparr>rd_callbacks := Suc (rd_callbacks d)\<rparr>)
            else case refresh_providers env now providers d of
                   (r, d) \<Rightarrow> (r, d\<lparr>rd_callbacks := Suc (rd_callbacks d)\<rparr>))"

definition RemoveClosingInstance :: "'b registry_env \<Rightarrow> int \<Rightarrow> string \<Rightarrow> ('b RegistryDirectory, bool) proc" where
  "RemoveClosingInstance env now key d =
     (if key = '''' then (Inr False, d)
      else
        let d = markClosingTombstone now key (map_of (rd_cacheInvokersMap d) key) ''closing-event'' d;
            (removed, d) = uncacheInvokerWithKey key d
        in case removed of
             None \<Rightarrow> (Inr False, d)
           | Some ivk \<Rightarrow> proc_bind (setNewInvokers env) (\<lambda>_ d. (Inr True, destroy_invoker ivk d)) d)"

section \<open>The directory interface\<close>

definition RegistryDirectory_List ::
  "'b registry_env \<Rightarrow> (nat \<Rightarrow> nat \<Rightarrow> nat) \<Rightarrow> (nat \<Rightarrow> 'b routerCache option \<times> world) \<Rightarrow> 'b RegistryDirectory \<Rightarrow>
   RPCInvocation \<Rightarrow> (invoker list \<times> scriptInvokerWrapper list \<times> RPCInvocation) go" where
  "RegistryDirectory_List env draws view d call =
     (case rd_chain d of
        None \<Rightarrow> Inr (rd_cacheInvokers d, [], call)
      | Some c \<Rightarrow> RouterChain_Route (r_routers env) draws c c view (rd_consumerURL d) call)"

definition RegistryDirectory_IsAvailable :: "(invoker \<Rightarrow> bool) \<Rightarrow> 'b RegistryDirectory \<Rightarrow> bool" where
  "RegistryDirectory_IsAvailable avail d = (if rd_destroyed d then False else list_ex avail (rd_cacheInvokers d))"

definition RegistryDirectory_Destroy :: "'b RegistryDirectory \<Rightarrow> 'b RegistryDirectory" where
  "RegistryDirectory_Destroy d =
     (if rd_destroyed d then d
      else
        let d = d\<lparr>rd_destroyed := True,
                  rd_unregistered := rd_unregistered d @ (case rd_RegisteredUrl d of None \<Rightarrow> [] | Some u \<Rightarrow> [u]),
                  rd_unsubscribed := rd_unsubscribed d @ (case rd_SubscribedUrl d of None \<Rightarrow> [] | Some u \<Rightarrow> [u])\<rparr>;
            ivks = rd_cacheInvokers d;
            d = fold destroy_invoker ivks (d\<lparr>rd_cacheInvokers := []\<rparr>)
        in d\<lparr>rd_cacheInvokersMap := [], rd_cachedProviderEvents := []\<rparr>)"

definition closingServiceKey :: "'b RegistryDirectory \<Rightarrow> string" where
  "closingServiceKey d =
     (case (ServiceKey (rd_url d), SubURL (rd_url d)) of
        ([], Some sub) \<Rightarrow> ServiceKey sub
      | (key, _) \<Rightarrow> key)"

text \<open>A change of the rules in the configuration center hands the same invokers over again.\<close>

definition consumer_listener_Process ::
  "'b registry_env \<Rightarrow> (string \<Rightarrow> go_error + url list) \<Rightarrow> int \<Rightarrow> ConfigChangeEvent \<Rightarrow> ('b RegistryDirectory, unit) proc" where
  "consumer_listener_Process env parse now ev d =
     (case listener_Process parse ev (rd_consumerListener d) of
        Inl p \<Rightarrow> (Inl p, d)
      | Inr l \<Rightarrow> refreshInvokers env now None (d\<lparr>rd_consumerListener := l\<rparr>))"

definition reference_listener_Process ::
  "'b registry_env \<Rightarrow> (string \<Rightarrow> go_error + url list) \<Rightarrow> int \<Rightarrow> ConfigChangeEvent \<Rightarrow> ('b RegistryDirectory, unit) proc" where
  "reference_listener_Process env parse now ev d =
     (case listener_Process parse ev (rd_referenceListener d) of
        Inl p \<Rightarrow> (Inl p, d)
      | Inr l \<Rightarrow> refreshInvokers env now None (d\<lparr>rd_referenceListener := l\<rparr>))"

section \<open>Creation\<close>

definition getConsumerUrl :: "string \<Rightarrow> string \<Rightarrow> url \<Rightarrow> url go" where
  "getConsumerUrl pid localIP c =
     go_bind (RangeParams (params c) (\<lambda>k v ps. (Values_Add ps k v, True)) []) (\<lambda>ps.
       Inr (NewURLWithOptions [WithProtocol ''consumer'', WithIp localIP, WithPath (Path c),
         WithParams (Values_Add (Values_Add (Values_Add ps ''pid'' pid) ''ip'' localIP) ''protocol'' (Protocol c))]))"

text \<open>
  \<open>parse\<close> is the parser of the configuration center, \<open>app\<close> the name of the consumer's application and
  \<open>load\<close> what the registry does with a new directory, which may notify it.  A directory whose chain
  cannot be built keeps the empty chain.  The constructor also sets the attributes of the URL that
  hold the application and the registries' configuration (\<^verbatim>\<open>EnsureApplicationAttribute\<close>,
  \<^verbatim>\<open>ensureRegistriesAttribute\<close>), of which the modelled code reads only the name \<open>app\<close>, and
  registers the directory with the process-wide table through which closing notices arrive; both are
  left out, and a closing notice is a call of \<open>RemoveClosingInstance\<close>.
\<close>

definition NewRegistryDirectory ::
  "'b registry_env \<Rightarrow> (string \<Rightarrow> go_error + url list) \<Rightarrow> string \<Rightarrow> string \<Rightarrow> string \<Rightarrow> int \<Rightarrow> rpc_state \<Rightarrow>
   ('b RegistryDirectory, go_error option) proc \<Rightarrow> url \<Rightarrow> world \<Rightarrow> (go_error + 'b RegistryDirectory) go" where
  "NewRegistryDirectory env parse pid localIP app ttl st load u w =
     (case SubURL u of
        None \<Rightarrow> Inr (Inl (PlainError ''url is invalid, suburl can not be nil''))
      | Some sub \<Rightarrow>
          go_bind (getConsumerUrl pid localIP sub) (\<lambda>consumerURL.
          go_bind (NewRouterChain (r_routers env) (r_factories env) u w) (\<lambda>(c, u, w).
          go_bind (listener_InitWith parse (app @ ''.configurators'') (w_fresh w) (w_center w)) (\<lambda>(consumer, cc).
          go_bind (listener_InitWith parse (ColonSeparatedKey u @ ''.configurators'') (Suc (w_fresh w)) cc) (\<lambda>(reference, cc).
            case load
              \<lparr>rd_url = u, rd_destroyed = False, rd_cacheInvokers = [], rd_cacheInvokersMap = [],
               rd_consumerURL = consumerURL, rd_cacheOriginUrl = None, rd_cachedProviderEvents = [],
               rd_configurators = [], rd_consumerListener = consumer, rd_referenceListener = reference,
               rd_SubscribedUrl = None, rd_RegisteredUrl = None, rd_closingTombstones = [],
               rd_closingTombstoneTTL = ttl,
               rd_chain = Some (case c of Inl _ \<Rightarrow> empty_chain | Inr c \<Rightarrow> c),
               rd_world = w\<lparr>w_center := cc, w_fresh := Suc (Suc (w_fresh w))\<rparr>,
               rd_status = st, rd_joined = [], rd_referred = [], rd_gone = [], rd_callbacks = 0,
               rd_unregistered = [], rd_unsubscribed = []\<rparr> of
              (Inl p, d) \<Rightarrow> Inl p
            | (Inr (Some e), d) \<Rightarrow> Inr (Inl e)
            | (Inr None, d) \<Rightarrow> Inr (Inr d))))))"

section \<open>Addresses are never reused\<close>

lemma router_Notify_fresh: "router_Notify env p ivks w = Inr w' \<Longrightarrow> w_fresh w' = w_fresh w"
  by (auto simp: router_Notify_def put_object_def elim!: go_bindE split: router_object.split_asm option.split_asm
      prod.split_asm if_split_asm)

lemma notify_all_fresh: "notify_all env ivks ps w = (r, w') \<Longrightarrow> w_fresh w' = w_fresh w"
proof (induction ps arbitrary: w)
  case (Cons p ps)
  show ?case
  proof (cases "router_Notify env p ivks w")
    case (Inr v)
    then show ?thesis using Cons.IH [of v] Cons.prems router_Notify_fresh [OF Inr] by simp
  qed (use Cons.prems in simp)
qed simp

lemma SetInvokers_fresh: "SetInvokers env ivks (c, w) = (r, (c', w')) \<Longrightarrow> w_fresh w' = w_fresh w"
  by (auto simp: SetInvokers_def rebuildCache_def Let_def split: prod.split_asm dest!: notify_all_fresh)

lemma build_routers_fresh: "build_routers fs u w = (ps, w') \<Longrightarrow> w_fresh w \<le> w_fresh w'"
  by (induction fs u w arbitrary: ps w' rule: build_routers.induct)
     (fastforce simp: NewPriorityRouter_def Let_def put_object_def split: prod.split_asm)+

lemma injectStaticRouters_fresh [simp]: "w_fresh (injectStaticRouters env u ps w) = w_fresh w"
proof -
  have "w_fresh (fold (\<lambda>cfg w. case cfg of None \<Rightarrow> w
      | Some c \<Rightarrow> if rc_Enabled c = Some False \<or> rc_Valid c = Some False then w else injectRouterConfig c ps w) cfgs w) =
    w_fresh w" for cfgs
    by (induction cfgs arbitrary: w) (auto simp: injectRouterConfig_def split: option.split)
  then show ?thesis by (auto simp: injectStaticRouters_def split: option.split)
qed

lemma NewRouterChain_fresh: "NewRouterChain env fs u w = Inr (c, u', w') \<Longrightarrow> w_fresh w \<le> w_fresh w'"
  by (auto simp: NewRouterChain_def Let_def elim!: go_bindE split: if_split_asm prod.split_asm dest!: build_routers_fresh)

lemma static_BuildRouterChain_fresh:
  assumes "static_BuildRouterChain env fs u (sd, w) = (r, (sd', w'))"
  shows "w_fresh w \<le> w_fresh w' \<and> sd_invokers sd' = sd_invokers sd"
proof -
  have "w_fresh w \<le> w_fresh v" if "NewRouterChain env fs u w = Inr (Inr c, u', v')"
    "SetInvokers env ivks (c, v') = (q, (c', v))" for c u' v' ivks q c' v
    using NewRouterChain_fresh [OF that(1)] SetInvokers_fresh [OF that(2)] by simp
  then show ?thesis
    using assms NewRouterChain_fresh
    by (force simp: static_BuildRouterChain_def SetRouterChain_def split: if_split_asm sum.split_asm prod.split_asm)
qed

lemma static_NewDirectory_fresh:
  assumes "static_NewDirectory env fs ivks w = (r, w')"
  shows "w_fresh w \<le> w_fresh w'"
proof (cases ivks)
  case Nil
  then show ?thesis
    using assms by (auto simp: static_NewDirectory_def Let_def split: prod.split_asm dest!: SetInvokers_fresh)
next
  case (Cons ivk rest)
  let ?u = "application_url (GetURL ivk)"
  let ?dir = "\<lparr>bd_url = Some ?u, bd_destroyed = False, bd_routerChain = Some empty_chain,
    sd_invokers = with_first_url ?u ivks, sd_gone = []\<rparr>"
  obtain q sd v where q: "static_BuildRouterChain env fs ?u (?dir, w) = (q, (sd, v))" by (metis surj_pair)
  have "w_fresh w \<le> w_fresh v" using static_BuildRouterChain_fresh [OF q] by blast
  moreover have "w_fresh w' = w_fresh v"
  proof (cases "\<exists>e u. q = Inr (Some e, u)")
    case True
    then show ?thesis
      using assms q by (auto simp: static_NewDirectory_def Cons Let_def split: prod.split_asm dest!: SetInvokers_fresh)
  next
    case False
    then show ?thesis
      using assms q by (auto simp: static_NewDirectory_def Cons Let_def split: sum.split_asm option.split_asm prod.split_asm)
  qed
  ultimately show ?thesis by simp
qed

section \<open>Who owns an invoker\<close>

text \<open>
  Every invoker the protocol has returned is in the cache, about to be destroyed (\<open>pend\<close>) or
  destroyed, and in one of these places only.
\<close>

definition held :: "invoker list \<Rightarrow> 'b RegistryDirectory \<Rightarrow> bool" where
  "held pend d \<longleftrightarrow>
     map_ok (rd_cacheInvokersMap d) \<and>
     mset (rd_referred d) = mset (map snd (rd_cacheInvokersMap d)) + mset pend + mset (rd_gone d) \<and>
     distinct (map ivk_id (rd_referred d)) \<and>
     (\<forall>ivk \<in> set (rd_referred d). ivk_id ivk < w_fresh (rd_world d)) \<and>
     (\<forall>j. map_of (rd_joined d) j \<noteq> None \<longrightarrow> j < w_fresh (rd_world d) \<and> (\<forall>ivk \<in> set (rd_referred d). ivk_id ivk \<noteq> j))"

text \<open>Operations that leave the owners alone; they may join groups under new addresses.\<close>

definition frame :: "'b RegistryDirectory \<Rightarrow> 'b RegistryDirectory \<Rightarrow> bool" where
  "frame d d' \<longleftrightarrow>
     rd_cacheInvokersMap d' = rd_cacheInvokersMap d \<and> rd_referred d' = rd_referred d \<and> rd_gone d' = rd_gone d \<and>
     w_fresh (rd_world d) \<le> w_fresh (rd_world d') \<and>
     (\<forall>j. map_of (rd_joined d') j \<noteq> None \<longrightarrow> map_of (rd_joined d) j \<noteq> None \<or>
        w_fresh (rd_world d) \<le> j \<and> j < w_fresh (rd_world d'))"

lemma frame_refl [simp]: "frame d d"
  by (simp add: frame_def)

lemma frame_trans: "frame d d' \<Longrightarrow> frame d' d'' \<Longrightarrow> frame d d''"
  unfolding frame_def by (metis (no_types, lifting) order_trans less_le_trans)

lemma frame_updates [simp]:
  "frame d (d\<lparr>rd_url := u\<rparr>)" "frame d (d\<lparr>rd_configurators := cs\<rparr>)" "frame d (d\<lparr>rd_cacheOriginUrl := o'\<rparr>)"
  "frame d (d\<lparr>rd_cacheInvokers := ivks\<rparr>)" "frame d (d\<lparr>rd_cachedProviderEvents := es\<rparr>)"
  "frame d (d\<lparr>rd_closingTombstones := ts\<rparr>)" "frame d (d\<lparr>rd_status := st\<rparr>)" "frame d (d\<lparr>rd_callbacks := n\<rparr>)"
  "frame d (d\<lparr>rd_consumerListener := l\<rparr>)" "frame d (d\<lparr>rd_referenceListener := l\<rparr>)"
  by (simp_all add: frame_def)

lemma held_frame: "held pend d \<Longrightarrow> frame d d' \<Longrightarrow> held pend d'"
  unfolding held_def frame_def by (fastforce simp: not_None_eq)

lemma joinGroupInvokers_frame: "joinGroupInvokers env gs d = (r, d') \<Longrightarrow> frame d d'"
proof (induction gs arbitrary: d r d')
  case (Cons e gs)
  obtain g ivks where e: "e = (g, ivks)" by fastforce
  obtain q w where q: "static_NewDirectory (r_routers env) (r_factories env) ivks (rd_world d) = (q, w)" by fastforce
  have w: "w_fresh (rd_world d) \<le> w_fresh w" using static_NewDirectory_fresh [OF q] .
  then have dw: "frame d (d\<lparr>rd_world := w\<rparr>)" by (auto simp: frame_def)
  show ?case
  proof (cases q)
    case Inl
    then show ?thesis using Cons.prems e q dw by auto
  next
    case (Inr sd)
    show ?thesis
    proof (cases "SubURL (rd_url d)")
      case None
      then show ?thesis using Cons.prems e q dw Inr by (auto simp: Let_def)
    next
      case (Some sub)
      obtain b sd' w' where b:
        "static_BuildRouterChain (r_routers env) (r_factories env) (rd_url d) (sd, w) = (b, (sd', w'))" by (metis surj_pair)
      have w': "w_fresh w \<le> w_fresh w'" using static_BuildRouterChain_fresh [OF b] by blast
      then have d2: "frame d (d\<lparr>rd_world := w', rd_url := u\<rparr>)" "frame d (d\<lparr>rd_world := w'\<rparr>)" for u
        using w by (auto simp: frame_def)
      have d3: "frame d (d\<lparr>rd_world := w'\<lparr>w_fresh := Suc (w_fresh w')\<rparr>, rd_url := u,
          rd_joined := map_put (w_fresh w') l (rd_joined d)\<rparr>)" for u l
        using w w' by (auto simp: frame_def)
      show ?thesis
        using Cons.prems e q Inr Some b
        by (auto simp: Let_def proc_bind_def split: if_split_asm sum.split_asm option.split_asm prod.split_asm
            dest!: Cons.IH intro: frame_trans [OF dw] frame_trans [OF d2(1)] d2(2) frame_trans [OF d3])
    qed
  qed
qed simp

lemma setNewInvokers_frame: "setNewInvokers env d = (r, d') \<Longrightarrow> frame d d'"
proof -
  assume s: "setNewInvokers env d = (r, d')"
  obtain q e where t: "toGroupInvokers env d = (q, e)" by fastforce
  have f: "frame d e"
    using t joinGroupInvokers_frame
    by (auto simp: toGroupInvokers_def simp del: joinGroupInvokers.simps split: list.split_asm prod.split_asm)
  have "frame d (e\<lparr>rd_cacheInvokers := ivks\<rparr>)" for ivks using f by (simp add: frame_def)
  moreover have "frame d (e\<lparr>rd_cacheInvokers := ivks, rd_chain := c, rd_world := w\<rparr>)"
    if "w_fresh w = w_fresh (rd_world e)" for ivks c w
    using f that by (simp add: frame_def)
  ultimately show ?thesis
    using s t f
    by (cases q) (auto simp: setNewInvokers_def proc_bind_def Let_def split: option.split_asm prod.split_asm
        dest!: SetInvokers_fresh)
qed

abbreviation opt_list :: "'a option \<Rightarrow> 'a list" where
  "opt_list x \<equiv> case x of None \<Rightarrow> [] | Some v \<Rightarrow> [v]"

lemma mset_map_put:
  "map_ok m \<Longrightarrow> mset (map snd (map_put k v m)) + mset (opt_list (map_of m k)) = add_mset v (mset (map snd m))"
  by (induction k v m rule: map_put.induct) auto

lemma mset_map_del: "map_ok m \<Longrightarrow> mset (map snd (map_del k m)) + mset (opt_list (map_of m k)) = mset (map snd m)"
proof (induction m)
  case (Cons e m)
  show ?case
  proof (cases "fst e = k")
    case True
    then have "map_of m k = None" using Cons.prems by (auto simp: map_of_eq_None_iff)
    moreover from this have "map_del k m = m" by (auto simp: map_del_def map_of_eq_None_iff filter_id_conv)
    ultimately show ?thesis using True by (auto simp: map_del_def)
  next
    case False
    then show ?thesis using Cons by (cases e) (auto simp: map_del_def)
  qed
qed (simp add: map_del_def)

lemma held_move:
  assumes "held pend d" "rd_referred d' = rd_referred d" "rd_world d' = rd_world d" "rd_joined d' = rd_joined d"
    and "map_ok (rd_cacheInvokersMap d')"
    and "mset (map snd (rd_cacheInvokersMap d')) + mset pend' + mset (rd_gone d') =
      mset (map snd (rd_cacheInvokersMap d)) + mset pend + mset (rd_gone d)"
  shows "held pend' d'"
  using assms(1,5,6) unfolding held_def assms(2-4) by (elim conjE, intro conjI) (assumption | simp only:)+

lemma uncacheInvokerWithKey_held:
  assumes "uncacheInvokerWithKey key d = (r, d')" "held pend d"
  shows "held (pend @ opt_list r) d'"
proof -
  have ok: "map_ok (rd_cacheInvokersMap d)" using assms(2) by (simp add: held_def)
  then have "mset (map snd (map_del key (rd_cacheInvokersMap d))) + mset (pend @ opt_list (map_of (rd_cacheInvokersMap d) key)) =
      mset (map snd (rd_cacheInvokersMap d)) + mset pend"
    unfolding mset_map_del [OF ok, of key, symmetric] by (simp add: ac_simps)
  then show ?thesis
    using assms(1) ok by (intro held_move [OF assms(2)]) (auto simp: uncacheInvokerWithKey_def Let_def)
qed

text \<open>A new invoker takes the place of the old one, if there was one.\<close>

lemma Refer_held:
  assumes "Refer env u d = (Some ivk, d')" "held pend d"
  shows "held (pend @ opt_list (map_of (rd_cacheInvokersMap d) key))
    (d'\<lparr>rd_cacheInvokersMap := map_put key ivk (rd_cacheInvokersMap d')\<rparr>)"
proof -
  have d': "d' = d\<lparr>rd_world := (rd_world d)\<lparr>w_fresh := Suc (w_fresh (rd_world d))\<rparr>, rd_referred := rd_referred d @ [ivk]\<rparr>"
    "ivk_id ivk = w_fresh (rd_world d)"
    using assms(1) by (auto simp: Refer_def Let_def split: if_split_asm)
  then show ?thesis
    using assms(2) mset_map_put [of "rd_cacheInvokersMap d" key ivk] unfolding held_def
    by (auto simp: ac_simps less_Suc_eq image_iff dest: less_not_refl2)
qed

lemma Refer_none: "Refer env u d = (None, d') \<Longrightarrow> d' = d"
  by (auto simp: Refer_def Let_def split: if_split_asm)

lemma doCacheInvoker_held:
  assumes "doCacheInvoker env now u key d = (Inr (old, ok), d')" "held pend d"
  shows "held (pend @ opt_list old) d' \<and> (old \<noteq> None \<longrightarrow> ok)"
proof -
  define d1 where "d1 = cleanupExpiredClosingTombstones now d"
  obtain t d2 where t: "activeClosingTombstone now key d1 = (t, d2)" by fastforce
  define d3 where "d3 = (if t = None then d2 else clearClosingTombstone key d2)"
  have f: "frame d d1" "frame d1 d2" "frame d2 d3"
    using t by (auto simp: d1_def d3_def cleanupExpiredClosingTombstones_def activeClosingTombstone_def
        clearClosingTombstone_def frame_def split: if_split_asm option.split_asm)
  have h: "held pend d2" "held pend d3" using assms(2) f by (blast intro: held_frame frame_trans)+
  show ?thesis
  proof (cases "case t of None \<Rightarrow> False
      | Some t \<Rightarrow> ct_Timestamp t = '''' \<or> GetParam u TimestampKey '''' = '''' \<or> GetParam u TimestampKey '''' = ct_Timestamp t")
    case True
    then show ?thesis using assms(1) t h(1) by (simp add: doCacheInvoker_def d1_def [symmetric] Let_def)
  next
    case False
    note step = assms(1) [unfolded doCacheInvoker_def Let_def d1_def [symmetric] t prod.case if_not_P [OF False] d3_def [symmetric]]
    show ?thesis
    proof (cases "map_of (rd_cacheInvokersMap d3) key")
      case None
      obtain q d4 where q: "Refer env u d3 = (q, d4)" by fastforce
      show ?thesis
      proof (cases q)
        case None
        then show ?thesis using step q h(2) \<open>map_of _ key = None\<close> Refer_none [OF q [unfolded None]] by auto
      next
        case (Some ivk)
        then show ?thesis
          using step q \<open>map_of _ key = None\<close> Refer_held [OF q [unfolded Some] h(2), of key] by auto
      qed
    next
      case (Some existing)
      obtain q d4 where q: "Refer env u d3 = (q, d4)" by fastforce
      show ?thesis
      proof (cases q)
        case None
        then show ?thesis
          using step Some q h(2) Refer_none [OF q [unfolded None]] by (auto split: if_split_asm sum.split_asm)
      next
        case new: (Some ivk)
        have "old = None \<and> d' = d3 \<or>
            old = Some existing \<and> ok \<and> d' = d4\<lparr>rd_cacheInvokersMap := map_put key ivk (rd_cacheInvokersMap d4)\<rparr>"
          using step by (auto simp: new Some q split: if_split_asm sum.split_asm)
        with Refer_held [OF q [unfolded new] h(2), of key] h(2) show ?thesis by (auto simp: Some)
      qed
    qed
  qed
qed

lemma destroy_held:
  assumes "held pend d" "\<And>ivk. ivk \<in> set ivks \<Longrightarrow> ivk \<in># mset pend" "mset pend = mset ivks + mset pend'"
  shows "held pend' (fold destroy_invoker ivks d)"
  using assms
proof (induction ivks arbitrary: pend d)
  case Nil
  then show ?case by (simp add: held_def)
next
  case (Cons ivk ivks)
  have "ivk \<in># mset (rd_referred d)" using Cons.prems(1,2) by (auto simp: held_def)
  then have "map_of (rd_joined d) (ivk_id ivk) = None"
    using Cons.prems(1) by (auto simp: held_def map_of_eq_None_iff)
  then have d: "destroy_invoker ivk d = d\<lparr>rd_gone := rd_gone d @ [ivk]\<rparr>" by (simp add: destroy_invoker_def)
  have "held (ivks @ pend') (destroy_invoker ivk d)"
    using Cons.prems(1,3) unfolding d by (intro held_move [OF Cons.prems(1)]) (auto simp: held_def)
  then show ?case using Cons.IH [of "ivks @ pend'"] by simp
qed

lemma override_directory_frame: "override_directory env d = (r, d') \<Longrightarrow> frame d d'"
  by (auto simp: override_directory_def split: sum.split_asm)

lemma convertUrl_frame: "convertUrl e d = (r, d') \<Longrightarrow> frame d d'"
  by (auto simp: convertUrl_def split: option.split_asm if_split_asm)

lemma merge_events_frame: "merge_events env ref es d = (r, d') \<Longrightarrow> frame d d'"
proof (induction es arbitrary: d r d')
  case (Cons e es)
  obtain q d1 where q: "convertUrl e d = (q, d1)" by fastforce
  have "frame d d1" using convertUrl_frame [OF q] .
  then show ?case
    using Cons.prems q by (auto simp: proc_bind_def split: sum.split_asm option.split_asm prod.split_asm
        dest!: Cons.IH intro: frame_trans)
qed simp

lemma cacheInvoker_held:
  assumes "cacheInvoker env now u e d = (Inr old, d')" "held [] d"
  shows "held (opt_list old) d'"
proof -
  obtain d1 where d1: "override_directory env d = (Inr (), d1)"
    using assms(1) by (auto simp: cacheInvoker_def elim!: proc_bindE)
  then have h1: "held [] d1" using assms(2) override_directory_frame held_frame by blast
  then have h2: "held [] (d1\<lparr>rd_cacheOriginUrl := v\<rparr>)" for v by (rule held_frame) simp
  have do: "held (opt_list old) d'"
    if "proc_bind (doCacheInvoker env now v key) (\<lambda>(old, ok) d. (Inr (if ok then old else None), d)) d2 = (Inr old, d')"
      "held [] d2" for v key d2
    using that doCacheInvoker_held [of env now v key d2 _ _ _ "[]"] by (fastforce elim!: proc_bindE split: prod.split_asm if_split_asm)
  show ?thesis
    using assms(1) d1 h1 h2 do
    by (auto simp: cacheInvoker_def Let_def split: option.split_asm if_split_asm sum.split_asm prod.split_asm)
qed

text \<open>A deletion that names no cluster of a mesh.\<close>

definition plain_event :: "ServiceEvent \<Rightarrow> bool" where
  "plain_event e \<longleftrightarrow>
     (case se_Service e of None \<Rightarrow> True | Some u \<Rightarrow> \<not> (Location u = ''*'' \<and> GetParam u MeshClusterIDKey '''' \<noteq> ''''))"

lemma clearClosingTombstone_frame: "frame d (clearClosingTombstone key d)"
  by (simp add: clearClosingTombstone_def)

lemma se_Key_Service: "se_Key e = Inr (key, e') \<Longrightarrow> se_Service e' = se_Service e"
  by (auto simp: se_Key_def Let_def split: if_split_asm option.split_asm)

lemma uncacheInvoker_held:
  assumes "uncacheInvoker e d = (Inr old, d')" "held [] d" "plain_event e"
  shows "held (List.map_filter id old) d'"
proof -
  obtain key e' where key: "se_Key e = Inr (key, e')" using assms(1) by (auto simp: uncacheInvoker_def split: sum.split_asm)
  obtain r d2 where r: "uncacheInvokerWithKey key (clearClosingTombstone key d) = (r, d2)" by fastforce
  have "held ([] @ opt_list r) d2"
    using uncacheInvokerWithKey_held [OF r] held_frame [OF assms(2) clearClosingTombstone_frame] by blast
  moreover have "old = [r]" "d' = d2"
    using assms(1,3) key r se_Key_Service [OF key]
    by (auto simp: uncacheInvoker_def plain_event_def Let_def split: option.split_asm if_split_asm)
  ultimately show ?thesis by (cases r) (simp_all add: List.map_filter_simps)
qed

lemma cacheInvokerByEvent_held:
  assumes "cacheInvokerByEvent env now e d = (Inr old, d')" "held [] d" "plain_event e"
  shows "held (List.map_filter id old) d'"
proof (cases "se_Action e = EventTypeDel")
  case True
  then show ?thesis using assms uncacheInvoker_held by (simp add: cacheInvokerByEvent_def)
next
  case False
  then obtain u d1 where u: "convertUrl e d = (Inr u, d1)"
    "(if u = None \<and> rd_cacheOriginUrl d1 = None then (Inr [], d1)
      else proc_bind (cacheInvoker env now u e) (\<lambda>old d. (Inr [old], d)) d1) = (Inr old, d')"
    using assms(1) by (auto simp: cacheInvokerByEvent_def split: event_type.split_asm elim!: proc_bindE)
  have h: "held [] d1" using convertUrl_frame [OF u(1)] assms(2) held_frame by blast
  show ?thesis
  proof (cases "u = None \<and> rd_cacheOriginUrl d1 = None")
    case True
    then show ?thesis using u(2) h by (simp add: List.map_filter_simps)
  next
    case False
    then obtain r where "cacheInvoker env now u e d1 = (Inr r, d')" "old = [r]"
      using u(2) by (auto elim!: proc_bindE split: if_split_asm)
    then show ?thesis using cacheInvoker_held [of env now u e d1 r d'] h by (cases r) (simp_all add: List.map_filter_simps)
  qed
qed

lemma refreshInvokers_held:
  assumes "refreshInvokers env now event d = (Inr (), d')" "held [] d" "\<And>e. event = Some e \<Longrightarrow> plain_event e"
  shows "held [] d'"
proof -
  obtain old d1 d2 where s:
    "(case event of None \<Rightarrow> proc_return [] | Some e \<Rightarrow> cacheInvokerByEvent env now e) d = (Inr old, d1)"
    "setNewInvokers env d1 = (Inr (), d2)" "d' = fold destroy_invoker (List.map_filter id old) d2"
    using assms(1) by (auto simp: refreshInvokers_def elim!: proc_bindE)
  have "held (List.map_filter id old) d1"
    using s(1) assms(2,3) cacheInvokerByEvent_held
    by (cases event) (auto simp: List.map_filter_simps)
  then have "held (List.map_filter id old) d2" using setNewInvokers_frame [OF s(2)] held_frame by blast
  then show ?thesis unfolding s(3) by (rule destroy_held) simp_all
qed

lemma drop_stale_held:
  "drop_stale keys ks d = (old, d') \<Longrightarrow> held pend d \<Longrightarrow> held (pend @ old) d'"
proof (induction ks arbitrary: d old pend)
  case (Cons k ks)
  show ?case
  proof (cases "k \<in> set keys")
    case True
    then show ?thesis using Cons by simp
  next
    case False
    obtain r d1 where r: "uncacheInvokerWithKey k d = (r, d1)" by fastforce
    obtain old1 where o1: "drop_stale keys ks d1 = (old1, d')" "old = opt_list r @ old1"
      using Cons.prems(1) False r by (auto split: prod.split_asm option.split_asm)
    have "held (pend @ opt_list r) d1" using uncacheInvokerWithKey_held [OF r Cons.prems(2)] .
    from Cons.IH [OF o1(1) this] show ?thesis by (simp add: o1(2))
  qed
qed simp

lemma cache_events_held:
  "cache_events env now es d = (Inr old, d') \<Longrightarrow> held pend d \<Longrightarrow> held (pend @ old) d'"
proof (induction es arbitrary: d old pend)
  case (Cons e es)
  obtain key e' u where k: "se_Key e = Inr (key, e')" "se_Service e = Some u"
    using Cons.prems(1) by (auto split: sum.split_asm option.split_asm prod.split_asm)
  obtain o1 ok d1 old1 where s: "doCacheInvoker env now u key d = (Inr (o1, ok), d1)"
    "cache_events env now es d1 = (Inr old1, d')" "old = opt_list o1 @ old1"
    using Cons.prems(1) k by (auto elim!: proc_bindE split: option.split_asm)
  have "held (pend @ opt_list o1) d1" using doCacheInvoker_held [OF s(1) Cons.prems(2)] by blast
  from Cons.IH [OF s(2) this] show ?case by (simp add: s(3))
qed simp

lemma refresh_providers_held:
  assumes "refresh_providers env now es d = (Inr (), d')" "held [] d"
  shows "held [] d'"
proof -
  obtain d1 ref es1 d2 keys stale d3 old d4 d5 where s:
    "override_directory env d = (Inr (), d1)" "merge_events env ref es d1 = (Inr es1, d2)"
    "drop_stale keys (map fst (rd_cacheInvokersMap d2)) d2 = (stale, d3)"
    "cache_events env now es1 d3 = (Inr old, d4)" "setNewInvokers env d4 = (Inr (), d5)"
    "d' = fold destroy_invoker (stale @ old) d5"
    using assms(1) by (auto simp: refresh_providers_def elim!: proc_bindE split: option.split_asm prod.split_asm)
  have "held [] d2"
    using assms(2) override_directory_frame [OF s(1)] merge_events_frame [OF s(2)] by (blast intro: held_frame)
  then have "held (stale @ old) d4"
    using drop_stale_held [OF s(3), of "[]"] cache_events_held [OF s(4), of stale] by simp
  then have "held (stale @ old) d5" using setNewInvokers_frame [OF s(5)] held_frame by blast
  then show ?thesis unfolding s(6) by (rule destroy_held) simp_all
qed

lemma provider_events_frame: "provider_events es d = (r, d') \<Longrightarrow> frame d d'"
  by (auto simp: provider_events_def Let_def frame_def split: if_split_asm)

lemma NotifyAll_held:
  assumes "RegistryDirectory_NotifyAll env now es d = (Inr (), d')" "held [] d"
  shows "held [] d'"
proof -
  obtain ps d1 where ps: "provider_events es d = (Inr ps, d1)"
    using assms(1) by (auto simp: RegistryDirectory_NotifyAll_def split: if_split_asm sum.split_asm prod.split_asm)
  have h: "held [] d1" using provider_events_frame [OF ps] assms(2) held_frame by blast
  have upd: "held [] e \<Longrightarrow> held [] (e\<lparr>rd_callbacks := n\<rparr>)" for e n by (erule held_frame) simp
  show ?thesis
    using assms(1) ps
    by (auto simp: RegistryDirectory_NotifyAll_def split: if_split_asm prod.split_asm
        intro!: upd h dest: refresh_providers_held [OF _ h])
qed

lemma RemoveClosingInstance_held:
  assumes "RemoveClosingInstance env now key d = (Inr b, d')" "held [] d"
  shows "held [] d'"
proof (cases "key = ''''")
  case False
  define d1 where "d1 = markClosingTombstone now key (map_of (rd_cacheInvokersMap d) key) ''closing-event'' d"
  have "frame d d1" by (simp add: d1_def markClosingTombstone_def Let_def)
  then have h1: "held [] d1" using assms(2) held_frame by blast
  obtain r d2 where r: "uncacheInvokerWithKey key d1 = (r, d2)" by fastforce
  have h2: "held (opt_list r) d2" using uncacheInvokerWithKey_held [OF r h1] by simp
  show ?thesis
  proof (cases r)
    case None
    then show ?thesis using assms(1) False r h2 by (simp add: RemoveClosingInstance_def d1_def [symmetric] Let_def)
  next
    case (Some ivk)
    then obtain d3 where d3: "setNewInvokers env d2 = (Inr (), d3)" "d' = destroy_invoker ivk d3"
      using assms(1) False r by (auto simp: RemoveClosingInstance_def d1_def [symmetric] Let_def elim!: proc_bindE)
    have "held [ivk] d3" using setNewInvokers_frame [OF d3(1)] h2 Some held_frame by auto
    then show ?thesis using destroy_held [of "[ivk]" d3 "[ivk]" "[]"] by (simp add: d3(2))
  qed
qed (use assms in \<open>simp add: RemoveClosingInstance_def\<close>)

section \<open>Runs\<close>

text \<open>
  The notifications of a directory that return, in any order: single events, full lists, closing
  notices and changes of the rules.
\<close>

inductive registry_step :: "'b registry_env \<Rightarrow> 'b RegistryDirectory \<Rightarrow> 'b RegistryDirectory \<Rightarrow> bool" for env where
  step_notify: "RegistryDirectory_Notify env now (Some e) d = (Inr (), d') \<Longrightarrow> plain_event e \<Longrightarrow> registry_step env d d'"
| step_all: "RegistryDirectory_NotifyAll env now es d = (Inr (), d') \<Longrightarrow> registry_step env d d'"
| step_closing: "RemoveClosingInstance env now key d = (Inr b, d') \<Longrightarrow> registry_step env d d'"
| step_consumer: "consumer_listener_Process env parse now ev d = (Inr (), d') \<Longrightarrow> registry_step env d d'"
| step_reference: "reference_listener_Process env parse now ev d = (Inr (), d') \<Longrightarrow> registry_step env d d'"

inductive registry_run :: "'b registry_env \<Rightarrow> 'b RegistryDirectory \<Rightarrow> 'b RegistryDirectory \<Rightarrow> bool" for env d where
  run_new: "registry_run env d d"
| run_step: "registry_run env d d1 \<Longrightarrow> registry_step env d1 d2 \<Longrightarrow> registry_run env d d2"

lemma registry_step_held:
  assumes "registry_step env d d'" "held [] d"
  shows "held [] d'"
  using assms
proof (cases rule: registry_step.cases)
  case (step_notify now e)
  then show ?thesis
    using assms(2) refreshInvokers_held [of env now "Some e" d d'] by (simp add: RegistryDirectory_Notify_def)
next
  case (step_consumer parse now ev)
  then obtain l where "refreshInvokers env now None (d\<lparr>rd_consumerListener := l\<rparr>) = (Inr (), d')"
    by (auto simp: consumer_listener_Process_def split: sum.split_asm)
  then show ?thesis
    using refreshInvokers_held [of env now None] held_frame [OF assms(2) frame_updates(9)] by fastforce
next
  case (step_reference parse now ev)
  then obtain l where "refreshInvokers env now None (d\<lparr>rd_referenceListener := l\<rparr>) = (Inr (), d')"
    by (auto simp: reference_listener_Process_def split: sum.split_asm)
  then show ?thesis
    using refreshInvokers_held [of env now None] held_frame [OF assms(2) frame_updates(10)] by fastforce
qed (use assms(2) NotifyAll_held RemoveClosingInstance_held in blast)+

text \<open>The directory as \<^const>\<open>NewRegistryDirectory\<close> builds it, before the registry loads it.\<close>

definition new_directory :: "'b RegistryDirectory \<Rightarrow> bool" where
  "new_directory d \<longleftrightarrow>
     \<not> rd_destroyed d \<and> rd_cacheInvokers d = [] \<and> rd_cacheInvokersMap d = [] \<and> rd_closingTombstones d = [] \<and>
     rd_joined d = [] \<and> rd_referred d = [] \<and> rd_gone d = []"

lemma NewRegistryDirectory_new:
  assumes "NewRegistryDirectory env parse pid ip app ttl st (\<lambda>d. (Inr None, d)) u w = Inr (Inr d)"
  shows "new_directory d"
  using assms
  by (auto simp: NewRegistryDirectory_def new_directory_def elim!: go_bindE split: option.split_asm prod.split_asm)

lemma registry_run_held:
  assumes "registry_run env d d'" "new_directory d"
  shows "held [] d'"
  using assms
proof (induction rule: registry_run.induct)
  case run_new
  then show ?case by (simp add: held_def new_directory_def)
qed (blast intro: registry_step_held)


section \<open>Listing\<close>

lemma RegistryDirectory_List_backed:
  assumes "\<forall>c. rd_chain d = Some c \<longrightarrow> reached_chain (r_routers env) c view"
    "RegistryDirectory_List env draws view d call = Inr (ivks, ws, call')" "x \<in> set ivks"
  shows "backed ws (chain_providers (rd_chain d) (rd_cacheInvokers d)) x"
  using assms
  by (auto simp: RegistryDirectory_List_def chain_providers_def intro: backed.direct dest: reached_chain_backed
      split: option.split_asm)

interpretation registry_dir: invoker_directory
  "\<lambda>(env, d) (draws, view) call. RegistryDirectory_List env draws view d call"
  "\<lambda>(env, d). chain_providers (rd_chain d) (rd_cacheInvokers d)"
  "\<lambda>(env, d) (draws, view). \<forall>c. rd_chain d = Some c \<longrightarrow> reached_chain (r_routers env) c view"
  by unfold_locales (auto intro: RegistryDirectory_List_backed)

end
