(* ===== verification/Registry_Sync.thy ===== *)
theory Registry_Sync
  imports Registry_Directory
begin

text \<open>
  What the registry directory guarantees over whole runs: every invoker is cached or destroyed, the
  cache holds exactly the providers of the last full list, and a closed instance does not return
  with a stale list.
\<close>

section \<open>The invokers handed over\<close>

abbreviation group_of :: "invoker \<Rightarrow> string" where
  "group_of ivk \<equiv> GetParam (GetURL ivk) GroupKey ''''"

definition one_group :: "(string \<times> invoker) list \<Rightarrow> bool" where
  "one_group m \<longleftrightarrow> (\<forall>x \<in> set m. \<forall>y \<in> set m. group_of (snd x) = group_of (snd y))"

text \<open>What the directory and its chain hand out is the cache, when there is one group.\<close>

definition synced :: "'b RegistryDirectory \<Rightarrow> bool" where
  "synced d \<longleftrightarrow>
     (one_group (rd_cacheInvokersMap d) \<longrightarrow> rd_cacheInvokers d = map snd (rd_cacheInvokersMap d)) \<and>
     (\<forall>c. rd_chain d = Some c \<longrightarrow> c_invokers c = rd_cacheInvokers d)"

lemma group_fold:
  "\<forall>x \<in> set m. group_of (snd x) = g \<Longrightarrow>
   fold (\<lambda>(_, ivk) groups.
       let g = group_of ivk
       in map_put g ((case map_of groups g of None \<Rightarrow> [] | Some l \<Rightarrow> l) @ [ivk]) groups) m [(g, l)] = [(g, l @ map snd m)]"
  by (induction m arbitrary: l) (auto simp: Let_def)

lemma groups_of_one:
  assumes "one_group (rd_cacheInvokersMap d)" "rd_cacheInvokersMap d = (k, ivk) # m"
  shows "groupInvokersFromCache d = [(group_of ivk, ivk # map snd m)]"
proof -
  have "\<forall>y \<in> set m. group_of (snd y) = group_of ivk"
    using assms(1) unfolding one_group_def assms(2) by (metis list.set_intros snd_conv)
  note tail = group_fold [OF this, of "[ivk]"]
  show ?thesis unfolding groupInvokersFromCache_def assms(2) fold_Cons o_apply prod.case
    by (subst Let_def) (simp only: map_of.simps option.case map_put.simps append_Nil tail append_Cons)
qed

lemma SetInvokers_snapshot: "SetInvokers env ivks (c, w) = (r, (c', w')) \<Longrightarrow> c_invokers c' = ivks"
  by (auto simp: SetInvokers_def rebuildCache_def Let_def split: prod.split_asm)

lemma setNewInvokers_chain:
  assumes "setNewInvokers env d = (Inr (), d')"
  shows "\<forall>c. rd_chain d' = Some c \<longrightarrow> c_invokers c = rd_cacheInvokers d'"
  using assms
  by (auto simp: setNewInvokers_def proc_bind_def Let_def split: sum.split_asm option.split_asm prod.split_asm
      dest: SetInvokers_snapshot)

lemma setNewInvokers_synced:
  assumes "setNewInvokers env d = (Inr (), d')"
  shows "synced d'"
  unfolding synced_def
proof (intro conjI setNewInvokers_chain [OF assms] impI)
  assume one: "one_group (rd_cacheInvokersMap d')"
  have same: "rd_cacheInvokersMap d' = rd_cacheInvokersMap d" using setNewInvokers_frame [OF assms] by (simp add: frame_def)
  have "toGroupInvokers env d = (Inr (map snd (rd_cacheInvokersMap d)), d)"
  proof (cases "rd_cacheInvokersMap d = []")
    case True
    then show ?thesis by (simp add: toGroupInvokers_def groupInvokersFromCache_def)
  next
    case False
    then obtain k ivk m where m: "rd_cacheInvokersMap d = (k, ivk) # m" by (metis list.exhaust surj_pair)
    show ?thesis using groups_of_one [OF one [unfolded same] m] m by (simp add: toGroupInvokers_def)
  qed
  then show "rd_cacheInvokers d' = map snd (rd_cacheInvokersMap d')"
    using assms same by (auto simp: setNewInvokers_def proc_bind_def Let_def split: option.split_asm prod.split_asm)
qed

text \<open>Destroying invokers changes neither the cache nor the tombstones.\<close>

lemma destroy_fields [simp]:
  "rd_cacheInvokersMap (fold destroy_invoker ivks d) = rd_cacheInvokersMap d"
  "rd_cacheInvokers (fold destroy_invoker ivks d) = rd_cacheInvokers d"
  "rd_closingTombstones (fold destroy_invoker ivks d) = rd_closingTombstones d"
  "rd_referred (fold destroy_invoker ivks d) = rd_referred d"
  "rd_chain (fold destroy_invoker ivks d) = rd_chain d"
  by (induction ivks arbitrary: d) (auto simp: destroy_invoker_def split: option.split)

lemma destroy_synced: "synced d \<Longrightarrow> synced (fold destroy_invoker ivks d)"
  by (simp add: synced_def)

lemma refreshInvokers_synced:
  assumes "refreshInvokers env now event d = (Inr (), d')"
  shows "synced d'"
  using assms by (auto simp: refreshInvokers_def elim!: proc_bindE intro!: destroy_synced dest: setNewInvokers_synced)

lemma map_del_absent: "map_of m k = None \<Longrightarrow> map_del k m = m"
  by (auto simp: map_del_def map_of_eq_None_iff filter_id_conv)

lemma RemoveClosingInstance_synced:
  assumes "RemoveClosingInstance env now key d = (Inr b, d')" "synced d"
  shows "synced d'"
proof (cases "key = ''''")
  case False
  note step = assms(1) [unfolded RemoveClosingInstance_def if_not_P [OF False] markClosingTombstone_def
      uncacheInvokerWithKey_def Let_def prod.case]
  show ?thesis
  proof (cases "map_of (rd_cacheInvokersMap d) key")
    case None
    then show ?thesis using step assms(2) by (auto simp: synced_def map_del_absent)
  next
    case (Some ivk)
    then obtain d1 d2 where "setNewInvokers env d1 = (Inr (), d2)" "d' = destroy_invoker ivk d2"
      using step by (auto elim!: proc_bindE)
    then show ?thesis using setNewInvokers_synced [of env d1 d2] destroy_synced [of d2 "[ivk]"] by simp
  qed
qed (use assms in \<open>simp add: RemoveClosingInstance_def\<close>)

lemma NotifyAll_synced:
  assumes "RegistryDirectory_NotifyAll env now es d = (Inr (), d')" "synced d"
  shows "synced d'"
proof -
  obtain ps d1 where ps: "provider_events es d = (Inr ps, d1)"
    using assms(1) by (auto simp: RegistryDirectory_NotifyAll_def split: if_split_asm sum.split_asm prod.split_asm)
  have s1: "synced d1"
    using ps assms(2) by (auto simp: provider_events_def Let_def synced_def split: if_split_asm)
  have s2: "synced d2" if "refresh_providers env now ps d1 = (Inr (), d2)" for d2
    using that unfolding refresh_providers_def
    by (auto elim!: proc_bindE split: option.split_asm prod.split_asm intro!: destroy_synced) (rule setNewInvokers_synced)
  have upd: "synced e \<Longrightarrow> synced (e\<lparr>rd_callbacks := n\<rparr>)" for e n by (simp add: synced_def)
  show ?thesis
    using assms(1) ps by (auto simp: RegistryDirectory_NotifyAll_def split: if_split_asm prod.split_asm intro!: upd s1 dest: s2)
qed

lemma registry_step_synced: "registry_step env d d' \<Longrightarrow> synced d \<Longrightarrow> synced d'"
  by (cases rule: registry_step.cases)
     (auto simp: RegistryDirectory_Notify_def consumer_listener_Process_def reference_listener_Process_def
       split: sum.split_asm dest: refreshInvokers_synced NotifyAll_synced RemoveClosingInstance_synced)

lemma registry_run_synced: "registry_run env d d' \<Longrightarrow> synced d \<Longrightarrow> synced d'"
  by (induction rule: registry_run.induct) (blast intro: registry_step_synced)+

lemma NewRegistryDirectory_synced:
  assumes "NewRegistryDirectory env parse pid ip app ttl st (\<lambda>d. (Inr None, d)) u w = Inr (Inr d)"
  shows "synced d"
proof -
  have "c_invokers c = []" if "NewRouterChain r fs u w = Inr (Inr c, u', w')" for r fs c u u' w w'
    using NewRouterChain_ok [OF that] by (simp add: chain_ok_def)
  then show ?thesis
    using assms
    by (auto simp: NewRegistryDirectory_def synced_def empty_chain_def elim!: go_bindE
        split: option.split_asm prod.split_asm sum.split)
qed

lemma destroy_invoker_without_map:
  "destroy_invoker ivk (d\<lparr>rd_cacheInvokersMap := m\<rparr>) = (destroy_invoker ivk d)\<lparr>rd_cacheInvokersMap := m\<rparr>"
  by (cases d) (simp add: destroy_invoker_def split: option.split)

lemma held_alive:
  assumes "held [] d" "ivk \<in> snd ` set (rd_cacheInvokersMap d)"
  shows "ivk \<notin> set (rd_gone d)"
proof
  assume "ivk \<in> set (rd_gone d)"
  then have "count (mset (rd_gone d)) ivk \<ge> 1" by (simp add: Suc_le_eq)
  moreover have "count (mset (map snd (rd_cacheInvokersMap d))) ivk \<ge> 1" using assms(2) by (simp add: Suc_le_eq)
  moreover have "distinct (rd_referred d)" using assms(1) by (auto simp: held_def distinct_map)
  then have "count (mset (rd_referred d)) ivk \<le> 1" by (simp add: distinct_count_atmost_1)
  moreover have "count (mset (rd_referred d)) ivk =
      count (mset (map snd (rd_cacheInvokersMap d))) ivk + count (mset (rd_gone d)) ivk"
    using assms(1) by (simp add: held_def)
  ultimately show False by linarith
qed

lemma destroy_without_map:
  "(fold destroy_invoker ivks d)\<lparr>rd_cacheInvokersMap := m\<rparr> = fold destroy_invoker ivks (d\<lparr>rd_cacheInvokersMap := m\<rparr>)"
  by (induction ivks arbitrary: d) (simp_all add: destroy_invoker_without_map)

lemma Destroy_gone:
  assumes "held [] d" "synced d" "one_group (rd_cacheInvokersMap d)" "\<not> rd_destroyed d"
  shows "mset (rd_gone (RegistryDirectory_Destroy d)) = mset (rd_referred d)"
proof -
  define d1 where "d1 = d\<lparr>rd_destroyed := True,
      rd_unregistered := rd_unregistered d @ (case rd_RegisteredUrl d of None \<Rightarrow> [] | Some u \<Rightarrow> [u]),
      rd_unsubscribed := rd_unsubscribed d @ (case rd_SubscribedUrl d of None \<Rightarrow> [] | Some u \<Rightarrow> [u]),
      rd_cacheInvokers := [], rd_cacheInvokersMap := []\<rparr>"
  let ?ivks = "map snd (rd_cacheInvokersMap d)"
  have "held ?ivks d1" by (rule held_move [OF assms(1)]) (simp_all add: d1_def)
  then have "held [] (fold destroy_invoker ?ivks d1)" by (rule destroy_held) simp_all
  then have "mset (rd_gone (fold destroy_invoker ?ivks d1)) = mset (rd_referred d)"
    by (simp add: held_def) (simp add: d1_def)
  moreover have "rd_cacheInvokers d = ?ivks" using assms(2,3) by (simp add: synced_def)
  ultimately show ?thesis
    using assms(4) by (simp add: RegistryDirectory_Destroy_def Let_def destroy_without_map d1_def)
qed


lemma joinGroupInvokers_tombstones:
  "joinGroupInvokers env gs d = (r, d') \<Longrightarrow> rd_closingTombstones d' = rd_closingTombstones d"
proof (induction gs arbitrary: d r d')
  case (Cons e gs)
  obtain g ivks where e: "e = (g, ivks)" by fastforce
  show ?case
    using Cons.prems unfolding e
    by (auto simp: Let_def proc_bind_def split: if_split_asm sum.split_asm option.split_asm prod.split_asm dest!: Cons.IH)
qed simp

lemma setNewInvokers_tombstones:
  "setNewInvokers env d = (r, d') \<Longrightarrow> rd_closingTombstones d' = rd_closingTombstones d"
  using joinGroupInvokers_tombstones
  by (fastforce simp: setNewInvokers_def toGroupInvokers_def proc_bind_def Let_def simp del: joinGroupInvokers.simps
      split: option.split_asm prod.split_asm sum.split_asm list.split_asm)

section \<open>A full list\<close>

text \<open>The URL and the key that the directory gives the provider of an event.\<close>

definition merged_url :: "'b registry_env \<Rightarrow> 'b RegistryDirectory \<Rightarrow> ServiceEvent \<Rightarrow> url go" where
  "merged_url env d e =
     go_bind (overrideUrl env d (rd_url d)) (\<lambda>v.
       case (SubURL v, se_Service e) of
         (Some ref, Some u) \<Rightarrow> overrideUrl env d (MergeURL u ref)
       | _ \<Rightarrow> Inl NilDereference)"

definition merged_key :: "'b registry_env \<Rightarrow> 'b RegistryDirectory \<Rightarrow> ServiceEvent \<Rightarrow> string go" where
  "merged_key env d e = go_bind (merged_url env d e) (\<lambda>u. go_bind (se_Key (se_Update u e)) (\<lambda>(k, _). Inr k))"

lemma overrideUrl_fields [simp]:
  "overrideUrl env (d\<lparr>rd_url := u\<rparr>) = overrideUrl env d"
  "overrideUrl env (d\<lparr>rd_cachedProviderEvents := es\<rparr>) = overrideUrl env d"
  "overrideUrl env (d\<lparr>rd_cacheOriginUrl := v\<rparr>) = overrideUrl env d"
  by (simp_all add: overrideUrl_def fun_eq_iff)

lemma merge_events_merged:
  "merge_events env ref es d = (Inr es1, d') \<Longrightarrow>
   d' = d \<and> list_all2 (\<lambda>e e1. \<exists>u v. se_Service e = Some u \<and> overrideUrl env d (MergeURL u ref) = Inr v \<and> e1 = se_Update v e) es es1"
proof (induction es arbitrary: es1)
  case (Cons e es)
  have "\<exists>u. convertUrl e d = (Inr (Some u), d) \<and> se_Service e = Some u"
    using Cons.prems by (cases "se_Service e") (auto simp: convertUrl_def proc_bind_def split: if_split_asm)
  then obtain u where u: "convertUrl e d = (Inr (Some u), d)" "se_Service e = Some u" by blast
  have step: "merge_events env ref (e # es) d =
      (case overrideUrl env d (MergeURL u ref) of
         Inl p \<Rightarrow> (Inl p, d)
       | Inr v \<Rightarrow> proc_bind (merge_events env ref es) (\<lambda>es d. (Inr (se_Update v e # es), d)) d)"
    by (simp add: proc_bind_def u(1))
  show ?case
    using Cons.prems Cons.IH unfolding step by (auto simp: u(2) elim!: proc_bindE split: sum.split_asm)
qed simp

lemma event_keys_all: "event_keys es = Inr ks \<Longrightarrow> list_all2 (\<lambda>e k. \<exists>e'. se_Key e = Inr (k, e')) es ks"
  by (induction es arbitrary: ks) (auto elim!: go_bindE)

text \<open>The stages of a refresh that returns.\<close>

lemma refresh_providers_stages:
  assumes "refresh_providers env now es d = (Inr (), d')"
  obtains d1 es1 keys stale d2 old d3 where
    "rd_cacheInvokersMap d1 = rd_cacheInvokersMap d" "rd_closingTombstones d1 = rd_closingTombstones d"
    "list_all2 (\<lambda>e e1. \<exists>v. merged_url env d e = Inr v \<and> e1 = se_Update v e) es es1"
    "event_keys es1 = Inr keys" "drop_stale keys (map fst (rd_cacheInvokersMap d1)) d1 = (stale, d2)"
    "cache_events env now es1 d2 = (Inr old, d3)"
    "rd_cacheInvokersMap d' = rd_cacheInvokersMap d3" "rd_closingTombstones d' = rd_closingTombstones d3"
proof -
  obtain v where v: "overrideUrl env d (rd_url d) = Inr v" "override_directory env d = (Inr (), d\<lparr>rd_url := v\<rparr>)"
    using assms by (auto simp: refresh_providers_def override_directory_def proc_bind_def split: sum.split_asm)
  obtain ref es1 d2 keys stale d3 old d4 d5 where s: "SubURL v = Some ref"
    "merge_events env ref es (d\<lparr>rd_url := v\<rparr>) = (Inr es1, d2)" "event_keys es1 = Inr keys"
    "drop_stale keys (map fst (rd_cacheInvokersMap d2)) d2 = (stale, d3)"
    "cache_events env now es1 d3 = (Inr old, d4)" "setNewInvokers env d4 = (Inr (), d5)"
    "d' = fold destroy_invoker (stale @ old) d5"
    using assms v by (auto simp: refresh_providers_def elim!: proc_bindE split: option.split_asm prod.split_asm)
  note m = merge_events_merged [OF s(2)]
  then have "list_all2 (\<lambda>e e1. \<exists>v. merged_url env d e = Inr v \<and> e1 = se_Update v e) es es1"
    using v(1) s(1) by (auto simp: merged_url_def elim!: list.rel_mono_strong)
  then show ?thesis
    using that [of d2 es1 keys stale d3 old d4] m s setNewInvokers_frame [OF s(6)] setNewInvokers_tombstones [OF s(6)]
    by (simp add: frame_def)
qed


lemma drop_stale_map:
  "drop_stale keys ks d = (old, d') \<Longrightarrow>
   map_of (rd_cacheInvokersMap d') k = (if k \<in> set ks - set keys then None else map_of (rd_cacheInvokersMap d) k) \<and>
   rd_closingTombstones d' = rd_closingTombstones d"
proof (induction ks arbitrary: d old)
  case (Cons j ks)
  show ?case
  proof (cases "j \<in> set keys")
    case True
    then show ?thesis using Cons by auto
  next
    case False
    obtain r d1 where r: "uncacheInvokerWithKey j d = (r, d1)" by fastforce
    obtain old1 where "drop_stale keys ks d1 = (old1, d')"
      using Cons.prems False r by (auto split: prod.split_asm option.split_asm)
    from Cons.IH [OF this] r False show ?thesis by (auto simp: uncacheInvokerWithKey_def Let_def)
  qed
qed simp

text \<open>An invoker that stands for a URL.\<close>

definition up_to_date :: "'b registry_env \<Rightarrow> url \<Rightarrow> invoker \<Rightarrow> bool" where
  "up_to_date env u ivk \<longleftrightarrow> GetURL ivk = u \<or> r_equal env u (GetURL ivk) = Inr True"

text \<open>
  No tombstone of the instance keeps the URL out: it has expired, or the instance has started
  again since, as both time stamps show.
\<close>

definition admits :: "int \<Rightarrow> (string \<times> closingTombstone) list \<Rightarrow> string \<Rightarrow> url \<Rightarrow> bool" where
  "admits now tombstones key u \<longleftrightarrow>
     (\<forall>t. (key, t) \<in> set tombstones \<longrightarrow>
        now > ct_ExpireAt t \<or> ct_Timestamp t \<noteq> '''' \<and> GetParam u TimestampKey '''' \<notin> {'''', ct_Timestamp t})"

lemma admits_mono: "admits now ts key u \<Longrightarrow> set ts' \<subseteq> set ts \<Longrightarrow> admits now ts' key u"
  by (auto simp: admits_def)

lemma doCacheInvoker_tombstone:
  assumes "activeClosingTombstone now key (cleanupExpiredClosingTombstones now d) = (tomb, d1)"
  shows "rd_cacheInvokersMap d1 = rd_cacheInvokersMap d" "set (rd_closingTombstones d1) \<subseteq> set (rd_closingTombstones d)"
    "tomb = Some t \<Longrightarrow> (key, t) \<in> set (rd_closingTombstones d) \<and> \<not> now > ct_ExpireAt t"
  using assms
  by (auto simp: cleanupExpiredClosingTombstones_def activeClosingTombstone_def map_del_def split: if_split_asm option.split_asm
      dest: map_of_SomeD)

lemma doCacheInvoker_added:
  assumes "doCacheInvoker env now u key d = (Inr r, d')"
  shows "set (rd_closingTombstones d') \<subseteq> set (rd_closingTombstones d) \<and>
    (k \<noteq> key \<longrightarrow> map_of (rd_cacheInvokersMap d') k = map_of (rd_cacheInvokersMap d) k) \<and>
    (map_of (rd_cacheInvokersMap d') key = map_of (rd_cacheInvokersMap d) key \<or>
       (\<exists>ivk. map_of (rd_cacheInvokersMap d') key = Some ivk \<and> up_to_date env u ivk)) \<and>
    (r_refer env u \<and> admits now (rd_closingTombstones d) key u \<longrightarrow>
       (\<exists>ivk. map_of (rd_cacheInvokersMap d') key = Some ivk \<and> up_to_date env u ivk))"
proof -
  obtain tomb d1 where t: "activeClosingTombstone now key (cleanupExpiredClosingTombstones now d) = (tomb, d1)" by fastforce
  note tomb = doCacheInvoker_tombstone [OF t]
  show ?thesis
  proof (cases "case tomb of None \<Rightarrow> False
      | Some t \<Rightarrow> ct_Timestamp t = '''' \<or> GetParam u TimestampKey '''' = '''' \<or> GetParam u TimestampKey '''' = ct_Timestamp t")
    case True
    then have "d' = d1" using assms by (simp add: doCacheInvoker_def t Let_def)
    moreover have "\<not> admits now (rd_closingTombstones d) key u"
      using True tomb(3) by (cases tomb) (auto simp: admits_def)
    ultimately show ?thesis using tomb by simp
  next
    case False
    define d2 where "d2 = (if tomb = None then d1 else clearClosingTombstone key d1)"
    have d2: "rd_cacheInvokersMap d2 = rd_cacheInvokersMap d" "set (rd_closingTombstones d2) \<subseteq> set (rd_closingTombstones d)"
      using tomb(1,2) by (auto simp: d2_def clearClosingTombstone_def map_del_def)
    have "(case map_of (rd_cacheInvokersMap d2) key of
       None \<Rightarrow>
         (case Refer env u d2 of
            (Some ivk, d) \<Rightarrow> (Inr (None, False), d\<lparr>rd_cacheInvokersMap := map_put key ivk (rd_cacheInvokersMap d)\<rparr>)
          | (None, d) \<Rightarrow> (Inr (None, False), d))
     | Some existing \<Rightarrow>
         (case r_equal env u (GetURL existing) of
            Inl p \<Rightarrow> (Inl p, d2)
          | Inr same \<Rightarrow>
              if same then (Inr (None, True), d2)
              else case Refer env u d2 of
                     (Some ivk, d) \<Rightarrow>
                       (Inr (Some existing, True), d\<lparr>rd_cacheInvokersMap := map_put key ivk (rd_cacheInvokersMap d)\<rparr>)
                   | (None, d) \<Rightarrow> (Inr (None, False), d))) = (Inr r, d')"
      using assms unfolding doCacheInvoker_def Let_def t prod.case if_not_P [OF False] d2_def .
    then show ?thesis
      using d2 by (auto simp: Refer_def Let_def up_to_date_def split: option.split_asm sum.split_asm if_split_asm)
  qed
qed

definition event_for :: "string \<Rightarrow> url \<Rightarrow> ServiceEvent \<Rightarrow> bool" where
  "event_for k u e \<longleftrightarrow> (\<exists>e'. se_Key e = Inr (k, e')) \<and> se_Service e = Some u"

lemma cache_events_added:
  assumes "cache_events env now es d = (Inr old, d')"
    and "list_all2 (\<lambda>e k. \<exists>e'. se_Key e = Inr (k, e')) es keys"
  shows "(map_of (rd_cacheInvokersMap d') k = map_of (rd_cacheInvokersMap d) k \<or>
       (\<exists>ivk. map_of (rd_cacheInvokersMap d') k = Some ivk \<and> (\<exists>e \<in> set es. \<exists>u. event_for k u e \<and> up_to_date env u ivk))) \<and>
    (k \<in> set keys \<and>
       (\<forall>e \<in> set es. \<forall>u. event_for k u e \<longrightarrow> r_refer env u \<and> admits now (rd_closingTombstones d) k u) \<longrightarrow>
     (\<exists>ivk. map_of (rd_cacheInvokersMap d') k = Some ivk \<and> (\<exists>e \<in> set es. \<exists>u. event_for k u e \<and> up_to_date env u ivk))) \<and>
    (k \<notin> set keys \<longrightarrow> map_of (rd_cacheInvokersMap d') k = map_of (rd_cacheInvokersMap d) k)"
  using assms
proof (induction es arbitrary: d old keys)
  case (Cons e es)
  obtain key ks where keys: "keys = key # ks" "\<exists>e'. se_Key e = Inr (key, e')"
      "list_all2 (\<lambda>e k. \<exists>e'. se_Key e = Inr (k, e')) es ks"
    using Cons.prems(2) by (cases keys) auto
  obtain u where u: "se_Service e = Some u" using Cons.prems(1) keys(2) by (cases "se_Service e") auto
  obtain r d1 old1 where s: "doCacheInvoker env now u key d = (Inr r, d1)" "cache_events env now es d1 = (Inr old1, d')"
    using Cons.prems(1) u keys(2) by (auto elim!: proc_bindE)
  have e: "event_for k v e \<longleftrightarrow> k = key \<and> v = u" for v using keys(2) u by (auto simp: event_for_def)
  note d1 = doCacheInvoker_added [OF s(1), of k]
  note rest = Cons.IH [OF s(2) keys(3)]
  have mono: "admits now (rd_closingTombstones d) k v \<Longrightarrow> admits now (rd_closingTombstones d1) k v" for v
    using d1 admits_mono by blast
  define G where "G es \<longleftrightarrow> (\<exists>ivk. map_of (rd_cacheInvokersMap d') k = Some ivk \<and>
      (\<exists>e \<in> set es. \<exists>u. event_for k u e \<and> up_to_date env u ivk))" for es
  define C where "C d es \<longleftrightarrow> (\<forall>e \<in> set es. \<forall>u. event_for k u e \<longrightarrow> r_refer env u \<and> admits now (rd_closingTombstones d) k u)"
    for d :: "'a RegistryDirectory" and es
  define new where "new \<longleftrightarrow> k = key \<and> (\<exists>ivk. map_of (rd_cacheInvokersMap d1) k = Some ivk \<and> up_to_date env u ivk)"
  define m m1 m' where "m = map_of (rd_cacheInvokersMap d) k" and "m1 = map_of (rd_cacheInvokersMap d1) k"
    and "m' = map_of (rd_cacheInvokersMap d') k"
  note rest = rest [folded G_def C_def m1_def m'_def]
  have G: "G es \<Longrightarrow> G (e # es)" by (auto simp: G_def)
  have new: "m' = m1 \<Longrightarrow> new \<Longrightarrow> G (e # es)" using e by (auto simp: G_def new_def m1_def m'_def)
  have same: "m1 = m \<or> new" using d1 by (auto simp: new_def m1_def m_def)
  have C: "C d (e # es) \<Longrightarrow> C d1 es" using mono by (simp add: C_def)
  have first: "C d (e # es) \<Longrightarrow> k = key \<Longrightarrow> new" using d1 e by (simp add: C_def new_def)
  have "k \<noteq> key \<Longrightarrow> m1 = m" using same by (auto simp: new_def)
  then have "(m' = m \<or> G (e # es)) \<and> (k \<in> set keys \<and> C d (e # es) \<longrightarrow> G (e # es)) \<and> (k \<notin> set keys \<longrightarrow> m' = m)"
    using rest G new same C first unfolding keys(1) set_simps insert_iff by argo
  then show ?case unfolding G_def C_def m_def m'_def .
qed simp


lemma merged_key_of:
  assumes "merged_url env d e = Inr v" "se_Key (se_Update v e) = Inr (k, e')"
  shows "merged_key env d e = Inr k"
  using assms by (simp add: merged_key_def)

text \<open>The cached invoker of a key stands for the URL of an event of the list.\<close>

definition installed :: "'b registry_env \<Rightarrow> 'b RegistryDirectory \<Rightarrow> ServiceEvent list \<Rightarrow> string \<Rightarrow> invoker \<Rightarrow> bool" where
  "installed env d es k ivk \<longleftrightarrow>
     (\<exists>e \<in> set es. \<exists>u. merged_key env d e = Inr k \<and> merged_url env d e = Inr u \<and> up_to_date env u ivk)"

lemma refresh_providers_exact:
  assumes "refresh_providers env now es d = (Inr (), d')"
  shows "(\<forall>ivk. map_of (rd_cacheInvokersMap d') k = Some ivk \<longrightarrow>
       Inr k \<in> merged_key env d ` set es \<and> (installed env d es k ivk \<or> map_of (rd_cacheInvokersMap d) k = Some ivk)) \<and>
    (Inr k \<in> merged_key env d ` set es \<and>
       (\<forall>e \<in> set es. \<forall>u. merged_key env d e = Inr k \<and> merged_url env d e = Inr u \<longrightarrow>
          r_refer env u \<and> admits now (rd_closingTombstones d) k u) \<longrightarrow>
     (\<exists>ivk. map_of (rd_cacheInvokersMap d') k = Some ivk \<and> installed env d es k ivk))"
proof -
  obtain d1 es1 keys stale d2 old d3 where s:
    "rd_cacheInvokersMap d1 = rd_cacheInvokersMap d" "rd_closingTombstones d1 = rd_closingTombstones d"
    "list_all2 (\<lambda>e e1. \<exists>v. merged_url env d e = Inr v \<and> e1 = se_Update v e) es es1"
    "event_keys es1 = Inr keys" "drop_stale keys (map fst (rd_cacheInvokersMap d1)) d1 = (stale, d2)"
    "cache_events env now es1 d2 = (Inr old, d3)"
    "rd_cacheInvokersMap d' = rd_cacheInvokersMap d3" "rd_closingTombstones d' = rd_closingTombstones d3"
    using refresh_providers_stages [OF assms(1)] .
  note drop = drop_stale_map [OF s(5), of k]
  note ks = event_keys_all [OF s(4)]
  have tombs: "rd_closingTombstones d2 = rd_closingTombstones d" using drop s(2) by simp
  note added = cache_events_added [OF s(6) ks, of k, unfolded tombs, folded s(7)]
  have from_es: "\<exists>e \<in> set es. merged_key env d e = Inr k \<and> merged_url env d e = Inr u"
    if "e1 \<in> set es1" "event_for k u e1" for e1 u
    using s(3) that merged_key_of
    by (fastforce simp: list_all2_conv_all_nth in_set_conv_nth event_for_def se_Update_def)
  have "list_all2 (\<lambda>e k. merged_key env d e = Inr k) es keys"
    by (rule list_all2_trans [OF _ s(3) ks]) (auto intro: merged_key_of)
  then have "map (merged_key env d) es = map Inr keys" by (simp add: list_all2_conv_all_nth list_eq_iff_nth_eq)
  then have "merged_key env d ` set es = Inr ` set keys" by (metis set_map)
  then have key_eq: "Inr k \<in> merged_key env d ` set es \<longleftrightarrow> k \<in> set keys" by auto
  have inst: "installed env d es k ivk" if "\<exists>e \<in> set es1. \<exists>u. event_for k u e \<and> up_to_date env u ivk" for ivk
    using that from_es unfolding installed_def by blast
  have d2: "map_of (rd_cacheInvokersMap d2) k = (if k \<in> set keys then map_of (rd_cacheInvokersMap d) k else None)"
    using drop s(1) by (cases "k \<in> fst ` set (rd_cacheInvokersMap d1)") (auto simp: map_of_eq_None_iff)
  show ?thesis
  proof (intro conjI allI impI)
    fix ivk assume found: "map_of (rd_cacheInvokersMap d') k = Some ivk"
    then show "Inr k \<in> merged_key env d ` set es" using added d2 unfolding key_eq by (auto split: if_split_asm)
    show "installed env d es k ivk \<or> map_of (rd_cacheInvokersMap d) k = Some ivk"
      using added d2 found inst by (auto split: if_split_asm)
  next
    assume "Inr k \<in> merged_key env d ` set es \<and>
       (\<forall>e \<in> set es. \<forall>u. merged_key env d e = Inr k \<and> merged_url env d e = Inr u \<longrightarrow>
          r_refer env u \<and> admits now (rd_closingTombstones d) k u)"
    then show "\<exists>ivk. map_of (rd_cacheInvokersMap d') k = Some ivk \<and> installed env d es k ivk"
      using added inst from_es key_eq by metis
  qed
qed


lemma provider_events_only:
  assumes "\<forall>e \<in> set es. \<not> isConfiguratorURL (se_Service e)"
  shows "\<exists>cached. provider_events es d = (Inr es, d\<lparr>rd_cachedProviderEvents := cached\<rparr>)"
proof -
  have "filter (\<lambda>e. \<not> isConfiguratorURL (se_Service e)) es = es" "filter (\<lambda>e. isConfiguratorURL (se_Service e)) es = []"
    using assms by (simp_all add: filter_id_conv filter_empty_conv)
  then show ?thesis by (auto simp: provider_events_def Let_def List.map_filter_simps)
qed

lemma merged_cached [simp]:
  "merged_url env (d\<lparr>rd_cachedProviderEvents := c\<rparr>) = merged_url env d"
  "merged_key env (d\<lparr>rd_cachedProviderEvents := c\<rparr>) = merged_key env d"
  unfolding merged_url_def merged_key_def overrideUrl_fields fun_eq_iff by simp_all

lemma NotifyAll_providers:
  assumes "RegistryDirectory_NotifyAll env now es d = (Inr (), d')" "\<forall>e \<in> set es. \<not> isConfiguratorURL (se_Service e)"
  obtains c d1 where "refresh_providers env now es (d\<lparr>rd_cachedProviderEvents := c\<rparr>) = (Inr (), d1)"
    "d' = d1\<lparr>rd_callbacks := Suc (rd_callbacks d1)\<rparr>"
  using assms provider_events_only [OF assms(2), of d]
  by (auto simp: RegistryDirectory_NotifyAll_def split: if_split_asm prod.split_asm)

section \<open>Closed instances\<close>

text \<open>An instance that was closed: it is not cached and its tombstone is kept until \<open>T\<close> at least.\<close>

definition shut :: "string \<Rightarrow> string \<Rightarrow> int \<Rightarrow> 'b RegistryDirectory \<Rightarrow> bool" where
  "shut key ts T d \<longleftrightarrow>
     key \<noteq> '''' \<and> map_of (rd_cacheInvokersMap d) key = None \<and>
     (\<exists>t. map_of (rd_closingTombstones d) key = Some t \<and> ct_Timestamp t = ts \<and> T \<le> ct_ExpireAt t)"

text \<open>A URL that does not announce a newer start of the instance.\<close>

definition stale_url :: "string \<Rightarrow> url \<Rightarrow> bool" where
  "stale_url ts u \<longleftrightarrow> ts = '''' \<or> GetParam u TimestampKey '''' = '''' \<or> GetParam u TimestampKey '''' = ts"

definition stale_event :: "'b registry_env \<Rightarrow> string \<Rightarrow> string \<Rightarrow> 'b RegistryDirectory \<Rightarrow> ServiceEvent \<Rightarrow> bool" where
  "stale_event env key ts d e \<longleftrightarrow>
     (case merged_url env d e of Inl _ \<Rightarrow> True | Inr u \<Rightarrow> merged_key env d e = Inr key \<longrightarrow> stale_url ts u)"

lemma map_of_filter_kept: "map_of m k = Some v \<Longrightarrow> P (k, v) \<Longrightarrow> map_of (filter P m) k = Some v"
  by (induction m) (auto split: if_split_asm)

lemma shut_fields:
  assumes "shut key ts T d" "rd_cacheInvokersMap d' = rd_cacheInvokersMap d" "rd_closingTombstones d' = rd_closingTombstones d"
  shows "shut key ts T d'"
  using assms by (simp add: shut_def)

lemma doCacheInvoker_shut:
  assumes "doCacheInvoker env now u k d = (r, d')" "shut key ts T d" "now \<le> T" "k = key \<Longrightarrow> stale_url ts u"
  shows "shut key ts T d'"
proof -
  define d1 where "d1 = cleanupExpiredClosingTombstones now d"
  obtain t where t: "map_of (rd_closingTombstones d) key = Some t" "ct_Timestamp t = ts" "T \<le> ct_ExpireAt t"
    using assms(2) by (auto simp: shut_def)
  have t1: "map_of (rd_closingTombstones d1) key = Some t"
    unfolding d1_def cleanupExpiredClosingTombstones_def using t assms(3) by (simp add: map_of_filter_kept)
  have m1: "rd_cacheInvokersMap d1 = rd_cacheInvokersMap d" by (simp add: d1_def cleanupExpiredClosingTombstones_def)
  have s1: "shut key ts T d1" using assms(2) t t1 m1 by (simp add: shut_def)
  show ?thesis
  proof (cases "k = key")
    case True
    then have "activeClosingTombstone now k d1 = (Some t, d1)"
      using t t1 assms(2,3) by (simp add: activeClosingTombstone_def shut_def)
    then have "d' = d1" using assms(1,4) True t(2) by (auto simp: doCacheInvoker_def d1_def [symmetric] Let_def stale_url_def)
    then show ?thesis using s1 by simp
  next
    case False
    obtain q d2 where q: "activeClosingTombstone now k d1 = (q, d2)" by fastforce
    define d3 where "d3 = (if q = None then d2 else clearClosingTombstone k d2)"
    have s2: "shut key ts T d2"
      using q s1 False by (auto simp: activeClosingTombstone_def shut_def split: if_split_asm option.split_asm)
    then have s3: "shut key ts T d3" using False by (auto simp: d3_def clearClosingTombstone_def shut_def)
    have add: "shut key ts T (e\<lparr>rd_cacheInvokersMap := map_put k ivk (rd_cacheInvokersMap e)\<rparr>)" "shut key ts T e"
      if "Refer env u d3 = (x, e)" for x e ivk
      using that s3 False by (auto simp: Refer_def shut_def Let_def split: if_split_asm)
    show ?thesis
      using assms(1) s2 s3 add
      by (auto simp: doCacheInvoker_def d1_def [symmetric] q d3_def [symmetric] Let_def
          split: if_split_asm option.split_asm sum.split_asm prod.split_asm)
  qed
qed

lemma cache_events_shut:
  assumes "cache_events env now es d = (r, d')" "shut key ts T d" "now \<le> T"
    "\<forall>e \<in> set es. \<forall>e' u. se_Key e = Inr (key, e') \<longrightarrow> se_Service e = Some u \<longrightarrow> stale_url ts u"
  shows "shut key ts T d'"
  using assms
proof (induction es arbitrary: d r)
  case (Cons e es)
  show ?case
  proof (cases "\<exists>k e' u. se_Key e = Inr (k, e') \<and> se_Service e = Some u")
    case True
    then obtain k e' u where k: "se_Key e = Inr (k, e')" "se_Service e = Some u" by blast
    obtain q d1 where q: "doCacheInvoker env now u k d = (q, d1)" by fastforce
    have "shut key ts T d1" using doCacheInvoker_shut [OF q Cons.prems(2,3)] Cons.prems(4) k by auto
    then show ?thesis
      using Cons.prems(1,3,4) Cons.IH [of d1] k q
      by (auto simp: proc_bind_def split: sum.split_asm prod.split_asm)
  next
    case False
    then show ?thesis using Cons.prems(1,2) by (auto split: sum.split_asm option.split_asm prod.split_asm)
  qed
qed simp

lemma refresh_providers_shut:
  assumes "refresh_providers env now es d = (Inr (), d')" "shut key ts T d" "now \<le> T" "\<forall>e \<in> set es. stale_event env key ts d e"
  shows "shut key ts T d'"
proof -
  obtain d1 es1 keys stale d2 old d3 where s:
    "rd_cacheInvokersMap d1 = rd_cacheInvokersMap d" "rd_closingTombstones d1 = rd_closingTombstones d"
    "list_all2 (\<lambda>e e1. \<exists>v. merged_url env d e = Inr v \<and> e1 = se_Update v e) es es1"
    "event_keys es1 = Inr keys" "drop_stale keys (map fst (rd_cacheInvokersMap d1)) d1 = (stale, d2)"
    "cache_events env now es1 d2 = (Inr old, d3)"
    "rd_cacheInvokersMap d' = rd_cacheInvokersMap d3" "rd_closingTombstones d' = rd_closingTombstones d3"
    using refresh_providers_stages [OF assms(1)] .
  have "shut key ts T d2"
    using drop_stale_map [OF s(5), of key] assms(2) s(1,2) by (auto simp: shut_def)
  moreover have "\<forall>e1 \<in> set es1. \<forall>e' u. se_Key e1 = Inr (key, e') \<longrightarrow> se_Service e1 = Some u \<longrightarrow> stale_url ts u"
  proof (intro ballI allI impI)
    fix e1 e' u assume e1: "e1 \<in> set es1" "se_Key e1 = Inr (key, e')" "se_Service e1 = Some u"
    then obtain e v where e: "e \<in> set es" "merged_url env d e = Inr v" "e1 = se_Update v e"
      using s(3) by (fastforce simp: list_all2_conv_all_nth in_set_conv_nth)
    then have "v = u" "merged_key env d e = Inr key" using e1 by (auto simp: se_Update_def intro: merged_key_of)
    then show "stale_url ts u" using assms(4) e by (auto simp: stale_event_def)
  qed
  ultimately have "shut key ts T d3" using cache_events_shut [OF s(6) _ assms(3)] by blast
  then show ?thesis using s(7,8) shut_fields by blast
qed


lemma setNewInvokers_shut: "setNewInvokers env d = (r, d') \<Longrightarrow> shut key ts T d \<Longrightarrow> shut key ts T d'"
  by (erule shut_fields) (simp_all add: setNewInvokers_tombstones setNewInvokers_frame [unfolded frame_def])

lemma destroy_shut: "shut key ts T d \<Longrightarrow> shut key ts T (fold destroy_invoker ivks d)"
  by (simp add: shut_def)

lemma destroy_one_shut: "shut key ts T d \<Longrightarrow> shut key ts T (destroy_invoker ivk d)"
  using destroy_shut [of key ts T d "[ivk]"] by simp

lemma refreshInvokers_shut:
  assumes "refreshInvokers env now event d = (Inr (), d')"
    and "\<And>r d1. (case event of None \<Rightarrow> proc_return [] | Some e \<Rightarrow> cacheInvokerByEvent env now e) d = (Inr r, d1) \<Longrightarrow> shut key ts T d1"
  shows "shut key ts T d'"
  using assms by (auto simp: refreshInvokers_def elim!: proc_bindE intro!: destroy_shut intro: setNewInvokers_shut)

lemma listener_shut:
  assumes "refreshInvokers env now None d = (Inr (), d')" "shut key ts T d"
  shows "shut key ts T d'"
  using assms by (auto intro: refreshInvokers_shut)

lemma uncacheInvokerWithKey_shut: "uncacheInvokerWithKey k d = (r, d') \<Longrightarrow> shut key ts T d \<Longrightarrow> shut key ts T d'"
  by (auto simp: uncacheInvokerWithKey_def shut_def Let_def)

lemma uncacheInvokerWithClusterID_shut:
  assumes "shut key ts T d"
  shows "shut key ts T (snd (uncacheInvokerWithClusterID c d))"
proof -
  have "shut key ts T e \<Longrightarrow>
      shut key ts T (snd (fold (\<lambda>key (removed, d). case uncacheInvokerWithKey key d of (r, d) \<Rightarrow> (removed @ [r], d)) ks (rs, e)))"
    for ks rs e
    by (induction ks arbitrary: rs e) (auto split: prod.split dest: uncacheInvokerWithKey_shut)
  then show ?thesis using assms by (simp add: uncacheInvokerWithClusterID_def)
qed

lemma uncacheInvoker_shut:
  assumes "uncacheInvoker e d = (Inr r, d')" "se_Key e = Inr (k, e')" "k \<noteq> key" "shut key ts T d"
  shows "shut key ts T d'"
proof -
  have "shut key ts T (clearClosingTombstone k d)" using assms(3,4) by (auto simp: clearClosingTombstone_def shut_def)
  note this uncacheInvokerWithClusterID_shut [OF this]
  then show ?thesis
    using assms(1,2)
    by (auto simp: uncacheInvoker_def Let_def split: option.split_asm if_split_asm prod.split_asm
        elim: uncacheInvokerWithKey_shut)
qed

lemma merged_url_origin [simp]:
  "merged_url env (d\<lparr>rd_cacheOriginUrl := v\<rparr>) = merged_url env d"
  unfolding merged_url_def overrideUrl_fields fun_eq_iff by simp

lemma cacheInvoker_returns:
  assumes "cacheInvoker env now (Some u) e d = (Inr old, d')" "se_Service e = Some u"
  obtains v where "d' = d\<lparr>rd_url := v, rd_cacheOriginUrl := Some u\<rparr>"
  | v w k e' r where "merged_url env d e = Inr w" "se_Key (se_Update w e) = Inr (k, e')"
      "doCacheInvoker env now w k (d\<lparr>rd_url := v, rd_cacheOriginUrl := Some u\<rparr>) = (Inr r, d')"
proof (cases "overrideUrl env d (rd_url d)")
  case Inl
  then show ?thesis using assms(1) by (simp add: cacheInvoker_def override_directory_def proc_bind_def)
next
  case v: (Inr v)
  let ?d = "d\<lparr>rd_url := v, rd_cacheOriginUrl := Some u\<rparr>"
  show ?thesis
  proof (cases "SubURL v")
    case None
    then show ?thesis using assms(1) v by (simp add: cacheInvoker_def override_directory_def proc_bind_def)
  next
    case (Some ref)
    show ?thesis
    proof (cases "Protocol u = Protocol ref \<or> Protocol ref = ''''")
      case True
      then obtain w k e' where w: "overrideUrl env d (MergeURL u ref) = Inr w" "se_Key (se_Update w e) = Inr (k, e')"
        "proc_bind (doCacheInvoker env now w k) (\<lambda>(old, ok) d. (Inr (if ok then old else None), d)) ?d = (Inr old, d')"
        using assms(1) v Some
        by (auto simp: cacheInvoker_def override_directory_def proc_bind_def [of "\<lambda>d. case _ of Inl p \<Rightarrow> _ p d | Inr u \<Rightarrow> _ u d"]
            split: sum.split_asm)
      then show ?thesis using that(2) [of w k e' v] v Some assms(2) by (auto simp: merged_url_def elim!: proc_bindE)
    next
      case False
      then show ?thesis
        using assms(1) v Some that(1) [of v] by (simp add: cacheInvoker_def override_directory_def proc_bind_def)
    qed
  qed
qed

lemma cacheInvokerByEvent_shut:
  assumes "cacheInvokerByEvent env now e d = (Inr r, d')" "shut key ts T d" "now \<le> T" "stale_event env key ts d e"
    and e: "se_Action e \<noteq> EventTypeDel" "se_Service e = Some u" "\<not> isConfiguratorURL (Some u)" "\<not> is_router_url u"
  shows "shut key ts T d'"
proof -
  have conv: "convertUrl e d = (Inr (Some u), d)" using e by (simp add: convertUrl_def)
  obtain old where "cacheInvoker env now (Some u) e d = (Inr old, d')"
    using assms(1) e(1) conv by (cases "se_Action e") (auto simp: cacheInvokerByEvent_def elim!: proc_bindE)
  then show ?thesis using e(2)
  proof (cases rule: cacheInvoker_returns)
    case (1 v)
    then show ?thesis using assms(2) by (simp add: shut_def)
  next
    case (2 v w k e' r)
    have "shut key ts T (d\<lparr>rd_url := v, rd_cacheOriginUrl := Some u\<rparr>)" using assms(2) by (simp add: shut_def)
    moreover have "stale_url ts w" if "k = key"
      using assms(4) 2(1,2) that merged_key_of by (fastforce simp: stale_event_def)
    ultimately show ?thesis using doCacheInvoker_shut [OF 2(3) _ assms(3)] by blast
  qed
qed


section \<open>Runs after a closing notice\<close>

text \<open>
  What may happen to the directory until time \<open>T\<close> without a newer start of the instance: full lists
  and single events whose URL for the instance is stale, deletions and closing notices of other
  instances and changes of the rules.
\<close>

inductive closing_step ::
  "'b registry_env \<Rightarrow> string \<Rightarrow> string \<Rightarrow> int \<Rightarrow> 'b RegistryDirectory \<Rightarrow> 'b RegistryDirectory \<Rightarrow> bool" for env key ts T where
  closing_all: "RegistryDirectory_NotifyAll env now es d = (Inr (), d') \<Longrightarrow> now \<le> T \<Longrightarrow>
    provider_events es d = (Inr ps, d1) \<Longrightarrow> \<forall>e \<in> set ps. stale_event env key ts d1 e \<Longrightarrow> closing_step env key ts T d d'"
| closing_add: "RegistryDirectory_Notify env now (Some e) d = (Inr (), d') \<Longrightarrow> now \<le> T \<Longrightarrow> se_Action e \<noteq> EventTypeDel \<Longrightarrow>
    se_Service e = Some u \<Longrightarrow> \<not> isConfiguratorURL (Some u) \<Longrightarrow> \<not> is_router_url u \<Longrightarrow> stale_event env key ts d e \<Longrightarrow>
    closing_step env key ts T d d'"
| closing_del: "RegistryDirectory_Notify env now (Some e) d = (Inr (), d') \<Longrightarrow> se_Action e = EventTypeDel \<Longrightarrow>
    se_Key e = Inr (k, e') \<Longrightarrow> k \<noteq> key \<Longrightarrow> closing_step env key ts T d d'"
| closing_other: "RemoveClosingInstance env now k d = (Inr b, d') \<Longrightarrow> k \<noteq> key \<Longrightarrow> closing_step env key ts T d d'"
| closing_consumer: "consumer_listener_Process env parse now ev d = (Inr (), d') \<Longrightarrow> closing_step env key ts T d d'"
| closing_reference: "reference_listener_Process env parse now ev d = (Inr (), d') \<Longrightarrow> closing_step env key ts T d d'"

inductive closing_run ::
  "'b registry_env \<Rightarrow> string \<Rightarrow> string \<Rightarrow> int \<Rightarrow> 'b RegistryDirectory \<Rightarrow> 'b RegistryDirectory \<Rightarrow> bool" for env key ts T d where
  closing_start: "closing_run env key ts T d d"
| closing_next: "closing_run env key ts T d d1 \<Longrightarrow> closing_step env key ts T d1 d2 \<Longrightarrow> closing_run env key ts T d d2"

lemma NotifyAll_shut:
  assumes "RegistryDirectory_NotifyAll env now es d = (Inr (), d')" "shut key ts T d" "now \<le> T"
    "provider_events es d = (Inr ps, d1)" "\<forall>e \<in> set ps. stale_event env key ts d1 e"
  shows "shut key ts T d'"
proof -
  have s1: "shut key ts T d1"
    using assms(2,4) by (auto simp: provider_events_def Let_def shut_def split: if_split_asm)
  have s2: "shut key ts T d2" if "refresh_providers env now ps d1 = (Inr (), d2)" for d2
    using refresh_providers_shut [OF that s1 assms(3,5)] .
  have upd: "shut key ts T e \<Longrightarrow> shut key ts T (e\<lparr>rd_callbacks := n\<rparr>)" for e n by (simp add: shut_def)
  show ?thesis
    using assms(1,4) by (auto simp: RegistryDirectory_NotifyAll_def split: if_split_asm prod.split_asm intro!: upd s1 dest: s2)
qed

lemma RemoveClosingInstance_other_shut:
  assumes "RemoveClosingInstance env now k d = (Inr b, d')" "k \<noteq> key" "shut key ts T d"
  shows "shut key ts T d'"
proof (cases "k = ''''")
  case False
  define d1 where "d1 = markClosingTombstone now k (map_of (rd_cacheInvokersMap d) k) ''closing-event'' d"
  have s1: "shut key ts T d1" using assms(2,3) by (auto simp: d1_def markClosingTombstone_def Let_def shut_def)
  obtain r d2 where r: "uncacheInvokerWithKey k d1 = (r, d2)" by fastforce
  have s2: "shut key ts T d2" using uncacheInvokerWithKey_shut [OF r s1] .
  show ?thesis
    using assms(1) False r s2
    by (auto simp: RemoveClosingInstance_def d1_def [symmetric] Let_def elim!: proc_bindE split: option.split_asm
        intro!: destroy_one_shut dest: setNewInvokers_shut)
qed (use assms in \<open>simp add: RemoveClosingInstance_def\<close>)

lemma RemoveClosingInstance_shut:
  assumes "RemoveClosingInstance env now key d = (Inr b, d')" "key \<noteq> ''''"
  shows "shut key (case map_of (rd_cacheInvokersMap d) key of None \<Rightarrow> '''' | Some ivk \<Rightarrow> GetParam (GetURL ivk) TimestampKey '''')
    (now + rd_closingTombstoneTTL d) d'"
    (is "shut key ?ts ?T d'")
proof -
  obtain r d2 where r: "uncacheInvokerWithKey key
      (markClosingTombstone now key (map_of (rd_cacheInvokersMap d) key) ''closing-event'' d) = (r, d2)" by fastforce
  have s2: "shut key ?ts ?T d2"
    using r assms(2)
    by (auto simp: uncacheInvokerWithKey_def markClosingTombstone_def Let_def shut_def split: option.split)
  show ?thesis
    using assms r s2
    by (auto simp: RemoveClosingInstance_def Let_def elim!: proc_bindE split: option.split_asm
        intro!: destroy_one_shut elim: setNewInvokers_shut)
qed

lemma closing_step_shut:
  assumes "closing_step env key ts T d d'" "shut key ts T d"
  shows "shut key ts T d'"
  using assms
proof (cases rule: closing_step.cases)
  case (closing_add now e u)
  then show ?thesis
    using refreshInvokers_shut [of env now "Some e" d d'] cacheInvokerByEvent_shut [of env now e d _ _ key ts T u] assms(2)
    by (simp add: RegistryDirectory_Notify_def)
next
  case (closing_del now e k e')
  then show ?thesis
    using refreshInvokers_shut [of env now "Some e" d d' key ts T] uncacheInvoker_shut [of e d _ _ k e' key ts T] assms(2)
    by (simp add: RegistryDirectory_Notify_def cacheInvokerByEvent_def)
next
  case (closing_consumer parse now ev)
  then obtain l where "refreshInvokers env now None (d\<lparr>rd_consumerListener := l\<rparr>) = (Inr (), d')"
    by (auto simp: consumer_listener_Process_def split: sum.split_asm)
  then show ?thesis by (rule listener_shut) (use assms(2) in \<open>simp add: shut_def\<close>)
next
  case (closing_reference parse now ev)
  then obtain l where "refreshInvokers env now None (d\<lparr>rd_referenceListener := l\<rparr>) = (Inr (), d')"
    by (auto simp: reference_listener_Process_def split: sum.split_asm)
  then show ?thesis by (rule listener_shut) (use assms(2) in \<open>simp add: shut_def\<close>)
qed (use assms(2) NotifyAll_shut RemoveClosingInstance_other_shut in blast)+

lemma closing_run_shut: "closing_run env key ts T d d' \<Longrightarrow> shut key ts T d \<Longrightarrow> shut key ts T d'"
  by (induction rule: closing_run.induct) (auto intro: closing_step_shut)


section \<open>Properties\<close>

text \<open>C2: in every run from a new directory, through single events, full lists, closing notices and
  changes of the rules, each invoker the protocol returned is either in the cache, once, or was
  destroyed, once: none leaks and none is destroyed twice.  Deletions of a whole mesh cluster are excepted.\<close>

theorem registry_owns_invokers:
  assumes "NewRegistryDirectory env parse pid ip app ttl st (\<lambda>d. (Inr None, d)) u w = Inr (Inr d)" "registry_run env d d'"
  shows "count (mset (map snd (rd_cacheInvokersMap d'))) ivk + count (mset (rd_gone d')) ivk =
    (if ivk \<in> set (rd_referred d') then 1 else 0)"
proof -
  have h: "held [] d'" using registry_run_held [OF assms(2) NewRegistryDirectory_new [OF assms(1)]] .
  then have "distinct (rd_referred d')" by (auto simp: held_def distinct_map)
  then show ?thesis using h by (auto simp: held_def distinct_count_atmost_1 dest: arg_cong [of _ _ "\<lambda>m. count m ivk"])
qed

text \<open>C7: destroying a directory whose providers all belong to one group destroys every invoker that
  the protocol ever returned to it and that was not destroyed before, whatever happened in between.\<close>

theorem Destroy_releases_invokers:
  assumes "NewRegistryDirectory env parse pid ip app ttl st (\<lambda>d. (Inr None, d)) u w = Inr (Inr d)" "registry_run env d d'"
    and "one_group (rd_cacheInvokersMap d')" "\<not> rd_destroyed d'"
  shows "mset (rd_gone (RegistryDirectory_Destroy d')) = mset (rd_referred d')"
  using Destroy_gone [OF registry_run_held registry_run_synced] NewRegistryDirectory_new [OF assms(1)]
    NewRegistryDirectory_synced [OF assms(1)] assms(2-4) by blast

text \<open>C1: after any run of single events, full lists, closing notices and changes of the rules, the invokers
  a directory that is not destroyed lists for a call are cached ones that were not destroyed, or wrappers
  that a script released around such invokers.  Its providers belong to one group, and the call
  sees its chain in states the chain can reach.\<close>

theorem registry_lists_live_invokers:
  assumes "NewRegistryDirectory env parse pid ip app ttl st (\<lambda>d. (Inr None, d)) u w = Inr (Inr d)" "registry_run env d d'"
    and "one_group (rd_cacheInvokersMap d')" "\<forall>c. rd_chain d' = Some c \<longrightarrow> reached_chain (r_routers env) c view"
    and "RegistryDirectory_List env draws view d' call = Inr (ivks, ws, call')" "x \<in> set ivks"
  shows "backed ws (filter (\<lambda>ivk. ivk \<notin> set (rd_gone d')) (map snd (rd_cacheInvokersMap d'))) x"
proof -
  have h: "held [] d'" using registry_run_held [OF assms(2) NewRegistryDirectory_new [OF assms(1)]] .
  have "synced d'" using registry_run_synced [OF assms(2)] NewRegistryDirectory_synced [OF assms(1)] .
  then have "chain_providers (rd_chain d') (rd_cacheInvokers d') = map snd (rd_cacheInvokersMap d')"
    using assms(3) by (auto simp: synced_def chain_providers_def split: option.split)
  moreover have "filter (\<lambda>ivk. ivk \<notin> set (rd_gone d')) (map snd (rd_cacheInvokersMap d')) = map snd (rd_cacheInvokersMap d')"
    using held_alive [OF h] by (auto simp: filter_id_conv)
  ultimately show ?thesis
    using registry_dir.listed_backed [of "(env, d')" "(draws, view)" call ivks ws call' x] assms(4-6) by simp
qed

text \<open>C3: a full list of providers without override rules replaces what the directory knew.  Afterwards
  only keys of the list are cached.  Every cached invoker has the URL of a provider of the list with
  its key, merged and overridden, or one that compares equal, or is the one cached under the key before,
  which stays when the protocol has no invoker for the new URL.  A provider of the list is
  cached, with such a URL of the list, if for each URL the list has under its key the protocol has
  an invoker and no tombstone of a closed instance keeps it out.\<close>

theorem NotifyAll_installs_list:
  assumes "RegistryDirectory_NotifyAll env now es d = (Inr (), d')" "\<forall>e \<in> set es. \<not> isConfiguratorURL (se_Service e)"
  shows "(\<forall>ivk. map_of (rd_cacheInvokersMap d') k = Some ivk \<longrightarrow>
       Inr k \<in> merged_key env d ` set es \<and> (installed env d es k ivk \<or> map_of (rd_cacheInvokersMap d) k = Some ivk)) \<and>
    (Inr k \<in> merged_key env d ` set es \<and>
       (\<forall>e \<in> set es. \<forall>u. merged_key env d e = Inr k \<and> merged_url env d e = Inr u \<longrightarrow>
          r_refer env u \<and> admits now (rd_closingTombstones d) k u) \<longrightarrow>
     (\<exists>ivk. map_of (rd_cacheInvokersMap d') k = Some ivk \<and> installed env d es k ivk))"
proof -
  obtain c d1 where r: "refresh_providers env now es (d\<lparr>rd_cachedProviderEvents := c\<rparr>) = (Inr (), d1)"
    and d': "d' = d1\<lparr>rd_callbacks := Suc (rd_callbacks d1)\<rparr>"
    using NotifyAll_providers [OF assms(1,2)] .
  show ?thesis
    using refresh_providers_exact [OF r, of k] unfolding d' merged_cached by (simp add: installed_def)
qed

text \<open>C4: an instance that gave notice of closing does not come back into the cache while its tombstone
  lasts, whatever full lists, events, notices about other instances and changes of the rules arrive,
  unless an event shows a different start time of the instance or deletes it.\<close>

theorem closing_instance_stays_out:
  assumes "RemoveClosingInstance env now key d = (Inr b, d1)" "key \<noteq> ''''"
    and "ts = (case map_of (rd_cacheInvokersMap d) key of None \<Rightarrow> '''' | Some ivk \<Rightarrow> GetParam (GetURL ivk) TimestampKey '''')"
    and "closing_run env key ts (now + rd_closingTombstoneTTL d) d1 d'"
  shows "map_of (rd_cacheInvokersMap d') key = None"
  using closing_run_shut [OF assms(4)] RemoveClosingInstance_shut [OF assms(1,2)] assms(3) by (simp add: shut_def)

section \<open>Samples\<close>

definition registry_sample :: "32 word list registry_env" where
  "registry_sample =
     \<lparr>r_routers = chain_env, r_factories = [TagRouteFactory],
      r_override = no_conditions, r_refer = \<lambda>_. True,
      r_equal = \<lambda>u v. IsEquals (Some u) (Some v) [], r_cluster = \<lambda>_. False\<rparr>"

definition registry_url :: url where
  "registry_url =
     Url (url.fields (NewURLWithOptions [WithProtocol ''registry'', WithIp ''10.0.0.8'', WithPort ''2181''])) (Some sample_consumer)"

definition provider_event :: "string \<Rightarrow> ServiceEvent" where
  "provider_event ip =
     \<lparr>se_Action = EventTypeAdd, se_Service = Some (upd (u_Ip_update (\<lambda>_. ip)) sample_provider), se_key = '''',
      se_updated = False, se_KeyFunc = None\<rparr>"

definition new_sample :: "(go_error + 32 word list RegistryDirectory) go" where
  "new_sample =
     NewRegistryDirectory registry_sample (\<lambda>_. Inr []) ''42'' ''10.0.0.9'' ''app'' 30 init_rpc_state (\<lambda>d. (Inr None, d))
       registry_url \<lparr>w_objects = [], w_programs = [], w_center = None, w_fresh = 100\<rparr>"

text \<open>A list of two providers, then a closing notice for the first of them.\<close>

definition sample_list :: "ServiceEvent list" where
  "sample_list = [provider_event ''10.0.0.2'', provider_event ''10.0.0.3'']"

definition listed_sample :: "32 word list RegistryDirectory \<Rightarrow> unit go \<times> 32 word list RegistryDirectory" where
  "listed_sample = RegistryDirectory_NotifyAll registry_sample 0 sample_list"

definition closed_sample :: "32 word list RegistryDirectory \<Rightarrow> bool go \<times> 32 word list RegistryDirectory" where
  "closed_sample d = RemoveClosingInstance registry_sample 5 (fst (hd (rd_cacheInvokersMap d))) d"

definition sample_trace ::
  "(32 word list RegistryDirectory \<times> 32 word list RegistryDirectory \<times> 32 word list RegistryDirectory) option" where
  "sample_trace =
     (case new_sample of
        Inr (Inr d) \<Rightarrow>
          (case listed_sample d of
             (Inr _, d1) \<Rightarrow> (case closed_sample d1 of (Inr _, d2) \<Rightarrow> Some (d, d1, d2) | _ \<Rightarrow> None)
           | _ \<Rightarrow> None)
      | _ \<Rightarrow> None)"

text \<open>The closed provider is still in the list at time 10.\<close>

definition trace_facts ::
  "32 word list RegistryDirectory \<Rightarrow> 32 word list RegistryDirectory \<Rightarrow> 32 word list RegistryDirectory \<Rightarrow> bool" where
  "trace_facts d d1 d2 \<longleftrightarrow>
     rd_closingTombstones d = [] \<and> length (rd_cacheInvokersMap d1) = 2 \<and> fst (hd (rd_cacheInvokersMap d1)) \<noteq> '''' \<and>
     map_of (rd_cacheInvokersMap d1) (fst (hd (rd_cacheInvokersMap d1))) = Some (snd (hd (rd_cacheInvokersMap d1))) \<and>
     length (rd_gone d2) = 1 \<and> length (rd_referred d2) = 2 \<and> \<not> rd_destroyed d2 \<and> one_group (rd_cacheInvokersMap d2)"

definition stale_list_facts :: "32 word list RegistryDirectory \<Rightarrow> 32 word list RegistryDirectory \<Rightarrow> bool" where
  "stale_list_facts d1 d2 \<longleftrightarrow>
     (case (RegistryDirectory_NotifyAll registry_sample 10 sample_list d2, provider_events sample_list d2) of
        ((Inr _, _), (Inr ps, dp)) \<Rightarrow>
          list_all (stale_event registry_sample (fst (hd (rd_cacheInvokersMap d1)))
            (GetParam (GetURL (snd (hd (rd_cacheInvokersMap d1)))) TimestampKey '''') dp) ps \<and>
          rd_closingTombstoneTTL d1 = 30
      | _ \<Rightarrow> False)"

definition listing_facts :: "32 word list RegistryDirectory \<Rightarrow> bool" where
  "listing_facts d1 \<longleftrightarrow>
     one_group (rd_cacheInvokersMap d1) \<and>
     (case (rd_chain d1, NewRouterChain chain_env [TagRouteFactory] registry_url
         \<lparr>w_objects = [], w_programs = [], w_center = None, w_fresh = 100\<rparr>) of
        (Some c, Inr (Inr start, _, w1)) \<Rightarrow>
          (case SetInvokers chain_env (c_invokers c) (start, w1) of
             (r, (c', w')) \<Rightarrow>
               r = Inr () \<and> c' = c \<and>
               (case RegistryDirectory_List registry_sample (\<lambda>_ _. 0) (\<lambda>_. (c_cache c, w')) d1 gray_call of
                  Inr (ivks, ws, _) \<Rightarrow> ivks \<noteq> [] \<and> ws = []
                | Inl _ \<Rightarrow> False))
      | _ \<Rightarrow> False)"

lemma sample_trace_facts:
  "case sample_trace of None \<Rightarrow> False | Some (d, d1, d2) \<Rightarrow> trace_facts d d1 d2 \<and> listing_facts d1"
  "case sample_trace of None \<Rightarrow> False | Some (d, d1, d2) \<Rightarrow> stale_list_facts d1 d2"
  by code_simp+

lemma sample_trace_steps:
  assumes "sample_trace = Some (d, d1, d2)"
  shows "new_sample = Inr (Inr d) \<and> listed_sample d = (Inr (), d1) \<and> (\<exists>b. closed_sample d1 = (Inr b, d2))"
  using assms by (auto simp: sample_trace_def split: sum.split_asm prod.split_asm)

lemma sample_run_returns:
  obtains d d1 b d2 where "new_sample = Inr (Inr d)" "listed_sample d = (Inr (), d1)" "closed_sample d1 = (Inr b, d2)"
    "trace_facts d d1 d2" "stale_list_facts d1 d2" "registry_run registry_sample d d2"
    "listing_facts d1" "registry_run registry_sample d d1"
proof -
  obtain d d1 d2 where t: "sample_trace = Some (d, d1, d2)"
    using sample_trace_facts(1) by (auto split: option.split_asm)
  have "trace_facts d d1 d2" "stale_list_facts d1 d2" "listing_facts d1" using sample_trace_facts by (simp_all add: t)
  note t = t this
  obtain b where s: "new_sample = Inr (Inr d)" "listed_sample d = (Inr (), d1)" "closed_sample d1 = (Inr b, d2)"
    using sample_trace_steps [OF t(1)] by blast
  have "registry_step registry_sample d d1" using s(2) unfolding listed_sample_def by (rule step_all)
  moreover have "registry_step registry_sample d1 d2" using s(3) unfolding closed_sample_def by (rule step_closing)
  ultimately have "registry_run registry_sample d d2" "registry_run registry_sample d d1" by (blast intro: registry_run.intros)+
  with s t show ?thesis using that by blast
qed

theorem registry_owns_invokers_witness:
  "\<exists>d d'. new_sample = Inr (Inr d) \<and> registry_run registry_sample d d' \<and> length (rd_referred d') = 2 \<and> length (rd_gone d') = 1 \<and>
     (\<forall>ivk. count (mset (map snd (rd_cacheInvokersMap d'))) ivk + count (mset (rd_gone d')) ivk =
        (if ivk \<in> set (rd_referred d') then 1 else 0))"
proof -
  obtain d d1 b d2 where s: "new_sample = Inr (Inr d)" "listed_sample d = (Inr (), d1)" "closed_sample d1 = (Inr b, d2)"
    "trace_facts d d1 d2" "stale_list_facts d1 d2" "registry_run registry_sample d d2"
    "listing_facts d1" "registry_run registry_sample d d1"
    by (rule sample_run_returns)
  then show ?thesis
    using registry_owns_invokers [OF s(1) [unfolded new_sample_def] s(6)] unfolding trace_facts_def by blast
qed

theorem Destroy_releases_invokers_witness:
  "\<exists>d d'. new_sample = Inr (Inr d) \<and> registry_run registry_sample d d' \<and> length (rd_gone d') = 1 \<and> length (rd_referred d') = 2 \<and>
     mset (rd_gone (RegistryDirectory_Destroy d')) = mset (rd_referred d')"
proof -
  obtain d d1 b d2 where s: "new_sample = Inr (Inr d)" "listed_sample d = (Inr (), d1)" "closed_sample d1 = (Inr b, d2)"
    "trace_facts d d1 d2" "stale_list_facts d1 d2" "registry_run registry_sample d d2"
    "listing_facts d1" "registry_run registry_sample d d1"
    by (rule sample_run_returns)
  then show ?thesis
    using Destroy_releases_invokers [OF s(1) [unfolded new_sample_def] s(6)] unfolding trace_facts_def by blast
qed

theorem NotifyAll_installs_list_witness:
  "\<exists>d d' k ivk. new_sample = Inr (Inr d) \<and>
     RegistryDirectory_NotifyAll registry_sample 0 sample_list d = (Inr (), d') \<and>
     Inr k \<in> merged_key registry_sample d ` set sample_list \<and>
     map_of (rd_cacheInvokersMap d') k = Some ivk \<and> installed registry_sample d sample_list k ivk"
proof -
  obtain d d1 b d2 where t: "new_sample = Inr (Inr d)" "listed_sample d = (Inr (), d1)" "closed_sample d1 = (Inr b, d2)"
    "trace_facts d d1 d2" "stale_list_facts d1 d2" "registry_run registry_sample d d2"
    "listing_facts d1" "registry_run registry_sample d d1"
    by (rule sample_run_returns)
  let ?k = "fst (hd (rd_cacheInvokersMap d1))"
  have s: "rd_closingTombstones d = []" "map_of (rd_cacheInvokersMap d1) ?k = Some (snd (hd (rd_cacheInvokersMap d1)))"
    using t(4) by (simp_all only: trace_facts_def)
  have "\<forall>e \<in> set sample_list. \<not> isConfiguratorURL (se_Service e)" by code_simp
  note list = NotifyAll_installs_list [OF t(2) [unfolded listed_sample_def] this, of ?k]
  have "Inr ?k \<in> merged_key registry_sample d ` set sample_list" using list s(2) by blast
  moreover have "r_refer registry_sample u" "admits 0 (rd_closingTombstones d) ?k u" for u
    by (simp_all add: registry_sample_def admits_def s(1))
  ultimately show ?thesis using list t(1,2) unfolding listed_sample_def by blast
qed

theorem closing_instance_stays_out_witness:
  "\<exists>d1 b d2 d3. closed_sample d1 = (Inr b, d2) \<and>
     RegistryDirectory_NotifyAll registry_sample 10 sample_list d2 = (Inr (), d3) \<and> length (rd_cacheInvokersMap d1) = 2 \<and>
     map_of (rd_cacheInvokersMap d3) (fst (hd (rd_cacheInvokersMap d1))) = None"
proof -
  obtain d d1 b d2 where s: "new_sample = Inr (Inr d)" "listed_sample d = (Inr (), d1)" "closed_sample d1 = (Inr b, d2)"
    "trace_facts d d1 d2" "stale_list_facts d1 d2" "registry_run registry_sample d d2"
    "listing_facts d1" "registry_run registry_sample d d1"
    by (rule sample_run_returns)
  let ?key = "fst (hd (rd_cacheInvokersMap d1))"
  let ?ts = "GetParam (GetURL (snd (hd (rd_cacheInvokersMap d1)))) TimestampKey ''''"
  have k: "map_of (rd_cacheInvokersMap d1) ?key = Some (snd (hd (rd_cacheInvokersMap d1)))" "?key \<noteq> ''''"
    "length (rd_cacheInvokersMap d1) = 2"
    using s(4) unfolding trace_facts_def by blast+
  obtain q d3 p dp where qp: "RegistryDirectory_NotifyAll registry_sample 10 sample_list d2 = (q, d3)"
    "provider_events sample_list d2 = (p, dp)" by (metis surj_pair)
  note facts = s(5) [unfolded stale_list_facts_def qp prod.case]
  obtain ps where ps: "q = Inr ()" "p = Inr ps" using facts by (cases q; cases p) simp_all
  note l = qp [unfolded ps]
  have "\<forall>e \<in> set ps. stale_event registry_sample ?key ?ts dp e" "rd_closingTombstoneTTL d1 = 30"
    using facts unfolding ps sum.case list_all_iff by blast+
  note l = l this
  have "closing_step registry_sample ?key ?ts (5 + rd_closingTombstoneTTL d1) d2 d3"
    by (rule closing_all [OF l(1) _ l(2,3)]) (simp add: l(4))
  then have "closing_run registry_sample ?key ?ts (5 + rd_closingTombstoneTTL d1) d2 d3" by (blast intro: closing_run.intros)
  then have "map_of (rd_cacheInvokersMap d3) ?key = None"
    by (rule closing_instance_stays_out [OF s(3) [unfolded closed_sample_def] k(2), rotated]) (simp only: k(1) option.case)
  then show ?thesis using s(3) l(1) k(3) by blast
qed


lemma listing_facts_reached:
  assumes "listing_facts d1"
  obtains c w ivks call' where "rd_chain d1 = Some c" "reached_chain chain_env c (\<lambda>_. (c_cache c, w))" "ivks \<noteq> []"
    "RegistryDirectory_List registry_sample (\<lambda>_ _. 0) (\<lambda>_. (c_cache c, w)) d1 gray_call = Inr (ivks, [], call')"
proof -
  let ?w0 = "\<lparr>w_objects = [], w_programs = [], w_center = None, w_fresh = 100\<rparr>"
  obtain c where c1: "rd_chain d1 = Some c" using assms unfolding listing_facts_def by (cases "rd_chain d1") simp_all
  have "\<exists>start u1 w1. NewRouterChain chain_env [TagRouteFactory] registry_url ?w0 = Inr (Inr start, u1, w1)"
  proof (cases "NewRouterChain chain_env [TagRouteFactory] registry_url ?w0")
    case (Inr p)
    obtain q u1 w1 where p: "p = (q, u1, w1)" by (metis surj_pair)
    show ?thesis using assms unfolding listing_facts_def c1 Inr p by (cases q) simp_all
  qed (use assms c1 in \<open>simp add: listing_facts_def\<close>)
  then obtain start u1 w1 where "NewRouterChain chain_env [TagRouteFactory] registry_url ?w0 = Inr (Inr start, u1, w1)" by blast
  note c = c1 this
  obtain r c' w' where s: "SetInvokers chain_env (c_invokers c) (start, w1) = (r, (c', w'))" by (metis surj_pair)
  have f: "r = Inr ()" "c' = c" "case RegistryDirectory_List registry_sample (\<lambda>_ _. 0) (\<lambda>_. (c_cache c, w')) d1 gray_call of
      Inr (ivks, ws, _) \<Rightarrow> ivks \<noteq> [] \<and> ws = [] | Inl _ \<Rightarrow> False"
    using assms unfolding listing_facts_def c by (simp_all add: s)
  have "chain_run chain_env (start, w1) 1 (c, w')"
    using chain_run.run_set [OF chain_run.run_start s [unfolded f(1,2)]] by simp
  moreover have "call_states chain_env 1 (c, w') (c, w') (\<lambda>_. (c_cache c, w'))"
    using chain_run.run_start [of chain_env "(c, w')"] unfolding call_states_def by force
  ultimately have "reached_chain chain_env c (\<lambda>_. (c_cache c, w'))" using c(2) unfolding reached_chain_def by blast
  then show ?thesis using that [of c w'] c(1) f(3) by (auto split: sum.split_asm prod.split_asm)
qed

theorem registry_lists_live_invokers_witness:
  "\<exists>d d' view ivks call' x. new_sample = Inr (Inr d) \<and> registry_run registry_sample d d' \<and>
     RegistryDirectory_List registry_sample (\<lambda>_ _. 0) view d' gray_call = Inr (ivks, [], call') \<and> x \<in> set ivks \<and>
     backed [] (filter (\<lambda>ivk. ivk \<notin> set (rd_gone d')) (map snd (rd_cacheInvokersMap d'))) x"
proof -
  obtain d d1 b d2 where s: "new_sample = Inr (Inr d)" "listed_sample d = (Inr (), d1)" "closed_sample d1 = (Inr b, d2)"
    "trace_facts d d1 d2" "stale_list_facts d1 d2" "registry_run registry_sample d d2"
    "listing_facts d1" "registry_run registry_sample d d1"
    by (rule sample_run_returns)
  obtain c w ivks call' where l: "rd_chain d1 = Some c" "reached_chain chain_env c (\<lambda>_. (c_cache c, w))" "ivks \<noteq> []"
    "RegistryDirectory_List registry_sample (\<lambda>_ _. 0) (\<lambda>_. (c_cache c, w)) d1 gray_call = Inr (ivks, [], call')"
    using s(7) by (rule listing_facts_reached)
  have one: "one_group (rd_cacheInvokersMap d1)" using s(7) unfolding listing_facts_def by blast
  have reached: "\<forall>c'. rd_chain d1 = Some c' \<longrightarrow> reached_chain (r_routers registry_sample) c' (\<lambda>_. (c_cache c, w))"
    using l(1,2) by (simp add: registry_sample_def)
  obtain x where x: "x \<in> set ivks" using l(3) by (cases ivks) auto
  show ?thesis
    by (intro exI conjI, rule s(1), rule s(8), rule l(4), rule x)
       (rule registry_lists_live_invokers [OF s(1) [unfolded new_sample_def] s(8) one reached l(4) x])
qed

end
