(* ===== verification/Spec2Isabelle.thy ===== *)
theory Spec2Isabelle
  imports Url Url_Parse Go_Float Rpc_Types Rpc_Status Load_Balance Least_Active P2C Round_Robin Iwrr
    Alias_Method Consistent_Hash Triple_Code Cluster_Base Cluster_Invokers Failback Version
    Condition_Match Router_Config Condition_Router Tag_Router Affinity_Router Script_Router Router_Chain
    Static_Directory Configurator Registry_Directory Registry_Sync
begin

text \<open>
  A verification development for the path of a call through the consumer side of dubbo-go: from the
  providers that a registry reports to the invoker that is called, and what happens when the call
  fails.

  \<^bold>\<open>The program.\<close>  A registry reports the providers of a service as URLs.  The registry directory
  (\<^verbatim>\<open>src/registry/directory\<close>) merges the consumer's URL into them, applies the overriding rules
  (\<^verbatim>\<open>src/config_center\<close>), keeps one invoker for each provider and hands the invokers to a chain of
  routers (\<^verbatim>\<open>src/cluster/router\<close>).  For a call the cluster invoker (\<^verbatim>\<open>src/cluster/cluster\<close>) lists the
  invokers of its directory, which the chain narrows down by conditions, tags, affinities and
  scripts; a load balancer (\<^verbatim>\<open>src/cluster/loadbalance\<close>) picks one of them, by weights, by the counters
  of \<^verbatim>\<open>src/protocol/base/rpc_status.go\<close> or by a hash of the call; and the cluster invoker retries,
  fails over, broadcasts or queues failed calls.  All configuration travels in URLs
  (\<^verbatim>\<open>src/common/url.go\<close>).

  \<^bold>\<open>The language.\<close>  A panic is a value of the type \<open>'a go\<close>, a procedure on a state \<open>'s\<close> is a function
  of type \<open>('s, 'a) proc\<close> that returns the state also after a panic, a Go map is an association list
  in an arbitrary order of iteration, and \<^verbatim>\<open>int64\<close> and \<^verbatim>\<open>int32\<close> are integers with the wrap-around
  written out (\<^verbatim>\<open>Go_Prelude\<close>).  Floating point numbers are rationals that are rounded after every
  operation (\<^verbatim>\<open>Go_Float\<close>).  Random draws, clock readings and the answers of remote services are
  arguments.  A lock makes an operation one step; where the code gives up a lock during an operation,
  the model has the states that other operations may have left as an argument or as steps of a
  relation (\<^const>\<open>call_states\<close>, \<^const>\<open>registry_step\<close>, the steps of \<^verbatim>\<open>Failback\<close>).

  \<^bold>\<open>The theories\<close>, with the sources they model:

  \<^item> \<^verbatim>\<open>Url\<close> and \<^verbatim>\<open>Url_Parse\<close> (\<^verbatim>\<open>common/url.go\<close>): the struct, its keys, parameters, merging, cloning and
    comparison; \<^const>\<open>NewURL\<close> with what it uses of \<^verbatim>\<open>net/url\<close>.  The invariant \<^const>\<open>url_ok\<close> is kept by
    every operation that does not install a whole parameter map; the comparison agrees with that of the
    flattened maps; the precedence of every parameter in a merge is given, with the cases where it
    differs from the documented one; the printed text of a URL is read back.
  \<^item> \<^verbatim>\<open>Rpc_Types\<close>, \<^verbatim>\<open>Triple_Code\<close> and \<^verbatim>\<open>Rpc_Status\<close> (\<^verbatim>\<open>protocol/invocation\<close>, \<^verbatim>\<open>protocol/result\<close>,
    \<^verbatim>\<open>protocol/base\<close>, the codes of \<^verbatim>\<open>protocol/triple\<close>): invocations, results, errors, codes and the call
    statistics, which count every call exactly.
  \<^item> \<^verbatim>\<open>Load_Balance\<close>, \<^verbatim>\<open>Least_Active\<close>, \<^verbatim>\<open>P2C\<close>, \<^verbatim>\<open>Round_Robin\<close>, \<^verbatim>\<open>Iwrr\<close>, \<^verbatim>\<open>Alias_Method\<close>, \<^verbatim>\<open>Consistent_Hash\<close>
    (\<^verbatim>\<open>cluster/loadbalance\<close>, \<^verbatim>\<open>cluster/metrics\<close>): each strategy with its own state.  The locales
    \<^verbatim>\<open>load_balance\<close>, \<^verbatim>\<open>total_load_balance\<close> and \<^verbatim>\<open>balancer\<close> say what a strategy promises (a candidate is
    returned, and which calls panic) and are interpreted for each of them.  The lemmas give the
    distribution of the choices: proportions of random draws, fairness over a period as a refinement
    of smooth weighted round robin, the successor on the ring and its stability.
  \<^item> \<^verbatim>\<open>Cluster_Base\<close>, \<^verbatim>\<open>Cluster_Invokers\<close>, \<^verbatim>\<open>Failback\<close> (\<^verbatim>\<open>cluster/cluster\<close>): selection with sticky
    invokers and re-selection over any balancer (locale \<^verbatim>\<open>cluster_balancer\<close>), the fault-tolerance
    strategies, and the failback queue as a transition system whose steps are the sections under its
    lock and the single actions outside of it.  The lemmas bound and justify the calls that are made, as
    the world records them, show that a call succeeds when a provider answers, that zone awareness calls
    a registry of the best rank, and that no retry starts once the queue is stopped.
  \<^item> \<^verbatim>\<open>Condition_Match\<close>, \<^verbatim>\<open>Router_Config\<close>, \<^verbatim>\<open>Condition_Router\<close>, \<^verbatim>\<open>Tag_Router\<close>, \<^verbatim>\<open>Affinity_Router\<close>,
    \<^verbatim>\<open>Script_Router\<close>, \<^verbatim>\<open>Version\<close>, \<^verbatim>\<open>Router_Chain\<close> (\<^verbatim>\<open>cluster/router\<close>, \<^verbatim>\<open>global\<close>, \<^verbatim>\<open>common/match.go\<close>): rules and
    routers, with their subscriptions to a configuration center, and the chain with its index.  The
    locale \<^verbatim>\<open>priority_router\<close> (a router returns some of the given invokers) is interpreted for the
    condition, tag and affinity routers.  The lemmas show that rules are read back from their text, that
    the bitmap index gives the answers of the plain search in every interleaving of calls with
    updates, and that the engine of scripts counts its users.
  \<^item> \<^verbatim>\<open>Static_Directory\<close>, \<^verbatim>\<open>Configurator\<close>, \<^verbatim>\<open>Registry_Directory\<close>, \<^verbatim>\<open>Registry_Sync\<close> (\<^verbatim>\<open>cluster/directory\<close>,
    \<^verbatim>\<open>config_center/configurator\<close>, \<^verbatim>\<open>config_center/parser\<close>, \<^verbatim>\<open>registry\<close>): directories and overriding rules.
    The locale \<^verbatim>\<open>invoker_directory\<close> (what a directory lists comes from the providers it was given) is
    interpreted for both kinds of directories.  Over runs of single events, full lists, closing
    notices and changes of the rules the lemmas show that every invoker is cached or destroyed,
    exactly once, that the directory lists only invokers that are alive, that after a full list only
    its keys are cached and all of them that the protocol and the tombstones admit, and that a closed
    instance stays out while its tombstone lasts.

  \<^bold>\<open>Bounds.\<close>  Loops are structural recursions or have a termination proof.  The loop of re-selection
  \<^const>\<open>reselect\<close> has three rounds, as in the code.  The retry of the random pair of the power-of-two strategy can go on for ever; its
  model runs over the sequence of draws, and it is shown to end at the first pair of different draws.
  The statements about the chain assume fewer than \<open>2 ^ 64\<close> updates, after which its generation wraps
  around, and at most \<open>2 ^ 32\<close> invokers, which is what the index can number.

  \<^bold>\<open>Parameters.\<close>  The third-party packages are arguments with named assumptions, which an instance
  satisfies: the roaring bitmaps, the JavaScript interpreter, the decoders of YAML and JSON, the queue
  and backoff packages of the failback cluster; hash functions, regular expressions, address blocks and the
  printing of values are arbitrary functions.

  \<^bold>\<open>Not modelled.\<close>  The registries, configuration centers, protocols and transports themselves, since
  they are input and output over third-party clients: the model has their events and answers as
  arguments.  The filters, the server side, the bootstrap, metrics, tracing and metadata, which take no part
  in the choice of an invoker.  The Polaris router, whose decisions are taken by its SDK.  Of the
  registry directory the subscription and the registration with its timer, and the directory of the
  service discovery registry, whose goroutines fetch metadata from remote services; of its constructor the
  attributes of the URL that no modelled code reads and the table through which closing notices
  arrive.  Data races, and the interleaving inside three operations that are one step here: setting
  the invokers of a chain, compiling a script, and a notification of the registry directory.
  Logging and the texts of most errors.
\<close>

end
